(* ===== verification/AosPrelude.thy ===== *)
theory AosPrelude
  imports Main "HOL-Library.Word"
begin

unbundle bit_operations_syntax

text \<open>
  Shared vocabulary of the development: the C integer types as words, the error codes of the
  seL4 invocations the sources test for, the lifting of a free-running ring buffer to a list, and
  the bounded FIFO interface that the queue components implement.

  Integers keep their C width.  A pointer is a \<open>u64\<close> address with 0 for NULL; objects of one C
  type live in a heap of their own, a total function from addresses.  A fixed C array is a list
  whose length is part of the component's invariant; a flexible array member is a total function
  from indices.
\<close>

section \<open>C integer types\<close>

type_synonym u8 = "8 word"
type_synonym u16 = "16 word"
type_synonym u32 = "32 word"
type_synonym u64 = "64 word"

text \<open>
  \<open>seL4_Word\<close> and \<open>seL4_CPtr\<close> on the 64-bit targets; the null capability is slot 0.
\<close>

type_synonym seL4_Word = u64
type_synonym seL4_CPtr = u64

abbreviation (input) seL4_CapNull :: seL4_CPtr where
  "seL4_CapNull \<equiv> 0"

text \<open>
  The outcomes of a kernel invocation.  The kernel itself is not part of the sources: every
  component that invokes it takes the kernel's answers as a parameter.
\<close>

datatype seL4_Error =
    seL4_NoError
  | seL4_InvalidArgument
  | seL4_InvalidCapability
  | seL4_IllegalOperation
  | seL4_RangeError
  | seL4_AlignmentError
  | seL4_FailedLookup
  | seL4_TruncatedMessage
  | seL4_DeleteFirst
  | seL4_RevokeFirst
  | seL4_NotEnoughMemory

section \<open>Automation\<close>

named_theorems word_nat_simps \<open>facts that read word arithmetic as natural-number arithmetic\<close>
named_theorems inv_intros \<open>preservation lemmas of the component invariants\<close>

declare word_less_nat_alt [word_nat_simps]
  and word_le_nat_alt [word_nat_simps]

lemma unat_eq_0_iff [simp]: "unat w = 0 \<longleftrightarrow> w = 0"
  by (rule unat_eq_zero)

lemma unat_pos_iff [simp]: "0 < unat x \<longleftrightarrow> x \<noteq> 0"
  by (simp add: zero_less_iff_neq_zero)

lemma unat_plus_no_overflow:
  fixes a b :: "'w::len word"
  assumes "unat a + unat b < 2 ^ LENGTH('w)"
  shows "unat (a + b) = unat a + unat b"
  using assms by (simp add: unat_word_ariths)

lemma unat_succ_no_overflow:
  fixes a b :: "'w::len word"
  assumes "a < b"
  shows "unat (a + 1) = Suc (unat a)"
proof -
  have "unat a < unat b" using assms by (simp add: word_less_nat_alt)
  moreover have "unat b < 2 ^ LENGTH('w)" by simp
  ultimately have "unat a + unat (1 :: 'w word) < 2 ^ LENGTH('w)"
    by (simp only: unat_1)
  then show ?thesis by (simp only: unat_plus_no_overflow unat_1 Suc_eq_plus1)
qed

text \<open>The C idiom for a wrapped sum: the result is below an operand exactly on overflow.\<close>

lemma word_sum_wrap_iff:
  fixes a b :: "'w::len word"
  shows "a + b < a \<longleftrightarrow> 2 ^ LENGTH('w) \<le> unat a + unat b"
proof -
  have a: "unat a < 2 ^ LENGTH('w)" and b: "unat b < 2 ^ LENGTH('w)"
    by simp_all
  show ?thesis
  proof (cases "unat a + unat b < 2 ^ LENGTH('w)")
    case True
    then show ?thesis by (simp add: word_less_nat_alt unat_plus_no_overflow)
  next
    case False
    moreover have "unat a + unat b - 2 ^ LENGTH('w) < 2 ^ LENGTH('w)"
      using a b by linarith
    ultimately have "(unat a + unat b) mod 2 ^ LENGTH('w) = unat a + unat b - 2 ^ LENGTH('w)"
      by (simp add: le_mod_geq)
    moreover have "unat a + unat b - 2 ^ LENGTH('w) < unat a"
      using False b by linarith
    ultimately show ?thesis using False by (simp add: word_less_nat_alt unat_word_ariths)
  qed
qed

lemma unat_sub_le:
  fixes a b :: "'w::len word"
  assumes "b \<le> a"
  shows "unat (a - b) = unat a - unat b"
  using assms by (simp add: unat_sub)

lemma unat_ucast_small:
  fixes w :: "'a::len word"
  assumes "unat w < 2 ^ LENGTH('b)"
  shows "unat (ucast w :: 'b::len word) = unat w"
  using assms by (simp add: unsigned_ucast_eq take_bit_nat_eq_self)

lemma unat_ucast_up:
  fixes w :: "'a::len word"
  assumes "LENGTH('a) \<le> LENGTH('b)"
  shows "unat (ucast w :: 'b::len word) = unat w"
proof (rule unat_ucast_small)
  have "unat w < 2 ^ LENGTH('a)" by simp
  also have "\<dots> \<le> (2 :: nat) ^ LENGTH('b)" using assms by simp
  finally show "unat w < 2 ^ LENGTH('b)" .
qed

section \<open>Searching a table by index\<close>

lemma find_index_iff:
  "find P [0..<n] = Some i \<longleftrightarrow> i < n \<and> P i \<and> (\<forall>j < i. \<not> P j)"
  by (auto simp: find_Some_iff)

lemma find_index_None: "find P [0..<n] = None \<longleftrightarrow> (\<forall>i < n. \<not> P i)"
  by (auto simp: find_None_iff)

section \<open>Free-running rings\<close>

text \<open>
  A ring with free-running producer and consumer indices of width \<open>'w\<close>: the slot of an index is
  the index modulo the capacity, and the number of elements is the wrapped difference of the
  indices.  \<open>ring_list\<close> reads the elements in consumption order.
\<close>

definition ring_list :: "(nat \<Rightarrow> 'a) \<Rightarrow> nat \<Rightarrow> 'w::len word \<Rightarrow> 'w word \<Rightarrow> 'a list" where
  "ring_list buf cap h t = map (\<lambda>i. buf ((unat h + i) mod cap)) [0..<unat (t - h)]"

lemma length_ring_list [simp]: "length (ring_list buf cap h t) = unat (t - h)"
  by (simp add: ring_list_def)

lemma ring_list_empty_iff [simp]: "ring_list buf cap h t = [] \<longleftrightarrow> h = t"
  by (auto simp: ring_list_def)

lemma ring_list_same [simp]: "ring_list buf cap h h = []"
  by simp

text \<open>
  The indices wrap at \<open>2 ^ LENGTH('w)\<close>.  The slot sequence stays cyclic across that wrap only
  when the capacity divides it.
\<close>

lemma slot_of_wrapped_index:
  fixes h :: "'w::len word"
  assumes "cap dvd 2 ^ LENGTH('w)"
  shows "unat (h + of_nat i) mod cap = (unat h + i) mod cap"
proof -
  have "unat (h + of_nat i) = (unat h + i) mod 2 ^ LENGTH('w)"
    by (simp add: unat_word_ariths unat_of_nat mod_add_right_eq)
  with assms show ?thesis by (simp add: mod_mod_cancel)
qed

lemma ring_list_Cons:
  fixes h t :: "'w::len word"
  assumes ne: "h \<noteq> t" and dvd: "cap dvd 2 ^ LENGTH('w)"
  shows "ring_list buf cap h t = buf (unat h mod cap) # ring_list buf cap (h + 1) t"
proof -
  have nz: "t - h \<noteq> 0" using ne by simp
  have len: "unat (t - h) = Suc (unat (t - (h + 1)))"
  proof -
    have "t - (h + 1) = (t - h) - 1" by simp
    moreover have "unat (t - h) \<noteq> 0" using nz by (simp only: unat_eq_0_iff not_False_eq_True)
    ultimately show ?thesis by (simp only: unat_minus_one [OF nz])
  qed
  have step: "(unat (h + 1) + i) mod cap = (unat h + Suc i) mod cap" for i
  proof -
    have "(unat (h + 1) + i) mod cap = (unat (h + of_nat 1) mod cap + i) mod cap"
      by (simp add: mod_add_left_eq)
    also have "\<dots> = ((unat h + 1) mod cap + i) mod cap"
      by (simp only: slot_of_wrapped_index [OF dvd])
    also have "\<dots> = (unat h + Suc i) mod cap"
      by (simp add: mod_add_left_eq)
    finally show ?thesis .
  qed
  show ?thesis
    unfolding ring_list_def len
    by (simp add: upt_conv_Cons map_Suc_upt [symmetric] step del: upt_Suc)
qed

lemma ring_list_snoc:
  fixes h t :: "'w::len word"
  assumes room: "unat (t - h) < cap"
    and dvd: "cap dvd 2 ^ LENGTH('w)" and small: "cap < 2 ^ LENGTH('w)"
  shows "ring_list (buf(unat t mod cap := x)) cap h (t + 1) = ring_list buf cap h t @ [x]"
proof -
  let ?n = "unat (t - h)"
  have len: "unat (t + 1 - h) = Suc ?n"
  proof -
    have "t + 1 - h = (t - h) + 1" by simp
    moreover have "Suc ?n < 2 ^ LENGTH('w)" using room small by linarith
    ultimately show ?thesis by (simp only: unat_plus_no_overflow unat_1 Suc_eq_plus1)
  qed
  have tl: "unat t mod cap = (unat h + ?n) mod cap"
    using slot_of_wrapped_index [OF dvd, of h ?n] by simp
  have other: "(unat h + i) mod cap \<noteq> unat t mod cap" if "i < ?n" for i
  proof
    assume "(unat h + i) mod cap = unat t mod cap"
    then have "cap dvd (unat h + ?n) - (unat h + i)"
      unfolding tl using that mod_eq_dvd_iff_nat [of "unat h + i" "unat h + ?n" cap] by simp
    then have "cap dvd ?n - i" by simp
    moreover have "0 < ?n - i" "?n - i < cap" using that room by auto
    ultimately show False using nat_dvd_not_less by blast
  qed
  show ?thesis
    unfolding ring_list_def len by (simp add: tl [symmetric] other)
qed

section \<open>The bounded FIFO interface\<close>

text \<open>
  One producer and one consumer act on a queue in any order.  \<open>fifo_run\<close> executes such an
  interleaving and records what the producer got accepted and what the consumer was handed.
\<close>

datatype 'a fifo_op = Put 'a | Get

fun fifo_run :: "('q \<Rightarrow> 'a \<Rightarrow> 'q option) \<Rightarrow> ('q \<Rightarrow> ('a \<times> 'q) option) \<Rightarrow> 'q \<Rightarrow>
    'a fifo_op list \<Rightarrow> 'a list \<times> 'a list \<times> 'q" where
  "fifo_run enq deq q [] = ([], [], q)"
| "fifo_run enq deq q (Put x # ops) =
     (case enq q x of
        None \<Rightarrow> fifo_run enq deq q ops
      | Some q' \<Rightarrow> (case fifo_run enq deq q' ops of (ins, outs, q'') \<Rightarrow> (x # ins, outs, q'')))"
| "fifo_run enq deq q (Get # ops) =
     (case deq q of
        None \<Rightarrow> fifo_run enq deq q ops
      | Some (x, q') \<Rightarrow> (case fifo_run enq deq q' ops of (ins, outs, q'') \<Rightarrow> (ins, x # outs, q'')))"

locale bounded_fifo =
  fixes enq :: "'q \<Rightarrow> 'a \<Rightarrow> 'q option"
    and deq :: "'q \<Rightarrow> ('a \<times> 'q) option"
    and contents :: "'q \<Rightarrow> 'a list"
    and wf :: "'q \<Rightarrow> bool"
    and cap :: nat
  assumes contents_bound: "wf q \<Longrightarrow> length (contents q) \<le> cap"
    and enq_room: "wf q \<Longrightarrow> length (contents q) < cap \<Longrightarrow>
          \<exists>q'. enq q x = Some q' \<and> wf q' \<and> contents q' = contents q @ [x]"
    and enq_full: "wf q \<Longrightarrow> length (contents q) = cap \<Longrightarrow> enq q x = None"
    and deq_empty: "wf q \<Longrightarrow> contents q = [] \<Longrightarrow> deq q = None"
    and deq_nonempty: "wf q \<Longrightarrow> contents q = x # xs \<Longrightarrow>
          \<exists>q'. deq q = Some (x, q') \<and> wf q' \<and> contents q' = xs"
begin

lemma enq_cases:
  assumes "wf q"
  obtains (full) "enq q x = None" "length (contents q) = cap"
    | (room) q' where "enq q x = Some q'" "wf q'" "contents q' = contents q @ [x]"
  using assms contents_bound [OF assms] enq_room [OF assms, of x] enq_full [OF assms, of x]
  by (cases "length (contents q) < cap") auto

lemma deq_cases:
  assumes "wf q"
  obtains (empty) "deq q = None" "contents q = []"
    | (some) x q' where "deq q = Some (x, q')" "wf q'" "contents q = x # contents q'"
  using assms deq_empty [OF assms] deq_nonempty [OF assms]
  by (cases "contents q") auto

text \<open>
  Nothing is lost, duplicated or reordered: what was delivered, followed by what is still queued,
  is what was queued at the start followed by what was accepted.
\<close>

lemma run_conserves:
  assumes "wf q" and "fifo_run enq deq q ops = (ins, outs, q')"
  shows "wf q' \<and> contents q @ ins = outs @ contents q'"
  using assms
proof (induction ops arbitrary: q ins outs)
  case Nil
  then show ?case by simp
next
  case (Cons op ops)
  show ?case
  proof (cases op)
    case (Put x)
    from Cons.prems(1) show ?thesis
    proof (cases rule: enq_cases [where x = x])
      case full
      with Put Cons show ?thesis by simp
    next
      case (room q1)
      with Put Cons.prems obtain ins' where
        "fifo_run enq deq q1 ops = (ins', outs, q')" "ins = x # ins'"
        by (auto split: prod.splits)
      with room Cons.IH [of q1 ins' outs] show ?thesis by simp
    qed
  next
    case Get
    from Cons.prems(1) show ?thesis
    proof (cases rule: deq_cases)
      case empty
      with Get Cons.prems Cons.IH [of q ins outs] show ?thesis by simp
    next
      case (some x q1)
      with Get Cons.prems obtain outs' where
        "fifo_run enq deq q1 ops = (ins, outs', q')" "outs = x # outs'"
        by (auto split: prod.splits)
      with some Cons.IH [of q1 ins outs'] show ?thesis by simp
    qed
  qed
qed

lemma run_bounded:
  assumes "wf q" and "fifo_run enq deq q ops = (ins, outs, q')"
  shows "length (contents q') \<le> cap"
  using run_conserves [OF assms] contents_bound by blast

end

lemma list_all_update: "list_all P xs \<Longrightarrow> P x \<Longrightarrow> list_all P (xs[i := x])"
  using set_update_subset_insert [of xs i x] by (auto simp: list_all_iff)

end
