(* ===== verification/ByteHeap.thy ===== *)
theory ByteHeap
  imports AosPrelude
begin

text \<open>
  Byte-addressed memory and the freestanding byte loops of the sources.  Addresses wrap at 64
  bits, as \<open>uintptr_t\<close> arithmetic does.
\<close>

type_synonym byte_heap = "u64 \<Rightarrow> u8"

text \<open>\<open>aos_copy\<close>: the forward byte loop \<open>while (n-- > 0) *d++ = *s++\<close>.\<close>

fun aos_copy :: "byte_heap \<Rightarrow> u64 \<Rightarrow> u64 \<Rightarrow> nat \<Rightarrow> byte_heap" where
  "aos_copy b d s 0 = b"
| "aos_copy b d s (Suc n) = aos_copy (b(d := b s)) (d + 1) (s + 1) n"

definition window :: "u64 \<Rightarrow> nat \<Rightarrow> u64 set" where
  "window base n = (\<lambda>i. base + of_nat i) ` {..<n}"

lemma windowI [intro]: "i < n \<Longrightarrow> base + of_nat i \<in> window base n"
  by (auto simp: window_def)

lemma windowE:
  assumes "x \<in> window base n"
  obtains i where "i < n" "x = base + of_nat i"
  using assms by (auto simp: window_def)

lemma window_0 [simp]: "window base 0 = {}"
  by (simp add: window_def)

lemma window_Suc: "window base (Suc n) = insert base (window (base + 1) n)"
  unfolding window_def lessThan_Suc_eq_insert_0
  by (simp add: image_image add.assoc)

text \<open>A window inside a window: an offset range bounded by the enclosing length.\<close>

lemma window_sub:
  assumes "off + n \<le> len"
  shows "window (base + of_nat off) n \<subseteq> window base len"
proof
  fix x assume "x \<in> window (base + of_nat off) n"
  then obtain i where "i < n" "x = base + of_nat (off + i)"
    by (auto elim!: windowE simp: add.assoc)
  moreover from \<open>i < n\<close> assms have "off + i < len" by simp
  ultimately show "x \<in> window base len" by blast
qed

lemma window_unat:
  assumes "unat base + n \<le> 2 ^ 64" and "x \<in> window base n"
  shows "unat base \<le> unat x \<and> unat x < unat base + n"
proof -
  obtain i where i: "i < n" "x = base + of_nat i" using assms(2) by (rule windowE)
  with assms(1) have "unat (of_nat i :: u64) = i" and "unat base + i < 2 ^ 64"
    by (auto simp: unat_of_nat)
  then have "unat x = unat base + i" unfolding i(2) by (subst unat_plus_no_overflow) simp_all
  with i(1) show ?thesis by simp
qed

lemma window_disjoint:
  assumes "unat a + n \<le> unat b" and "unat b + k \<le> 2 ^ 64"
  shows "window a n \<inter> window b k = {}"
proof -
  have "unat a + n \<le> 2 ^ 64" using assms by simp
  then show ?thesis
    using window_unat [of a n] window_unat [of b k] assms by fastforce
qed

lemma aos_copy_frame: "x \<notin> window d n \<Longrightarrow> aos_copy b d s n x = b x"
  by (induction b d s n rule: aos_copy.induct) (auto simp: window_Suc)

text \<open>
  Between disjoint ranges that do not wrap onto themselves the loop copies exactly.
\<close>

lemma aos_copy_copies:
  assumes "i < n" and "n \<le> 2 ^ 64" and "window d n \<inter> window s n = {}"
  shows "aos_copy b d s n (d + of_nat i) = b (s + of_nat i)"
  using assms
proof (induction b d s n arbitrary: i rule: aos_copy.induct)
  case (1 b d s)
  then show ?case by simp
next
  case (2 b d s n)
  have disj: "window (d + 1) n \<inter> window (s + 1) n = {}"
    and ds: "d \<notin> window (s + 1) n"
    using "2.prems"(3) by (auto simp: window_Suc)
  show ?case
  proof (cases i)
    case 0
    have "d \<notin> window (d + 1) n"
    proof
      assume "d \<in> window (d + 1) n"
      then obtain j where j: "j < n" and "d = d + 1 + of_nat j" by (rule windowE)
      then have "of_nat (Suc j) = (0 :: u64)" by (simp add: add.commute)
      then have "2 ^ 64 dvd Suc j" unfolding word_of_nat_eq_0_iff by simp
      moreover have "Suc j < 2 ^ 64" using j "2.prems"(2) by simp
      ultimately show False by (auto dest: dvd_imp_le)
    qed
    then show ?thesis using 0 by (simp add: aos_copy_frame)
  next
    case (Suc k)
    with "2.prems" have k: "k < n" "n \<le> 2 ^ 64" by auto
    have "s + 1 + of_nat k \<noteq> d" using ds k(1) by blast
    moreover have "aos_copy (b(d := b s)) (d + 1) (s + 1) n (d + 1 + of_nat k) =
        (b(d := b s)) (s + 1 + of_nat k)"
      using "2.IH" [OF k disj] .
    ultimately show ?thesis by (simp add: Suc add.assoc)
  qed
qed

end
