(* ===== verification/NetVirt.thy ===== *)
theory NetVirt
  imports AosPrelude ByteHeap
begin

text \<open>
  The network virtualizer's queues and pump (\<open>platform/net-virt/net_virt_pump.c\<close>, with the layout
  of \<open>platform/include/platform/net_layout.h\<close> and the inline helpers of \<open>net_virt_pump.h\<close>).

  The shared memory is \<open>net_mem\<close>: a heap of queue objects and a heap of bytes.  A client is the
  C struct of addresses into it.  Descriptors come from other protection domains, so nothing is
  assumed of their contents.
\<close>

section \<open>Layout\<close>

definition AOS_NET_BUFFER_SIZE :: nat where "AOS_NET_BUFFER_SIZE = 2048"
definition AOS_NET_CAPACITY :: nat where "AOS_NET_CAPACITY = 32"
definition AOS_NET_MAX_CLIENTS :: nat where "AOS_NET_MAX_CLIENTS = 4"
definition AOS_NET_CLIENT_STRIDE :: nat where "AOS_NET_CLIENT_STRIDE = 0x200000"
definition AOS_NET_RX_FREE_OFF :: nat where "AOS_NET_RX_FREE_OFF = 0"
definition AOS_NET_RX_ACTIVE_OFF :: nat where "AOS_NET_RX_ACTIVE_OFF = 0x1000"
definition AOS_NET_TX_FREE_OFF :: nat where "AOS_NET_TX_FREE_OFF = 0x2000"
definition AOS_NET_TX_ACTIVE_OFF :: nat where "AOS_NET_TX_ACTIVE_OFF = 0x3000"
definition AOS_NET_RX_DATA_OFF :: nat where "AOS_NET_RX_DATA_OFF = 0x4000"
definition AOS_NET_RX_DATA_BYTES :: nat where
  "AOS_NET_RX_DATA_BYTES = AOS_NET_CAPACITY * AOS_NET_BUFFER_SIZE"
definition AOS_NET_TX_DATA_OFF :: nat where
  "AOS_NET_TX_DATA_OFF = AOS_NET_RX_DATA_OFF + AOS_NET_RX_DATA_BYTES"

lemmas net_layout_defs = AOS_NET_BUFFER_SIZE_def AOS_NET_CAPACITY_def AOS_NET_MAX_CLIENTS_def
  AOS_NET_CLIENT_STRIDE_def AOS_NET_RX_FREE_OFF_def AOS_NET_RX_ACTIVE_OFF_def
  AOS_NET_TX_FREE_OFF_def AOS_NET_TX_ACTIVE_OFF_def AOS_NET_RX_DATA_OFF_def
  AOS_NET_RX_DATA_BYTES_def AOS_NET_TX_DATA_OFF_def

record aos_net_buff_desc =
  nd_io_or_offset :: u64
  nd_len :: u16
  nd_pad0 :: u16
  nd_pad1 :: u32

record aos_net_queue =
  nq_tail :: u16
  nq_head :: u16
  nq_consumer_signalled :: u32
  nq_buffers :: "nat \<Rightarrow> aos_net_buff_desc"

record aos_net_virt_client =
  nc_rx_free :: u64
  nc_rx_active :: u64
  nc_tx_free :: u64
  nc_tx_active :: u64
  nc_rx_data :: u64
  nc_tx_data :: u64
  nc_capacity :: u32

record aos_net_virt =
  nv_clients :: "aos_net_virt_client list"
  nv_num_clients :: u32

record net_mem =
  nm_queues :: "u64 \<Rightarrow> aos_net_queue"
  nm_bytes :: byte_heap

section \<open>Queue operations\<close>

definition aos_net_queue_length :: "aos_net_queue \<Rightarrow> u16" where
  "aos_net_queue_length q = nq_tail q - nq_head q"

definition aos_net_buffer_valid :: "u64 \<Rightarrow> u32 \<Rightarrow> bool" where
  "aos_net_buffer_valid offset len \<longleftrightarrow>
     unat offset < AOS_NET_RX_DATA_BYTES \<and>
     unat offset mod AOS_NET_BUFFER_SIZE = 0 \<and>
     unat len \<le> AOS_NET_BUFFER_SIZE"

definition aos_net_queue_dequeue ::
    "net_mem \<Rightarrow> u64 \<Rightarrow> u32 \<Rightarrow> (aos_net_buff_desc \<times> net_mem) option" where
  "aos_net_queue_dequeue m q capacity =
     (if q = 0 \<or> capacity = 0 \<or> AOS_NET_CAPACITY < unat capacity then None
      else
        let Q = nm_queues m q; tail = nq_tail Q; head = nq_head Q; len = tail - head in
        if len = 0 \<or> unat capacity < unat len then None
        else
          let out = nq_buffers Q (unat head mod unat capacity) in
          Some (out, m\<lparr>nm_queues := (nm_queues m)(q := Q\<lparr>nq_head := head + 1\<rparr>)\<rparr>))"

definition aos_net_queue_enqueue ::
    "net_mem \<Rightarrow> u64 \<Rightarrow> u32 \<Rightarrow> aos_net_buff_desc \<Rightarrow> net_mem option" where
  "aos_net_queue_enqueue m q capacity buf =
     (if q = 0 \<or> capacity = 0 \<or> AOS_NET_CAPACITY < unat capacity then None
      else
        let Q = nm_queues m q; tail = nq_tail Q; head = nq_head Q in
        if unat capacity \<le> unat (tail - head) then None
        else
          Some (m\<lparr>nm_queues := (nm_queues m)(q := Q\<lparr>
            nq_buffers := (nq_buffers Q)(unat tail mod unat capacity := buf),
            nq_tail := tail + 1\<rparr>)\<rparr>))"

section \<open>Clients\<close>

definition zero_net_desc :: aos_net_buff_desc where
  "zero_net_desc = \<lparr>nd_io_or_offset = 0, nd_len = 0, nd_pad0 = 0, nd_pad1 = 0\<rparr>"

definition zero_net_queue :: aos_net_queue where
  "zero_net_queue = \<lparr>nq_tail = 0, nq_head = 0, nq_consumer_signalled = 0,
     nq_buffers = (\<lambda>_. zero_net_desc)\<rparr>"

definition zero_net_client :: aos_net_virt_client where
  "zero_net_client = \<lparr>nc_rx_free = 0, nc_rx_active = 0, nc_tx_free = 0, nc_tx_active = 0,
     nc_rx_data = 0, nc_tx_data = 0, nc_capacity = 0\<rparr>"

definition aos_net_virt_reset :: "aos_net_virt option \<Rightarrow> aos_net_virt option" where
  "aos_net_virt_reset v =
     (case v of
        None \<Rightarrow> None
      | Some _ \<Rightarrow> Some \<lparr>nv_clients = replicate AOS_NET_MAX_CLIENTS zero_net_client,
                         nv_num_clients = 0\<rparr>)"

definition aos_net_client_bind ::
    "u64 \<Rightarrow> u32 \<Rightarrow> aos_net_virt_client \<Rightarrow> aos_net_virt_client" where
  "aos_net_client_bind region client_index out =
     (if region = 0 \<or> AOS_NET_MAX_CLIENTS \<le> unat client_index then out
      else
        let base = region + of_nat (unat client_index * AOS_NET_CLIENT_STRIDE) in
        \<lparr>nc_rx_free = base + of_nat AOS_NET_RX_FREE_OFF,
         nc_rx_active = base + of_nat AOS_NET_RX_ACTIVE_OFF,
         nc_tx_free = base + of_nat AOS_NET_TX_FREE_OFF,
         nc_tx_active = base + of_nat AOS_NET_TX_ACTIVE_OFF,
         nc_rx_data = base + of_nat AOS_NET_RX_DATA_OFF,
         nc_tx_data = base + of_nat AOS_NET_TX_DATA_OFF,
         nc_capacity = of_nat AOS_NET_CAPACITY\<rparr>)"

text \<open>The free queue as \<open>aos_net_client_init_buffers\<close> fills it: descriptor \<open>i\<close> is buffer \<open>i\<close>.\<close>

definition free_net_queue :: "nat \<Rightarrow> aos_net_queue" where
  "free_net_queue cap = zero_net_queue\<lparr>
     nq_buffers := (\<lambda>i. if i < cap
        then zero_net_desc\<lparr>nd_io_or_offset := of_nat i * of_nat AOS_NET_BUFFER_SIZE\<rparr>
        else zero_net_desc),
     nq_tail := of_nat cap\<rparr>"

definition aos_net_client_init_buffers :: "aos_net_virt_client \<Rightarrow> net_mem \<Rightarrow> net_mem" where
  "aos_net_client_init_buffers c m =
     (if nc_rx_free c = 0 \<or> nc_tx_free c = 0 then m
      else m\<lparr>nm_queues := (nm_queues m)
        (nc_rx_active c := zero_net_queue,
         nc_tx_active c := zero_net_queue,
         nc_rx_free c := free_net_queue (unat (nc_capacity c)),
         nc_tx_free c := free_net_queue (unat (nc_capacity c)))\<rparr>)"

definition aos_net_virt_add_client ::
    "aos_net_virt option \<Rightarrow> aos_net_virt_client option \<Rightarrow> int \<times> aos_net_virt option" where
  "aos_net_virt_add_client vp cp =
     (case (vp, cp) of
        (Some v, Some c) \<Rightarrow>
          if AOS_NET_MAX_CLIENTS \<le> unat (nv_num_clients v) \<or>
             nc_rx_free c = 0 \<or> nc_rx_active c = 0 \<or> nc_tx_free c = 0 \<or> nc_tx_active c = 0 \<or>
             nc_rx_data c = 0 \<or> nc_tx_data c = 0 \<or> nc_capacity c = 0 \<or>
             AOS_NET_CAPACITY < unat (nc_capacity c)
          then (-1, vp)
          else (0, Some (v\<lparr>nv_clients := (nv_clients v)[unat (nv_num_clients v) := c],
                          nv_num_clients := nv_num_clients v + 1\<rparr>))
      | _ \<Rightarrow> (-1, vp))"

text \<open>
  \<open>aos_net_virt_remove_client\<close>: the inner loop moves every later client one place down; the outer
  loop rescans the same index after a removal and moves on otherwise.
\<close>

fun shift_down :: "aos_net_virt_client list \<Rightarrow> nat list \<Rightarrow> aos_net_virt_client list" where
  "shift_down cs [] = cs"
| "shift_down cs (j # js) = shift_down (cs[j - 1 := cs ! j]) js"

function remove_client_loop :: "u64 \<Rightarrow> nat \<Rightarrow> nat \<Rightarrow> aos_net_virt_client list \<Rightarrow>
    nat \<times> aos_net_virt_client list" where
  "remove_client_loop key i num cs =
     (if num \<le> i then (num, cs)
      else if nc_tx_active (cs ! i) \<noteq> key then remove_client_loop key (Suc i) num cs
      else
        let cs' = shift_down cs [Suc i..<num] in
        remove_client_loop key i (num - 1) (cs'[num - 1 := zero_net_client]))"
  by pat_completeness auto
termination
  by (relation "measure (\<lambda>(key, i, num, cs). num - i)") auto

definition aos_net_virt_remove_client ::
    "aos_net_virt option \<Rightarrow> aos_net_virt_client option \<Rightarrow> int \<times> aos_net_virt option" where
  "aos_net_virt_remove_client vp cp =
     (case (vp, cp) of
        (Some v, Some c) \<Rightarrow>
          if nc_tx_active c = 0 \<or> AOS_NET_MAX_CLIENTS < unat (nv_num_clients v) then (-1, vp)
          else (case remove_client_loop (nc_tx_active c) 0 (unat (nv_num_clients v)) (nv_clients v) of
                  (num, cs) \<Rightarrow> (0, Some (v\<lparr>nv_clients := cs, nv_num_clients := of_nat num\<rparr>)))
      | _ \<Rightarrow> (-1, vp))"

section \<open>The pump\<close>

definition deliver_one ::
    "net_mem \<Rightarrow> aos_net_virt_client \<Rightarrow> u64 \<Rightarrow> u16 \<Rightarrow> bool \<times> net_mem" where
  "deliver_one m dst src len =
     (case aos_net_queue_dequeue m (nc_rx_free dst) (nc_capacity dst) of
        None \<Rightarrow> (False, m)
      | Some (rx, m1) \<Rightarrow>
          if \<not> aos_net_buffer_valid (nd_io_or_offset rx) (ucast len) \<or> len = 0 then (False, m1)
          else
            let m2 = m1\<lparr>nm_bytes := aos_copy (nm_bytes m1)
                       (nc_rx_data dst + ucast (ucast (nd_io_or_offset rx) :: u32)) src (unat len)\<rparr>;
                rx1 = rx\<lparr>nd_len := len\<rparr>
            in (case aos_net_queue_enqueue m2 (nc_rx_active dst) (nc_capacity dst) rx1 of
                  Some m3 \<Rightarrow> (True, m3)
                | None \<Rightarrow>
                    (case aos_net_queue_enqueue m2 (nc_rx_free dst) (nc_capacity dst)
                            (rx1\<lparr>nd_len := 0\<rparr>) of
                       Some m3 \<Rightarrow> (False, m3)
                     | None \<Rightarrow> (False, m2))))"

fun hub_loop :: "aos_net_virt \<Rightarrow> nat \<Rightarrow> u64 \<Rightarrow> u16 \<Rightarrow> nat list \<Rightarrow> bool \<Rightarrow> net_mem \<Rightarrow>
    bool \<times> net_mem" where
  "hub_loop v src_i payload len [] delivered m = (delivered, m)"
| "hub_loop v src_i payload len (dst_i # ks) delivered m =
     (if dst_i = src_i then hub_loop v src_i payload len ks delivered m
      else (case deliver_one m (nv_clients v ! dst_i) payload len of
              (ok, m') \<Rightarrow> hub_loop v src_i payload len ks (delivered \<or> ok) m'))"

fun source_loop :: "aos_net_virt \<Rightarrow> nat \<Rightarrow> nat \<Rightarrow> u32 \<Rightarrow> net_mem \<Rightarrow> u32 \<times> net_mem" where
  "source_loop v src_i 0 forwarded m = (forwarded, m)"
| "source_loop v src_i (Suc attempts) forwarded m =
     (let src = nv_clients v ! src_i in
      case aos_net_queue_dequeue m (nc_tx_active src) (nc_capacity src) of
        None \<Rightarrow> (forwarded, m)
      | Some (tx, m1) \<Rightarrow>
          if \<not> aos_net_buffer_valid (nd_io_or_offset tx) (ucast (nd_len tx)) \<or> nd_len tx = 0
          then source_loop v src_i attempts forwarded m1
          else
            let payload = nc_tx_data src + ucast (ucast (nd_io_or_offset tx) :: u32);
                (delivered, m2) =
                  (if nv_num_clients v = 1 then deliver_one m1 src payload (nd_len tx)
                   else hub_loop v src_i payload (nd_len tx)
                          [0..<unat (nv_num_clients v)] False m1);
                m3 = (case aos_net_queue_enqueue m2 (nc_tx_free src) (nc_capacity src)
                             (tx\<lparr>nd_len := 0\<rparr>) of
                        Some m3 \<Rightarrow> m3 | None \<Rightarrow> m2)
            in source_loop v src_i attempts (if delivered then forwarded + 1 else forwarded) m3)"

fun pump_loop :: "aos_net_virt \<Rightarrow> nat list \<Rightarrow> u32 \<Rightarrow> net_mem \<Rightarrow> u32 \<times> net_mem" where
  "pump_loop v [] forwarded m = (forwarded, m)"
| "pump_loop v (src_i # ks) forwarded m =
     (case source_loop v src_i (unat (nc_capacity (nv_clients v ! src_i))) forwarded m of
        (forwarded', m') \<Rightarrow> pump_loop v ks forwarded' m')"

definition aos_net_virt_pump :: "aos_net_virt option \<Rightarrow> net_mem \<Rightarrow> u32 \<times> net_mem" where
  "aos_net_virt_pump vp m =
     (case vp of
        None \<Rightarrow> (0, m)
      | Some v \<Rightarrow>
          if nv_num_clients v = 0 then (0, m)
          else pump_loop v [0..<unat (nv_num_clients v)] 0 m)"

section \<open>Queues as FIFOs\<close>

definition net_queue_contents :: "nat \<Rightarrow> aos_net_queue \<Rightarrow> aos_net_buff_desc list" where
  "net_queue_contents cap q = ring_list (nq_buffers q) cap (nq_head q) (nq_tail q)"

definition net_queue_ok :: "nat \<Rightarrow> aos_net_queue \<Rightarrow> bool" where
  "net_queue_ok cap q \<longleftrightarrow> unat (aos_net_queue_length q) \<le> cap"

definition net_capacity_ok :: "u32 \<Rightarrow> bool" where
  "net_capacity_ok cap \<longleftrightarrow> cap \<noteq> 0 \<and> unat cap \<le> AOS_NET_CAPACITY \<and> unat cap dvd 2 ^ 16"

lemma net_capacity_ok_default [simp]: "net_capacity_ok (of_nat AOS_NET_CAPACITY)"
  by (simp add: net_capacity_ok_def AOS_NET_CAPACITY_def)

lemma net_capacity_okD:
  assumes "net_capacity_ok cap"
  shows "cap \<noteq> 0" "\<not> AOS_NET_CAPACITY < unat cap" "unat cap dvd 2 ^ LENGTH(16)"
    "unat cap < 2 ^ LENGTH(16)"
  using assms by (auto simp: net_capacity_ok_def AOS_NET_CAPACITY_def)

lemma enqueue_room:
  assumes "q \<noteq> 0" and cap: "net_capacity_ok cap"
    and room: "length (net_queue_contents (unat cap) (nm_queues m q)) < unat cap"
  shows "\<exists>m'. aos_net_queue_enqueue m q cap x = Some m' \<and>
      net_queue_ok (unat cap) (nm_queues m' q) \<and>
      net_queue_contents (unat cap) (nm_queues m' q) =
        net_queue_contents (unat cap) (nm_queues m q) @ [x]"
proof -
  let ?Q = "nm_queues m q"
  have room': "unat (nq_tail ?Q - nq_head ?Q) < unat cap"
    using room by (simp add: net_queue_contents_def)
  have snoc: "ring_list ((nq_buffers ?Q)(unat (nq_tail ?Q) mod unat cap := x)) (unat cap)
      (nq_head ?Q) (nq_tail ?Q + 1) = net_queue_contents (unat cap) ?Q @ [x]"
    unfolding net_queue_contents_def
    using ring_list_snoc [OF room' net_capacity_okD(3,4) [OF cap]] .
  have "length (net_queue_contents (unat cap) ?Q @ [x]) \<le> unat cap" using room by simp
  with snoc have "unat (nq_tail ?Q + 1 - nq_head ?Q) \<le> unat cap"
    by (metis length_ring_list)
  with snoc room' net_capacity_okD(1,2) [OF cap] \<open>q \<noteq> 0\<close> show ?thesis
    by (simp add: aos_net_queue_enqueue_def net_queue_ok_def net_queue_contents_def
        aos_net_queue_length_def Let_def)
qed

lemma enqueue_full:
  "length (net_queue_contents (unat cap) (nm_queues m q)) = unat cap \<Longrightarrow>
    aos_net_queue_enqueue m q cap x = None"
  by (simp add: aos_net_queue_enqueue_def net_queue_contents_def Let_def)

lemma dequeue_nil:
  "net_queue_contents (unat cap) (nm_queues m q) = [] \<Longrightarrow> aos_net_queue_dequeue m q cap = None"
  by (simp add: aos_net_queue_dequeue_def net_queue_contents_def Let_def)

lemma dequeue_cons:
  assumes "q \<noteq> 0" and cap: "net_capacity_ok cap" and ok: "net_queue_ok (unat cap) (nm_queues m q)"
    and xs: "net_queue_contents (unat cap) (nm_queues m q) = x # xs"
  shows "\<exists>m'. aos_net_queue_dequeue m q cap = Some (x, m') \<and>
      net_queue_ok (unat cap) (nm_queues m' q) \<and>
      net_queue_contents (unat cap) (nm_queues m' q) = xs"
proof -
  let ?Q = "nm_queues m q"
  have ne: "nq_head ?Q \<noteq> nq_tail ?Q"
    using xs by (auto simp: net_queue_contents_def)
  have hd: "nq_buffers ?Q (unat (nq_head ?Q) mod unat cap) = x"
    and tl: "ring_list (nq_buffers ?Q) (unat cap) (nq_head ?Q + 1) (nq_tail ?Q) = xs"
    using xs ring_list_Cons [OF ne net_capacity_okD(3) [OF cap], of "nq_buffers ?Q"]
    by (simp_all add: net_queue_contents_def)
  have "length xs \<le> unat cap"
    using ok xs [symmetric] by (simp add: net_queue_ok_def aos_net_queue_length_def
        net_queue_contents_def) (metis Suc_leD length_Cons length_ring_list)
  with tl have "unat (nq_tail ?Q - (nq_head ?Q + 1)) \<le> unat cap"
    by (metis length_ring_list)
  with hd tl ne ok net_capacity_okD(1,2) [OF cap] \<open>q \<noteq> 0\<close> show ?thesis
    by (auto simp: aos_net_queue_dequeue_def net_queue_ok_def net_queue_contents_def
        aos_net_queue_length_def Let_def)
qed

text \<open>
  The queue at an address, driven with the ABI capacity, is a bounded FIFO.
\<close>

definition net_put :: "u64 \<times> net_mem \<Rightarrow> aos_net_buff_desc \<Rightarrow> (u64 \<times> net_mem) option" where
  "net_put qm x = map_option (Pair (fst qm))
     (aos_net_queue_enqueue (snd qm) (fst qm) (of_nat AOS_NET_CAPACITY) x)"

definition net_get :: "u64 \<times> net_mem \<Rightarrow> (aos_net_buff_desc \<times> u64 \<times> net_mem) option" where
  "net_get qm = map_option (\<lambda>(x, m). (x, fst qm, m))
     (aos_net_queue_dequeue (snd qm) (fst qm) (of_nat AOS_NET_CAPACITY))"

definition net_fifo_contents :: "u64 \<times> net_mem \<Rightarrow> aos_net_buff_desc list" where
  "net_fifo_contents qm = net_queue_contents AOS_NET_CAPACITY (nm_queues (snd qm) (fst qm))"

definition net_fifo_wf :: "u64 \<times> net_mem \<Rightarrow> bool" where
  "net_fifo_wf qm \<longleftrightarrow> fst qm \<noteq> 0 \<and> net_queue_ok AOS_NET_CAPACITY (nm_queues (snd qm) (fst qm))"

lemma unat_net_capacity [simp]: "unat (of_nat AOS_NET_CAPACITY :: u32) = AOS_NET_CAPACITY"
  by (simp add: AOS_NET_CAPACITY_def)

interpretation net_fifo: bounded_fifo net_put net_get net_fifo_contents net_fifo_wf AOS_NET_CAPACITY
proof (unfold_locales, goal_cases)
  case (1 qm)
  then show ?case
    by (simp add: net_fifo_wf_def net_fifo_contents_def net_queue_contents_def net_queue_ok_def
        aos_net_queue_length_def)
next
  case (2 qm x)
  then show ?case
    using enqueue_room [of "fst qm" "of_nat AOS_NET_CAPACITY" "snd qm" x]
    by (auto simp: net_fifo_wf_def net_fifo_contents_def net_put_def)
next
  case (3 qm x)
  then show ?case
    using enqueue_full [of "of_nat AOS_NET_CAPACITY" "snd qm" "fst qm" x]
    by (simp add: net_fifo_contents_def net_put_def)
next
  case (4 qm)
  then show ?case
    using dequeue_nil [of "of_nat AOS_NET_CAPACITY" "snd qm" "fst qm"]
    by (simp add: net_fifo_contents_def net_get_def)
next
  case (5 qm x xs)
  then show ?case
    using dequeue_cons [of "fst qm" "of_nat AOS_NET_CAPACITY" "snd qm" x xs]
    by (auto simp: net_fifo_wf_def net_fifo_contents_def net_get_def)
qed

section \<open>What an operation can touch\<close>

definition client_queues :: "aos_net_virt_client \<Rightarrow> u64 set" where
  "client_queues c = {nc_rx_free c, nc_rx_active c, nc_tx_free c, nc_tx_active c}"

definition client_rx_window :: "aos_net_virt_client \<Rightarrow> u64 set" where
  "client_rx_window c = window (nc_rx_data c) AOS_NET_RX_DATA_BYTES"

definition net_frame :: "aos_net_virt_client set \<Rightarrow> net_mem \<Rightarrow> net_mem \<Rightarrow> bool" where
  "net_frame C m m' \<longleftrightarrow>
     (\<forall>x. x \<notin> \<Union> (client_rx_window ` C) \<longrightarrow> nm_bytes m' x = nm_bytes m x) \<and>
     (\<forall>a. a \<notin> \<Union> (client_queues ` C) \<longrightarrow> nm_queues m' a = nm_queues m a)"

lemma net_frame_refl [simp]: "net_frame C m m"
  by (simp add: net_frame_def)

lemma net_frame_trans [trans]: "net_frame C m m1 \<Longrightarrow> net_frame C m1 m2 \<Longrightarrow> net_frame C m m2"
  by (simp add: net_frame_def)

lemma enqueue_changes:
  "aos_net_queue_enqueue m q cap x = Some m' \<Longrightarrow>
    nm_bytes m' = nm_bytes m \<and> (\<forall>a. a \<noteq> q \<longrightarrow> nm_queues m' a = nm_queues m a)"
  by (auto simp: aos_net_queue_enqueue_def Let_def split: if_splits)

lemma dequeue_changes:
  "aos_net_queue_dequeue m q cap = Some (x, m') \<Longrightarrow>
    nm_bytes m' = nm_bytes m \<and> (\<forall>a. a \<noteq> q \<longrightarrow> nm_queues m' a = nm_queues m a)"
  by (auto simp: aos_net_queue_dequeue_def Let_def split: if_splits)

lemma enqueue_frame:
  "aos_net_queue_enqueue m q cap x = Some m' \<Longrightarrow> c \<in> C \<Longrightarrow> q \<in> client_queues c \<Longrightarrow>
    net_frame C m m'"
  using enqueue_changes [of m q cap x m'] by (auto simp: net_frame_def)

lemma dequeue_frame:
  "aos_net_queue_dequeue m q cap = Some (x, m') \<Longrightarrow> c \<in> C \<Longrightarrow> q \<in> client_queues c \<Longrightarrow>
    net_frame C m m'"
  using dequeue_changes [of m q cap x m'] by (auto simp: net_frame_def)

text \<open>A valid descriptor names bytes of one buffer of the data region.\<close>

lemma buffer_valid_bound:
  assumes "aos_net_buffer_valid off len"
  shows "unat off + unat len \<le> AOS_NET_RX_DATA_BYTES"
proof -
  have "unat off mod 2048 = 0" and lt: "unat off < 65536" and len: "unat len \<le> 2048"
    using assms by (simp_all add: aos_net_buffer_valid_def net_layout_defs)
  then obtain k where k: "unat off = 2048 * k" by (auto elim: dvdE)
  with lt have "k < 32" by simp
  with k len show ?thesis by (simp add: net_layout_defs)
qed

lemma truncated_offset:
  assumes "aos_net_buffer_valid off len"
  shows "ucast (ucast off :: u32) = off"
proof -
  have "unat off < 2 ^ 32"
    using assms by (simp add: aos_net_buffer_valid_def net_layout_defs)
  then show ?thesis
    by (simp add: word_unat_eq_iff unat_ucast_up unat_ucast_small)
qed

lemma copy_window:
  assumes "aos_net_buffer_valid off (ucast (len :: u16))"
  shows "window (base + ucast (ucast off :: u32)) (unat len) \<subseteq> window base AOS_NET_RX_DATA_BYTES"
proof -
  have "unat (ucast len :: u32) = unat len" by (simp add: unat_ucast_up)
  with buffer_valid_bound [OF assms] have "unat off + unat len \<le> AOS_NET_RX_DATA_BYTES" by simp
  then have "window (base + of_nat (unat off)) (unat len) \<subseteq> window base AOS_NET_RX_DATA_BYTES"
    by (rule window_sub)
  then show ?thesis using truncated_offset [OF assms] by simp
qed

lemma copy_frame:
  assumes "c \<in> C" and "aos_net_buffer_valid off (ucast (len :: u16))"
  shows "net_frame C m (m\<lparr>nm_bytes := aos_copy (nm_bytes m)
           (nc_rx_data c + ucast (ucast off :: u32)) src (unat len)\<rparr>)"
  using assms copy_window [OF assms(2), of "nc_rx_data c"]
  by (auto simp: net_frame_def client_rx_window_def intro!: aos_copy_frame)

lemma client_queues_mem [simp]:
  "nc_rx_free c \<in> client_queues c" "nc_rx_active c \<in> client_queues c"
  "nc_tx_free c \<in> client_queues c" "nc_tx_active c \<in> client_queues c"
  by (simp_all add: client_queues_def)

lemma deliver_one_frame:
  assumes "dst \<in> C" and "deliver_one m dst src len = (ok, m')"
  shows "net_frame C m m'"
proof (cases "aos_net_queue_dequeue m (nc_rx_free dst) (nc_capacity dst)")
  case None
  with assms show ?thesis by (simp add: deliver_one_def)
next
  case (Some r)
  then obtain rx m1 where deq: "aos_net_queue_dequeue m (nc_rx_free dst) (nc_capacity dst) =
      Some (rx, m1)" by (cases r) auto
  have f1: "net_frame C m m1" using dequeue_frame [OF deq assms(1)] by simp
  show ?thesis
  proof (cases "aos_net_buffer_valid (nd_io_or_offset rx) (ucast len) \<and> len \<noteq> 0")
    case False
    with assms(2) deq f1 show ?thesis by (auto simp: deliver_one_def)
  next
    case True
    let ?m2 = "m1\<lparr>nm_bytes := aos_copy (nm_bytes m1)
        (nc_rx_data dst + ucast (ucast (nd_io_or_offset rx) :: u32)) src (unat len)\<rparr>"
    have f2: "net_frame C m ?m2"
      using True copy_frame [OF assms(1)] net_frame_trans [OF f1] by blast
    have "net_frame C ?m2 m'"
      using assms(2) deq True
      by (auto simp: deliver_one_def Let_def split: option.splits
          intro: enqueue_frame [OF _ assms(1)])
    with f2 show ?thesis by (rule net_frame_trans)
  qed
qed

lemma hub_loop_frame:
  assumes "\<And>i. i \<in> set ks \<Longrightarrow> nv_clients v ! i \<in> C"
    and "hub_loop v src_i payload len ks d m = (d', m')"
  shows "net_frame C m m'"
  using assms
proof (induction v src_i payload len ks d m rule: hub_loop.induct)
  case (1 v src_i payload len d m)
  then show ?case by simp
next
  case (2 v src_i payload len i ks d m)
  show ?case
  proof (cases "i = src_i")
    case True
    with "2" show ?thesis by simp
  next
    case False
    obtain ok m1 where one: "deliver_one m (nv_clients v ! i) payload len = (ok, m1)"
      by fastforce
    then have "net_frame C m m1" using "2.prems"(1) deliver_one_frame by force
    moreover have "net_frame C m1 m'" using "2" False one by simp
    ultimately show ?thesis by (rule net_frame_trans)
  qed
qed

text \<open>The descriptor's payload step and its return to the free queue, as one state change.\<close>

lemma source_step_frame:
  assumes C: "\<And>i. i < unat (nv_num_clients v) \<Longrightarrow> nv_clients v ! i \<in> C"
    and src: "nv_clients v ! src_i \<in> C"
    and step: "(if nv_num_clients v = 1 then deliver_one m (nv_clients v ! src_i) payload len
         else hub_loop v src_i payload len [0..<unat (nv_num_clients v)] False m) = (d, m2)"
  shows "net_frame C m (case aos_net_queue_enqueue m2 (nc_tx_free (nv_clients v ! src_i)) cap tx of
           Some m3 \<Rightarrow> m3 | None \<Rightarrow> m2)"
proof -
  have "net_frame C m m2"
    using step src deliver_one_frame [of "nv_clients v ! src_i" C m payload len d m2]
      hub_loop_frame [of "[0..<unat (nv_num_clients v)]" v C src_i payload len False m d m2] C
    by (auto split: if_splits)
  moreover have "net_frame C m2 (case aos_net_queue_enqueue m2
      (nc_tx_free (nv_clients v ! src_i)) cap tx of Some m3 \<Rightarrow> m3 | None \<Rightarrow> m2)"
    using src by (auto split: option.splits intro: enqueue_frame)
  ultimately show ?thesis by (rule net_frame_trans)
qed

lemma source_loop_frame:
  assumes "\<And>i. i < unat (nv_num_clients v) \<Longrightarrow> nv_clients v ! i \<in> C"
    and "nv_clients v ! src_i \<in> C"
    and "source_loop v src_i n f m = (f', m')"
  shows "net_frame C m m'"
  using assms(3)
proof (induction n arbitrary: f m)
  case 0
  then show ?case by simp
next
  case (Suc n)
  let ?src = "nv_clients v ! src_i"
  show ?case
  proof (cases "aos_net_queue_dequeue m (nc_tx_active ?src) (nc_capacity ?src)")
    case None
    with Suc.prems show ?thesis by simp
  next
    case (Some r)
    then obtain tx m1 where deq: "aos_net_queue_dequeue m (nc_tx_active ?src) (nc_capacity ?src) =
        Some (tx, m1)" by (cases r) auto
    have f1: "net_frame C m m1" using dequeue_frame [OF deq assms(2)] by simp
    have "net_frame C m1 m'"
    proof (cases "aos_net_buffer_valid (nd_io_or_offset tx) (ucast (nd_len tx)) \<and> nd_len tx \<noteq> 0")
      case False
      with Suc.prems deq have "source_loop v src_i n f m1 = (f', m')" by auto
      then show ?thesis by (rule Suc.IH)
    next
      case True
      let ?payload = "nc_tx_data ?src + ucast (ucast (nd_io_or_offset tx) :: u32)"
      obtain d m2 where step: "(if nv_num_clients v = 1 then deliver_one m1 ?src ?payload (nd_len tx)
          else hub_loop v src_i ?payload (nd_len tx) [0..<unat (nv_num_clients v)] False m1) = (d, m2)"
        by fastforce
      let ?m3 = "case aos_net_queue_enqueue m2 (nc_tx_free ?src) (nc_capacity ?src)
          (tx\<lparr>nd_len := 0\<rparr>) of Some m3 \<Rightarrow> m3 | None \<Rightarrow> m2"
      have "net_frame C m1 ?m3" using source_step_frame [OF assms(1,2) step] .
      moreover have "source_loop v src_i n (if d then f + 1 else f) ?m3 = (f', m')"
        using Suc.prems deq True step by (simp add: Let_def)
      then have "net_frame C ?m3 m'" by (rule Suc.IH)
      ultimately show ?thesis by (rule net_frame_trans)
    qed
    with f1 show ?thesis by (rule net_frame_trans)
  qed
qed

lemma pump_loop_frame:
  assumes "\<And>i. i < unat (nv_num_clients v) \<Longrightarrow> nv_clients v ! i \<in> C"
    and "\<And>i. i \<in> set ks \<Longrightarrow> nv_clients v ! i \<in> C"
    and "pump_loop v ks f m = (f', m')"
  shows "net_frame C m m'"
  using assms(2,3)
proof (induction ks arbitrary: f m)
  case Nil
  then show ?case by simp
next
  case (Cons i ks)
  obtain f1 m1 where one: "source_loop v i (unat (nc_capacity (nv_clients v ! i))) f m = (f1, m1)"
    by fastforce
  have "net_frame C m m1" using source_loop_frame [OF assms(1) _ one] Cons.prems(1) by simp
  moreover have "net_frame C m1 m'" using Cons one by simp
  ultimately show ?case by (rule net_frame_trans)
qed

section \<open>The client table\<close>

lemma length_shift_down [simp]: "length (shift_down cs js) = length cs"
  by (induction cs js rule: shift_down.induct) auto

lemma nth_shift_down:
  assumes "Suc i \<le> n" "n \<le> length cs" "j < length cs"
  shows "shift_down cs [Suc i..<n] ! j = (if i \<le> j \<and> Suc j < n then cs ! Suc j else cs ! j)"
  using assms
proof (induction "n - Suc i" arbitrary: i cs)
  case 0
  then show ?case by auto
next
  case (Suc k)
  then have lt: "Suc i < n" by simp
  then have "shift_down cs [Suc i..<n] = shift_down (cs[i := cs ! Suc i]) [Suc (Suc i)..<n]"
    by (simp add: upt_conv_Cons)
  moreover have "shift_down (cs[i := cs ! Suc i]) [Suc (Suc i)..<n] ! j =
      (if Suc i \<le> j \<and> Suc j < n then cs[i := cs ! Suc i] ! Suc j else cs[i := cs ! Suc i] ! j)"
    using Suc lt by (intro Suc.hyps(1)) auto
  ultimately show ?case using Suc.prems lt by (auto simp: nth_list_update)
qed

text \<open>One removal closes the gap at index \<open>i\<close> and blanks the last live place.\<close>

lemma remove_one:
  assumes "i < n" "n \<le> length cs"
  shows "take (n - 1) ((shift_down cs [Suc i..<n])[n - 1 := z]) =
           take i cs @ drop (Suc i) (take n cs)"
proof (rule nth_equalityI)
  show "length (take (n - 1) ((shift_down cs [Suc i..<n])[n - 1 := z])) =
      length (take i cs @ drop (Suc i) (take n cs))"
    using assms by simp
next
  fix j
  assume "j < length (take (n - 1) ((shift_down cs [Suc i..<n])[n - 1 := z]))"
  then have j: "j < n - 1" using assms by simp
  have "shift_down cs [Suc i..<n] ! j = (if i \<le> j \<and> Suc j < n then cs ! Suc j else cs ! j)"
    using assms j by (intro nth_shift_down) auto
  with j assms show "take (n - 1) ((shift_down cs [Suc i..<n])[n - 1 := z]) ! j =
      (take i cs @ drop (Suc i) (take n cs)) ! j"
    by (auto simp: nth_append min_def)
qed

declare remove_client_loop.simps [simp del]

lemma remove_client_loop_filters:
  assumes "remove_client_loop key i n cs = (n', cs')" "n \<le> length cs" "i \<le> n"
  shows "length cs' = length cs \<and> n' \<le> n \<and>
    take n' cs' = take i cs @ filter (\<lambda>c. nc_tx_active c \<noteq> key) (drop i (take n cs))"
  using assms
proof (induction key i n cs arbitrary: n' cs' rule: remove_client_loop.induct)
  case (1 key i n cs)
  show ?case
  proof (cases "n \<le> i")
    case True
    with "1.prems" show ?thesis by (auto simp: remove_client_loop.simps [of key i n cs])
  next
    case False
    then have dr: "drop i (take n cs) = cs ! i # drop (Suc i) (take n cs)"
      using "1.prems"(2) by (simp add: Cons_nth_drop_Suc [symmetric])
    have tk: "take (Suc i) cs = take i cs @ [cs ! i]"
      using False "1.prems"(2) by (simp add: take_Suc_conv_app_nth)
    show ?thesis
    proof (cases "nc_tx_active (cs ! i) = key")
      case False': False
      with False "1.prems" have "remove_client_loop key (Suc i) n cs = (n', cs')"
        by (simp add: remove_client_loop.simps [of key i n cs])
      then show ?thesis using "1.IH"(1) [OF False False'] "1.prems" False False' dr tk by simp
    next
      case True
      let ?cs = "(shift_down cs [Suc i..<n])[n - 1 := zero_net_client]"
      have call: "remove_client_loop key i (n - 1) ?cs = (n', cs')"
        using False True "1.prems"(1) by (simp add: remove_client_loop.simps [of key i n cs])
      have one: "take (n - 1) ?cs = take i cs @ drop (Suc i) (take n cs)"
        using False "1.prems"(2) by (intro remove_one) auto
      have "i \<le> n - 1" using False by simp
      then have "take i ?cs = take i (take (n - 1) ?cs)" by (simp add: min_def)
      also have "\<dots> = take i cs" unfolding one using False "1.prems"(2) by simp
      finally have pre: "take i ?cs = take i cs" .
      have suf: "drop i (take (n - 1) ?cs) = drop (Suc i) (take n cs)"
        unfolding one using False "1.prems"(2) by simp
      have "length cs' = length ?cs \<and> n' \<le> n - 1 \<and> take n' cs' = take i ?cs @
          filter (\<lambda>c. nc_tx_active c \<noteq> key) (drop i (take (n - 1) ?cs))"
        using call False True "1.prems" by (intro "1.IH"(2)) auto
      then show ?thesis using pre suf dr True by auto
    qed
  qed
qed

definition net_virt_ok :: "aos_net_virt \<Rightarrow> bool" where
  "net_virt_ok v \<longleftrightarrow> length (nv_clients v) = AOS_NET_MAX_CLIENTS \<and>
     unat (nv_num_clients v) \<le> AOS_NET_MAX_CLIENTS \<and>
     (\<forall>c \<in> set (take (unat (nv_num_clients v)) (nv_clients v)).
        0 \<notin> client_queues c \<and> nc_capacity c \<noteq> 0 \<and> unat (nc_capacity c) \<le> AOS_NET_CAPACITY)"

definition live_clients :: "aos_net_virt \<Rightarrow> aos_net_virt_client list" where
  "live_clients v = take (unat (nv_num_clients v)) (nv_clients v)"

lemma net_virt_reset_ok: "aos_net_virt_reset (Some v) = Some v' \<Longrightarrow> net_virt_ok v' \<and> live_clients v' = []"
  by (auto simp: aos_net_virt_reset_def net_virt_ok_def live_clients_def)

lemma net_virt_add_client_live:
  assumes ok: "net_virt_ok v" and add: "aos_net_virt_add_client (Some v) (Some c) = (0, Some v')"
  shows "net_virt_ok v' \<and> live_clients v' = live_clients v @ [c]"
proof -
  have lt: "unat (nv_num_clients v) < AOS_NET_MAX_CLIENTS"
    and v': "v' = v\<lparr>nv_clients := (nv_clients v)[unat (nv_num_clients v) := c],
                  nv_num_clients := nv_num_clients v + 1\<rparr>"
    and c: "0 \<notin> client_queues c" "nc_capacity c \<noteq> 0" "unat (nc_capacity c) \<le> AOS_NET_CAPACITY"
    using add by (auto simp: aos_net_virt_add_client_def client_queues_def split: if_splits)
  have "unat (nv_num_clients v) + unat (1 :: u32) < 2 ^ LENGTH(32)"
    using lt by (simp add: AOS_NET_MAX_CLIENTS_def)
  then have num: "unat (nv_num_clients v + 1) = Suc (unat (nv_num_clients v))"
    by (simp only: unat_plus_no_overflow) simp
  have live: "take (Suc (unat (nv_num_clients v))) ((nv_clients v)[unat (nv_num_clients v) := c]) =
      live_clients v @ [c]"
    using lt ok by (simp add: take_Suc_conv_app_nth live_clients_def net_virt_ok_def)
  then show ?thesis
    using ok lt c by (auto simp: v' net_virt_ok_def num live_clients_def)
qed

lemma net_virt_remove_client_live:
  assumes ok: "net_virt_ok v" and rem: "aos_net_virt_remove_client (Some v) (Some c) = (r, Some v')"
    and "nc_tx_active c \<noteq> 0"
  shows "r = 0 \<and> net_virt_ok v' \<and>
    live_clients v' = filter (\<lambda>d. nc_tx_active d \<noteq> nc_tx_active c) (live_clients v)"
proof -
  obtain n cs where loop: "remove_client_loop (nc_tx_active c) 0 (unat (nv_num_clients v))
      (nv_clients v) = (n, cs)" by fastforce
  have spec: "length cs = length (nv_clients v)" "n \<le> unat (nv_num_clients v)"
    "take n cs = filter (\<lambda>d. nc_tx_active d \<noteq> nc_tx_active c) (live_clients v)"
    using remove_client_loop_filters [OF loop] ok by (auto simp: net_virt_ok_def live_clients_def)
  have "n < 2 ^ 32"
    using spec(2) ok by (simp add: net_virt_ok_def AOS_NET_MAX_CLIENTS_def)
  then have n: "unat (of_nat n :: u32) = n" by (simp add: unat_of_nat)
  have v': "r = 0" "v' = v\<lparr>nv_clients := cs, nv_num_clients := of_nat n\<rparr>"
    using rem loop assms(3) ok by (auto simp: aos_net_virt_remove_client_def net_virt_ok_def)
  show ?thesis
    using ok spec by (auto simp: v' net_virt_ok_def n live_clients_def)
qed

section \<open>Delivery\<close>

text \<open>
  A delivery takes the head of the receiver's free queue, fills that buffer with the payload and
  appends its descriptor to the receiver's active queue.
\<close>

lemma deliver_one_success:
  assumes ok: "deliver_one m dst src len = (True, m')"
    and cap: "net_capacity_ok (nc_capacity dst)"
    and free_ok: "net_queue_ok (unat (nc_capacity dst)) (nm_queues m (nc_rx_free dst))"
    and ne: "nc_rx_free dst \<noteq> nc_rx_active dst"
    and disj: "client_rx_window dst \<inter> window src (unat len) = {}"
  shows "\<exists>rx rest.
    net_queue_contents (unat (nc_capacity dst)) (nm_queues m (nc_rx_free dst)) = rx # rest \<and>
    net_queue_contents (unat (nc_capacity dst)) (nm_queues m' (nc_rx_free dst)) = rest \<and>
    net_queue_contents (unat (nc_capacity dst)) (nm_queues m' (nc_rx_active dst)) =
      net_queue_contents (unat (nc_capacity dst)) (nm_queues m (nc_rx_active dst)) @
      [rx\<lparr>nd_len := len\<rparr>] \<and>
    (\<forall>i < unat len. nm_bytes m' (nc_rx_data dst + nd_io_or_offset rx + of_nat i) =
      nm_bytes m (src + of_nat i))"
proof -
  let ?cap = "unat (nc_capacity dst)"
  obtain rx m1 where deq: "aos_net_queue_dequeue m (nc_rx_free dst) (nc_capacity dst) = Some (rx, m1)"
    and valid: "aos_net_buffer_valid (nd_io_or_offset rx) (ucast len)"
    using ok by (auto simp: deliver_one_def split: option.splits if_splits)
  let ?a = "nc_rx_data dst + ucast (ucast (nd_io_or_offset rx) :: u32)"
  let ?m2 = "m1\<lparr>nm_bytes := aos_copy (nm_bytes m1) ?a src (unat len)\<rparr>"
  have enq: "aos_net_queue_enqueue ?m2 (nc_rx_active dst) (nc_capacity dst)
      (rx\<lparr>nd_len := len\<rparr>) = Some m'"
    using ok deq valid by (auto simp: deliver_one_def Let_def split: option.splits if_splits)
  have free_nz: "nc_rx_free dst \<noteq> 0" and act_nz: "nc_rx_active dst \<noteq> 0"
    using deq enq by (auto simp: aos_net_queue_dequeue_def aos_net_queue_enqueue_def split: if_splits)
  obtain x rest where c: "net_queue_contents ?cap (nm_queues m (nc_rx_free dst)) = x # rest"
    using dequeue_nil [of "nc_capacity dst" m "nc_rx_free dst"] deq
    by (cases "net_queue_contents ?cap (nm_queues m (nc_rx_free dst))") auto
  with dequeue_cons [OF free_nz cap free_ok] deq
  have x: "x = rx" and free1: "net_queue_contents ?cap (nm_queues m1 (nc_rx_free dst)) = rest"
    by auto
  have same1: "nm_bytes m1 = nm_bytes m" "nm_queues m1 (nc_rx_active dst) = nm_queues m (nc_rx_active dst)"
    using dequeue_changes [OF deq] ne by auto
  have same2: "nm_bytes m' = nm_bytes ?m2" "nm_queues m' (nc_rx_free dst) = nm_queues m1 (nc_rx_free dst)"
    using enqueue_changes [OF enq] ne by auto
  have room: "length (net_queue_contents ?cap (nm_queues ?m2 (nc_rx_active dst))) < ?cap"
    using enq by (auto simp: aos_net_queue_enqueue_def net_queue_contents_def Let_def split: if_splits)
  have active: "net_queue_contents ?cap (nm_queues m' (nc_rx_active dst)) =
      net_queue_contents ?cap (nm_queues m (nc_rx_active dst)) @ [rx\<lparr>nd_len := len\<rparr>]"
    using enqueue_room [OF act_nz cap room, of "rx\<lparr>nd_len := len\<rparr>"] enq same1 by auto
  have "window ?a (unat len) \<inter> window src (unat len) = {}"
    using copy_window [OF valid, of "nc_rx_data dst"] disj by (auto simp: client_rx_window_def)
  moreover have "unat len \<le> 2 ^ 64" using unsigned_less [of len, where ?'a = nat] by simp
  ultimately have "\<forall>i < unat len. nm_bytes m' (?a + of_nat i) = nm_bytes m (src + of_nat i)"
    using aos_copy_copies [of _ "unat len" ?a src "nm_bytes m"] same1 same2 by simp
  then show ?thesis
    using c x free1 same2 active truncated_offset [OF valid] by auto
qed

section \<open>Properties\<close>


text \<open>
  C2. Isolation of the network pump: whatever descriptors the clients have placed in their queues,
  one pump writes no byte outside the receive data windows of the bound clients and changes no
  queue object other than the bound clients' own four queues.
\<close>

theorem net_pump_isolated:
  assumes "net_virt_ok v" and "aos_net_virt_pump (Some v) m = (n, m')"
  shows "(\<forall>x. (\<forall>c \<in> set (live_clients v). x \<notin> window (nc_rx_data c) AOS_NET_RX_DATA_BYTES) \<longrightarrow>
            nm_bytes m' x = nm_bytes m x) \<and>
    (\<forall>a. (\<forall>c \<in> set (live_clients v). a \<notin> client_queues c) \<longrightarrow> nm_queues m' a = nm_queues m a)"
proof -
  have live: "nv_clients v ! i \<in> set (live_clients v)" if "i < unat (nv_num_clients v)" for i
    using assms(1) that by (auto simp: live_clients_def net_virt_ok_def in_set_conv_nth)
  have "net_frame (set (live_clients v)) m m'"
    using assms(2) live
      pump_loop_frame [of v "set (live_clients v)" "[0..<unat (nv_num_clients v)]" 0 m n m']
    by (auto simp: aos_net_virt_pump_def split: if_splits)
  then show ?thesis
    by (simp add: net_frame_def client_rx_window_def)
qed

text \<open>
  C3. Delivery of a packet: a successful delivery consumes the head of the receiver's free queue,
  appends that descriptor with the packet's length to the receiver's active queue, and leaves in
  the named buffer exactly the bytes of the payload.
\<close>

theorem net_delivery_exact:
  assumes "deliver_one m dst src len = (True, m')"
    and "net_capacity_ok (nc_capacity dst)"
    and "net_queue_ok (unat (nc_capacity dst)) (nm_queues m (nc_rx_free dst))"
    and "nc_rx_free dst \<noteq> nc_rx_active dst"
    and "client_rx_window dst \<inter> window src (unat len) = {}"
  shows "\<exists>rx rest.
    net_queue_contents (unat (nc_capacity dst)) (nm_queues m (nc_rx_free dst)) = rx # rest \<and>
    net_queue_contents (unat (nc_capacity dst)) (nm_queues m' (nc_rx_free dst)) = rest \<and>
    net_queue_contents (unat (nc_capacity dst)) (nm_queues m' (nc_rx_active dst)) =
      net_queue_contents (unat (nc_capacity dst)) (nm_queues m (nc_rx_active dst)) @
      [rx\<lparr>nd_len := len\<rparr>] \<and>
    (\<forall>i < unat len. nm_bytes m' (nc_rx_data dst + nd_io_or_offset rx + of_nat i) =
      nm_bytes m (src + of_nat i))"
  using deliver_one_success [OF assms] .

text \<open>
  C4. Removing a client: on a well-formed table the removal succeeds, keeps the table well formed,
  and leaves exactly the live clients with another transmit queue, in their order.
\<close>

theorem net_remove_client_exact:
  assumes "net_virt_ok v" and "nc_tx_active c \<noteq> 0"
  shows "\<exists>v'. aos_net_virt_remove_client (Some v) (Some c) = (0, Some v') \<and> net_virt_ok v' \<and>
    live_clients v' = filter (\<lambda>d. nc_tx_active d \<noteq> nc_tx_active c) (live_clients v)"
proof -
  have "\<exists>r v'. aos_net_virt_remove_client (Some v) (Some c) = (r, Some v')"
    by (auto simp: aos_net_virt_remove_client_def split: prod.split)
  then obtain r v' where "aos_net_virt_remove_client (Some v) (Some c) = (r, Some v')"
    by blast
  with net_virt_remove_client_live [OF assms(1) this assms(2)] show ?thesis by auto
qed

section \<open>A concrete system\<close>

text \<open>
  Two clients bound in the shared region at its ABI address; client 0 has queued one 3-byte packet
  from its second buffer.
\<close>

definition ex_client :: "u32 \<Rightarrow> aos_net_virt_client" where
  "ex_client i = aos_net_client_bind 0x26000000 i zero_net_client"

definition ex_packet :: aos_net_buff_desc where
  "ex_packet = \<lparr>nd_io_or_offset = 2048, nd_len = 3, nd_pad0 = 0, nd_pad1 = 0\<rparr>"

definition ex_mem :: net_mem where
  "ex_mem =
     (let m = aos_net_client_init_buffers (ex_client 1) (aos_net_client_init_buffers (ex_client 0)
                \<lparr>nm_queues = (\<lambda>_. zero_net_queue), nm_bytes = (\<lambda>a. ucast a)\<rparr>)
      in the (aos_net_queue_enqueue m (nc_tx_active (ex_client 0)) 32 ex_packet))"

definition ex_virt :: aos_net_virt where
  "ex_virt = \<lparr>nv_clients = [ex_client 0, ex_client 1, zero_net_client, zero_net_client],
     nv_num_clients = 2\<rparr>"

definition ex_wrap_mem :: net_mem where
  "ex_wrap_mem = \<lparr>nm_queues = (\<lambda>_. zero_net_queue\<lparr>nq_head := 65535, nq_tail := 65535\<rparr>),
     nm_bytes = (\<lambda>_. 0)\<rparr>"

lemmas ex_net_defs = ex_client_def ex_packet_def ex_mem_def ex_virt_def ex_wrap_mem_def
  aos_net_client_bind_def aos_net_client_init_buffers_def free_net_queue_def zero_net_queue_def
  zero_net_desc_def zero_net_client_def net_layout_defs



lemmas source_loop_numeral =
  source_loop.simps(2) [where attempts = "pred_numeral k" for k, folded numeral_eq_Suc]

lemma ex_clients:
  "ex_client 0 = \<lparr>nc_rx_free = 0x26000000, nc_rx_active = 0x26001000, nc_tx_free = 0x26002000,
     nc_tx_active = 0x26003000, nc_rx_data = 0x26004000, nc_tx_data = 0x26014000, nc_capacity = 32\<rparr>"
  "ex_client 1 = \<lparr>nc_rx_free = 0x26200000, nc_rx_active = 0x26201000, nc_tx_free = 0x26202000,
     nc_tx_active = 0x26203000, nc_rx_data = 0x26204000, nc_tx_data = 0x26214000, nc_capacity = 32\<rparr>"
  by (simp_all add: ex_client_def aos_net_client_bind_def net_layout_defs zero_net_client_def)

lemma ex_mem_eval:
  "nm_queues ex_mem 0x26003000 =
     zero_net_queue\<lparr>nq_buffers := (\<lambda>_. zero_net_desc)(0 := ex_packet), nq_tail := 1\<rparr>"
  "nm_queues ex_mem 0x26002000 = free_net_queue 32"
  "nm_queues ex_mem 0x26200000 = free_net_queue 32"
  "nm_queues ex_mem 0x26201000 = zero_net_queue"
  "nm_queues ex_mem 0x26203000 = zero_net_queue"
  "nm_bytes ex_mem = ucast"
  by (simp_all add: ex_net_defs aos_net_queue_enqueue_def Let_def)

lemmas ex_net_eval = ex_clients ex_mem_eval aos_net_queue_dequeue_def aos_net_queue_enqueue_def
  deliver_one_def zero_net_queue_def zero_net_desc_def free_net_queue_def ex_packet_def
  aos_net_buffer_valid_def net_layout_defs

lemma ex_virt_ok: "net_virt_ok ex_virt"
  by (simp add: net_virt_ok_def ex_virt_def ex_clients client_queues_def net_layout_defs)

theorem net_pump_isolated_witness:
  "net_virt_ok ex_virt \<and> fst (aos_net_virt_pump (Some ex_virt) ex_mem) = 1 \<and>
   nm_bytes (snd (aos_net_virt_pump (Some ex_virt) ex_mem)) 0x26014800 = nm_bytes ex_mem 0x26014800"
proof -
  have one: "fst (aos_net_virt_pump (Some ex_virt) ex_mem) = 1"
    by (simp add: aos_net_virt_pump_def ex_virt_def source_loop_numeral Let_def upt_rec ex_net_eval)
  have "0x26014800 \<notin> window (nc_rx_data c) AOS_NET_RX_DATA_BYTES" if "c \<in> set (live_clients ex_virt)" for c
    using that window_unat [of "nc_rx_data c" AOS_NET_RX_DATA_BYTES "0x26014800"]
    by (auto simp: live_clients_def ex_virt_def ex_clients net_layout_defs)
  with one ex_virt_ok net_pump_isolated [OF ex_virt_ok prod.collapse [symmetric], of ex_mem]
  show ?thesis by simp
qed

theorem net_delivery_exact_witness:
  "\<exists>m'. deliver_one ex_mem (ex_client 1) 0x26014800 3 = (True, m') \<and>
     net_queue_contents 32 (nm_queues m' 0x26201000) = [zero_net_desc\<lparr>nd_len := 3\<rparr>] \<and>
     nm_bytes m' 0x26204002 = nm_bytes ex_mem 0x26014802"
proof -
  let ?c = "ex_client 1"
  obtain m' where ok: "deliver_one ex_mem ?c 0x26014800 3 = (True, m')"
    by (simp add: ex_net_eval Let_def)
  have disj: "client_rx_window ?c \<inter> window 0x26014800 (unat (3 :: u16)) = {}"
    using window_disjoint [of "0x26014800" 3 "0x26204000" 65536]
    by (simp add: client_rx_window_def ex_clients net_layout_defs Int_commute)
  have pre: "net_capacity_ok (nc_capacity ?c)"
      "net_queue_ok (unat (nc_capacity ?c)) (nm_queues ex_mem (nc_rx_free ?c))"
      "nc_rx_free ?c \<noteq> nc_rx_active ?c"
    by (simp_all add: net_capacity_ok_def net_queue_ok_def aos_net_queue_length_def ex_net_eval)
  have "net_queue_contents 32 (nm_queues ex_mem 0x26200000) =
      zero_net_desc # ring_list (nq_buffers (free_net_queue 32)) 32 (1 :: u16) 32"
    unfolding ex_mem_eval net_queue_contents_def
    using ring_list_Cons [of "0 :: u16" 32 32 "nq_buffers (free_net_queue 32)"]
    by (simp add: free_net_queue_def zero_net_queue_def zero_net_desc_def)
  moreover have "net_queue_contents 32 (nm_queues ex_mem 0x26201000) = []"
    by (simp add: ex_mem_eval net_queue_contents_def zero_net_queue_def)
  ultimately show ?thesis
    using net_delivery_exact [OF ok pre disj] ok
    by (auto simp: ex_clients zero_net_desc_def dest!: spec [of _ "2 :: nat"])
qed

theorem net_remove_client_exact_witness:
  "\<exists>v'. aos_net_virt_remove_client (Some ex_virt) (Some (ex_client 0)) = (0, Some v') \<and>
     live_clients v' = [ex_client 1]"
  using net_remove_client_exact [OF ex_virt_ok, of "ex_client 0"]
  by (auto simp: ex_clients live_clients_def ex_virt_def)

end
