(* ===== verification/BlkVirt.thy ===== *)
theory BlkVirt
  imports AosPrelude ByteHeap
begin

text \<open>
  The block virtualizer's queues and pump (\<open>platform/blk-virt/blk_virt_pump.c\<close> with the layout of
  \<open>platform/include/platform/blk_layout.h\<close>), together with the client side of the same rings that
  the guest VMM uses (\<open>libvmm/dep/sddf/include/sddf/blk/queue.h\<close>).

  \<open>blk_mem\<close> is the memory: one heap per C type and the byte heap for the data cells and the RAM
  disk images.  A request is whatever a client wrote into the shared ring; its code is an arbitrary
  32-bit value.  A configured backend is a function of the client and the request that may change
  memory, as the C callback may.
\<close>

section \<open>Layout\<close>

definition AOS_BLK_TRANSFER_SIZE :: nat where "AOS_BLK_TRANSFER_SIZE = 4096"
definition AOS_BLK_SECTOR_SIZE :: nat where "AOS_BLK_SECTOR_SIZE = 512"
definition AOS_BLK_QUEUE_CAPACITY :: nat where "AOS_BLK_QUEUE_CAPACITY = 128"
definition AOS_BLK_MAX_CLIENTS :: nat where "AOS_BLK_MAX_CLIENTS = 2"
definition AOS_BLK_GUEST_MAX_SEGMENT_SIZE :: nat where
  "AOS_BLK_GUEST_MAX_SEGMENT_SIZE = 0x100000"
definition AOS_BLK_DATA_CELLS :: nat where
  "AOS_BLK_DATA_CELLS = AOS_BLK_GUEST_MAX_SEGMENT_SIZE div AOS_BLK_TRANSFER_SIZE + 1"
definition AOS_BLK_DATA_BYTES :: nat where
  "AOS_BLK_DATA_BYTES = AOS_BLK_DATA_CELLS * AOS_BLK_TRANSFER_SIZE"
definition AOS_BLK_CLIENT_STRIDE :: nat where "AOS_BLK_CLIENT_STRIDE = 0x200000"
definition AOS_BLK_CLIENT_BASE :: nat where "AOS_BLK_CLIENT_BASE = 2 ^ 21"
definition AOS_BLK_STORAGE_INFO_OFF :: nat where "AOS_BLK_STORAGE_INFO_OFF = 0"
definition AOS_BLK_SIGNAL_OFF :: nat where "AOS_BLK_SIGNAL_OFF = 0x800"
definition AOS_BLK_REQ_QUEUE_OFF :: nat where "AOS_BLK_REQ_QUEUE_OFF = 0x1000"
definition AOS_BLK_RESP_QUEUE_OFF :: nat where "AOS_BLK_RESP_QUEUE_OFF = 0x3000"
definition AOS_BLK_DATA_OFF :: nat where "AOS_BLK_DATA_OFF = 0x5000"
definition AOS_BLK_MAX_SERIAL :: nat where "AOS_BLK_MAX_SERIAL = 63"

lemmas blk_layout_defs = AOS_BLK_TRANSFER_SIZE_def AOS_BLK_SECTOR_SIZE_def
  AOS_BLK_QUEUE_CAPACITY_def AOS_BLK_MAX_CLIENTS_def AOS_BLK_GUEST_MAX_SEGMENT_SIZE_def
  AOS_BLK_DATA_CELLS_def AOS_BLK_DATA_BYTES_def AOS_BLK_CLIENT_STRIDE_def AOS_BLK_CLIENT_BASE_def
  AOS_BLK_STORAGE_INFO_OFF_def AOS_BLK_SIGNAL_OFF_def AOS_BLK_REQ_QUEUE_OFF_def
  AOS_BLK_RESP_QUEUE_OFF_def AOS_BLK_DATA_OFF_def AOS_BLK_MAX_SERIAL_def

definition AOS_BLK_REQ_READ :: u32 where "AOS_BLK_REQ_READ = 0"
definition AOS_BLK_REQ_WRITE :: u32 where "AOS_BLK_REQ_WRITE = 1"
definition AOS_BLK_REQ_FLUSH :: u32 where "AOS_BLK_REQ_FLUSH = 2"
definition AOS_BLK_REQ_BARRIER :: u32 where "AOS_BLK_REQ_BARRIER = 3"

lemmas blk_req_codes = AOS_BLK_REQ_READ_def AOS_BLK_REQ_WRITE_def AOS_BLK_REQ_FLUSH_def
  AOS_BLK_REQ_BARRIER_def

datatype aos_blk_resp_status =
    AOS_BLK_RESP_OK
  | AOS_BLK_RESP_ERR_UNSPEC
  | AOS_BLK_RESP_ERR_INVALID_PARAM
  | AOS_BLK_RESP_ERR_IO
  | AOS_BLK_RESP_ERR_NO_DEVICE

record aos_blk_req =
  br_code :: u32
  br_io_or_offset :: u64
  br_block_number :: u64
  br_count :: u16
  br_id :: u32

record aos_blk_resp =
  bs_status :: aos_blk_resp_status
  bs_success_count :: u16
  bs_id :: u32

record aos_blk_req_queue =
  brq_head :: u32
  brq_tail :: u32
  brq_plugged :: bool
  brq_buffers :: "nat \<Rightarrow> aos_blk_req"

record aos_blk_resp_queue =
  bsq_head :: u32
  bsq_tail :: u32
  bsq_buffers :: "nat \<Rightarrow> aos_blk_resp"

record aos_blk_storage_info =
  bi_serial_number :: "char list"
  bi_read_only :: bool
  bi_ready :: bool
  bi_sector_size :: u16
  bi_block_size :: u16
  bi_queue_depth :: u16
  bi_cylinders :: u16
  bi_heads :: u16
  bi_blocks :: u16
  bi_capacity :: u64

record aos_blk_signal =
  bg_req_consumer_signalled :: u32
  bg_reserved :: u32

record blk_mem =
  bm_infos :: "u64 \<Rightarrow> aos_blk_storage_info"
  bm_signals :: "u64 \<Rightarrow> aos_blk_signal"
  bm_reqs :: "u64 \<Rightarrow> aos_blk_req_queue"
  bm_resps :: "u64 \<Rightarrow> aos_blk_resp_queue"
  bm_bytes :: byte_heap

record aos_blk_virt_client =
  bc_info :: u64
  bc_signal :: u64
  bc_req :: u64
  bc_resp :: u64
  bc_data :: u64
  bc_capacity :: u32
  bc_disk :: u64
  bc_disk_blocks :: u32
  bc_media_blocks :: u32

type_synonym aos_blk_backend_fn =
  "blk_mem \<Rightarrow> aos_blk_virt_client \<Rightarrow> aos_blk_req \<Rightarrow> aos_blk_resp_status \<times> blk_mem"

record aos_blk_virt =
  bv_clients :: "aos_blk_virt_client list"
  bv_num_clients :: u32
  bv_backend :: "aos_blk_backend_fn option"

section \<open>Queue operations of the virtualizer\<close>

definition req_len :: "aos_blk_req_queue \<Rightarrow> u32" where
  "req_len q = brq_tail q - brq_head q"

definition resp_len :: "aos_blk_resp_queue \<Rightarrow> u32" where
  "resp_len q = bsq_tail q - bsq_head q"

definition aos_blk_queue_req_length :: "blk_mem \<Rightarrow> u64 \<Rightarrow> u32" where
  "aos_blk_queue_req_length m q = (if q \<noteq> 0 then req_len (bm_reqs m q) else 0)"

definition aos_blk_queue_resp_length :: "blk_mem \<Rightarrow> u64 \<Rightarrow> u32" where
  "aos_blk_queue_resp_length m q = (if q \<noteq> 0 then resp_len (bm_resps m q) else 0)"

definition aos_blk_queue_req_valid :: "blk_mem \<Rightarrow> u64 \<Rightarrow> u32 \<Rightarrow> bool" where
  "aos_blk_queue_req_valid m q capacity \<longleftrightarrow>
     q \<noteq> 0 \<and> capacity \<noteq> 0 \<and> unat capacity \<le> AOS_BLK_QUEUE_CAPACITY \<and>
     req_len (bm_reqs m q) \<le> capacity"

definition aos_blk_queue_resp_valid :: "blk_mem \<Rightarrow> u64 \<Rightarrow> u32 \<Rightarrow> bool" where
  "aos_blk_queue_resp_valid m q capacity \<longleftrightarrow>
     q \<noteq> 0 \<and> capacity \<noteq> 0 \<and> unat capacity \<le> AOS_BLK_QUEUE_CAPACITY \<and>
     resp_len (bm_resps m q) \<le> capacity"

definition reset_req_queue :: "blk_mem \<Rightarrow> u64 \<Rightarrow> blk_mem" where
  "reset_req_queue m q =
     (let Q = bm_reqs m q in m\<lparr>bm_reqs := (bm_reqs m)(q := Q\<lparr>brq_head := brq_tail Q\<rparr>)\<rparr>)"

definition reset_resp_queue :: "blk_mem \<Rightarrow> u64 \<Rightarrow> blk_mem" where
  "reset_resp_queue m q =
     (let Q = bm_resps m q in m\<lparr>bm_resps := (bm_resps m)(q := Q\<lparr>bsq_head := bsq_tail Q\<rparr>)\<rparr>)"

definition req_empty :: "aos_blk_req_queue \<Rightarrow> bool" where
  "req_empty q \<longleftrightarrow> req_len q = 0"

definition resp_full :: "aos_blk_resp_queue \<Rightarrow> u32 \<Rightarrow> bool" where
  "resp_full q capacity \<longleftrightarrow> capacity \<le> resp_len q"

definition dequeue_req :: "blk_mem \<Rightarrow> u64 \<Rightarrow> u32 \<Rightarrow> (aos_blk_req \<times> blk_mem) option" where
  "dequeue_req m q capacity =
     (if \<not> aos_blk_queue_req_valid m q capacity \<or> req_empty (bm_reqs m q) then None
      else
        let Q = bm_reqs m q; out = brq_buffers Q (unat (brq_head Q) mod unat capacity) in
        Some (out, m\<lparr>bm_reqs := (bm_reqs m)(q := Q\<lparr>brq_head := brq_head Q + 1\<rparr>)\<rparr>))"

definition enqueue_resp :: "blk_mem \<Rightarrow> u64 \<Rightarrow> u32 \<Rightarrow> aos_blk_resp \<Rightarrow> blk_mem option" where
  "enqueue_resp m q capacity r =
     (if \<not> aos_blk_queue_resp_valid m q capacity \<or> resp_full (bm_resps m q) capacity then None
      else
        let Q = bm_resps m q in
        Some (m\<lparr>bm_resps := (bm_resps m)(q := Q\<lparr>
          bsq_buffers := (bsq_buffers Q)(unat (bsq_tail Q) mod unat capacity := r),
          bsq_tail := bsq_tail Q + 1\<rparr>)\<rparr>))"

section \<open>Queue operations of the client\<close>

text \<open>
  The VMM's emulated device enqueues requests and dequeues responses with sDDF's ring helpers on
  the same memory; a handle is the pair of queue addresses and the capacity.
\<close>

record blk_queue_handle =
  qh_req_queue :: u64
  qh_resp_queue :: u64
  qh_capacity :: u32

definition blk_queue_full_req :: "blk_mem \<Rightarrow> blk_queue_handle \<Rightarrow> bool" where
  "blk_queue_full_req m h \<longleftrightarrow>
     brq_tail (bm_reqs m (qh_req_queue h)) - brq_head (bm_reqs m (qh_req_queue h)) = qh_capacity h"

definition blk_queue_empty_resp :: "blk_mem \<Rightarrow> blk_queue_handle \<Rightarrow> bool" where
  "blk_queue_empty_resp m h \<longleftrightarrow>
     bsq_tail (bm_resps m (qh_resp_queue h)) - bsq_head (bm_resps m (qh_resp_queue h)) = 0"

definition blk_enqueue_req :: "blk_mem \<Rightarrow> blk_queue_handle \<Rightarrow> u32 \<Rightarrow> u64 \<Rightarrow> u64 \<Rightarrow> u16 \<Rightarrow> u32 \<Rightarrow>
    blk_mem option" where
  "blk_enqueue_req m h code io_or_offset block_number count rid =
     (if blk_queue_full_req m h then None
      else
        let Q = bm_reqs m (qh_req_queue h);
            req = \<lparr>br_code = code, br_io_or_offset = io_or_offset, br_block_number = block_number,
                   br_count = count, br_id = rid\<rparr>
        in Some (m\<lparr>bm_reqs := (bm_reqs m)(qh_req_queue h := Q\<lparr>
             brq_buffers := (brq_buffers Q)(unat (brq_tail Q) mod unat (qh_capacity h) := req),
             brq_tail := brq_tail Q + 1\<rparr>)\<rparr>))"

definition blk_dequeue_resp :: "blk_mem \<Rightarrow> blk_queue_handle \<Rightarrow>
    ((aos_blk_resp_status \<times> u16 \<times> u32) \<times> blk_mem) option" where
  "blk_dequeue_resp m h =
     (if blk_queue_empty_resp m h then None
      else
        let Q = bm_resps m (qh_resp_queue h);
            r = bsq_buffers Q (unat (bsq_head Q) mod unat (qh_capacity h))
        in Some ((bs_status r, bs_success_count r, bs_id r),
             m\<lparr>bm_resps := (bm_resps m)(qh_resp_queue h := Q\<lparr>bsq_head := bsq_head Q + 1\<rparr>)\<rparr>))"

section \<open>Clients\<close>

definition zero_blk_client :: aos_blk_virt_client where
  "zero_blk_client = \<lparr>bc_info = 0, bc_signal = 0, bc_req = 0, bc_resp = 0, bc_data = 0,
     bc_capacity = 0, bc_disk = 0, bc_disk_blocks = 0, bc_media_blocks = 0\<rparr>"

definition zero_blk_virt :: aos_blk_virt where
  "zero_blk_virt = \<lparr>bv_clients = replicate AOS_BLK_MAX_CLIENTS zero_blk_client,
     bv_num_clients = 0, bv_backend = None\<rparr>"

definition aos_blk_virt_reset :: "aos_blk_virt option \<Rightarrow> aos_blk_virt option" where
  "aos_blk_virt_reset v = map_option (\<lambda>_. zero_blk_virt) v"

definition client_drained :: "blk_mem \<Rightarrow> aos_blk_virt_client \<Rightarrow> bool" where
  "client_drained m c \<longleftrightarrow>
     aos_blk_queue_req_valid m (bc_req c) (bc_capacity c) \<and>
     aos_blk_queue_resp_valid m (bc_resp c) (bc_capacity c) \<and>
     req_len (bm_reqs m (bc_req c)) = 0 \<and> resp_len (bm_resps m (bc_resp c)) = 0"

definition aos_blk_virt_detach ::
    "aos_blk_virt option \<Rightarrow> blk_mem \<Rightarrow> bool \<times> aos_blk_virt option" where
  "aos_blk_virt_detach vp m =
     (case vp of
        None \<Rightarrow> (False, vp)
      | Some v \<Rightarrow>
          if AOS_BLK_MAX_CLIENTS < unat (bv_num_clients v) then (False, vp)
          else if list_all (client_drained m) (take (unat (bv_num_clients v)) (bv_clients v))
          then (True, aos_blk_virt_reset vp)
          else (False, vp))"

definition aos_blk_storage_init :: "u32 \<Rightarrow> aos_blk_storage_info" where
  "aos_blk_storage_init disk_blocks =
     \<lparr>bi_serial_number = ''aos-ram0'' @ replicate (AOS_BLK_MAX_SERIAL + 1 - 8) (CHR 0x00),
      bi_read_only = False, bi_ready = True,
      bi_sector_size = of_nat AOS_BLK_SECTOR_SIZE, bi_block_size = 1,
      bi_queue_depth = of_nat AOS_BLK_QUEUE_CAPACITY,
      bi_cylinders = 0, bi_heads = 0, bi_blocks = 0, bi_capacity = ucast disk_blocks\<rparr>"

definition aos_blk_virt_add_client ::
    "aos_blk_virt option \<Rightarrow> aos_blk_virt_client option \<Rightarrow> int \<times> aos_blk_virt option" where
  "aos_blk_virt_add_client vp cp =
     (case (vp, cp) of
        (Some v, Some c) \<Rightarrow>
          if bc_info c = 0 \<or> bc_req c = 0 \<or> bc_resp c = 0 \<or> bc_data c = 0 \<or>
             bc_capacity c = 0 \<or> AOS_BLK_QUEUE_CAPACITY < unat (bc_capacity c) \<or>
             bc_media_blocks c = 0 \<or> AOS_BLK_MAX_CLIENTS \<le> unat (bv_num_clients v)
          then (-1, vp)
          else (0, Some (v\<lparr>bv_clients := (bv_clients v)[unat (bv_num_clients v) := c],
                          bv_num_clients := bv_num_clients v + 1\<rparr>))
      | _ \<Rightarrow> (-1, vp))"

definition aos_blk_client_set_media ::
    "aos_blk_virt_client option \<Rightarrow> u32 \<Rightarrow> aos_blk_virt_client option" where
  "aos_blk_client_set_media cp media_blocks =
     (case cp of None \<Rightarrow> None | Some c \<Rightarrow> Some (c\<lparr>bc_media_blocks := media_blocks\<rparr>))"

definition aos_blk_client_set_ram_disk ::
    "aos_blk_virt_client option \<Rightarrow> u64 \<Rightarrow> u32 \<Rightarrow> aos_blk_virt_client option" where
  "aos_blk_client_set_ram_disk cp disk disk_blocks =
     (case cp of
        None \<Rightarrow> None
      | Some c \<Rightarrow> Some (c\<lparr>bc_disk := disk, bc_disk_blocks := disk_blocks,
                          bc_media_blocks := disk_blocks\<rparr>))"

definition aos_blk_virt_set_backend ::
    "aos_blk_virt option \<Rightarrow> aos_blk_backend_fn option \<Rightarrow> aos_blk_virt option" where
  "aos_blk_virt_set_backend vp backend =
     (case vp of None \<Rightarrow> None | Some v \<Rightarrow> Some (v\<lparr>bv_backend := backend\<rparr>))"

definition aos_blk_client_bind ::
    "u64 \<Rightarrow> u32 \<Rightarrow> aos_blk_virt_client \<Rightarrow> aos_blk_virt_client" where
  "aos_blk_client_bind region client_index out =
     (if region = 0 \<or> AOS_BLK_MAX_CLIENTS \<le> unat client_index then out
      else
        let base = region + of_nat AOS_BLK_CLIENT_BASE +
                   of_nat (unat client_index * AOS_BLK_CLIENT_STRIDE) in
        out\<lparr>bc_info := base + of_nat AOS_BLK_STORAGE_INFO_OFF,
            bc_signal := base + of_nat AOS_BLK_SIGNAL_OFF,
            bc_req := base + of_nat AOS_BLK_REQ_QUEUE_OFF,
            bc_resp := base + of_nat AOS_BLK_RESP_QUEUE_OFF,
            bc_data := base + of_nat AOS_BLK_DATA_OFF,
            bc_capacity := of_nat AOS_BLK_QUEUE_CAPACITY\<rparr>)"

definition zero_blk_req :: aos_blk_req where
  "zero_blk_req = \<lparr>br_code = 0, br_io_or_offset = 0, br_block_number = 0, br_count = 0, br_id = 0\<rparr>"

definition zero_blk_resp :: aos_blk_resp where
  "zero_blk_resp = \<lparr>bs_status = AOS_BLK_RESP_OK, bs_success_count = 0, bs_id = 0\<rparr>"

definition aos_blk_client_init_queues :: "aos_blk_virt_client \<Rightarrow> blk_mem \<Rightarrow> blk_mem" where
  "aos_blk_client_init_queues c m =
     (if bc_req c = 0 \<or> bc_resp c = 0 then m
      else
        let m1 = m\<lparr>bm_reqs := (bm_reqs m)(bc_req c :=
                     \<lparr>brq_head = 0, brq_tail = 0, brq_plugged = False,
                      brq_buffers = (\<lambda>_. zero_blk_req)\<rparr>),
                   bm_resps := (bm_resps m)(bc_resp c :=
                     \<lparr>bsq_head = 0, bsq_tail = 0, bsq_buffers = (\<lambda>_. zero_blk_resp)\<rparr>)\<rparr>
        in if bc_signal c \<noteq> 0
           then m1\<lparr>bm_signals := (bm_signals m1)(bc_signal c :=
                     \<lparr>bg_req_consumer_signalled = 0, bg_reserved = 0\<rparr>)\<rparr>
           else m1)"

section \<open>Serving requests\<close>

definition request_valid :: "aos_blk_virt_client \<Rightarrow> aos_blk_req \<Rightarrow> bool" where
  "request_valid c req =
     (if br_code req = AOS_BLK_REQ_READ \<or> br_code req = AOS_BLK_REQ_WRITE then
        (if br_count req = 0 \<or> bc_media_blocks c = 0 \<or>
            ucast (bc_media_blocks c) < br_block_number req \<or>
            ucast (bc_media_blocks c) - br_block_number req < (ucast (br_count req) :: u64)
         then False
         else
           let nbytes = (ucast (br_count req) :: u32) * of_nat AOS_BLK_TRANSFER_SIZE in
           br_io_or_offset req \<le> of_nat AOS_BLK_DATA_BYTES \<and>
           (ucast nbytes :: u64) \<le> of_nat AOS_BLK_DATA_BYTES - br_io_or_offset req)
      else if br_code req = AOS_BLK_REQ_FLUSH \<or> br_code req = AOS_BLK_REQ_BARRIER then
        br_io_or_offset req = 0 \<and> br_block_number req = 0 \<and> br_count req = 0
      else False)"

definition serve_rw ::
    "blk_mem \<Rightarrow> aos_blk_virt_client \<Rightarrow> aos_blk_req \<Rightarrow> bool \<Rightarrow> aos_blk_resp_status \<times> blk_mem" where
  "serve_rw m c req writing =
     (let nbytes = (ucast (br_count req) :: u32) * of_nat AOS_BLK_TRANSFER_SIZE;
          disk_offset = br_block_number req * of_nat AOS_BLK_TRANSFER_SIZE;
          data = bc_data c + ucast (ucast (br_io_or_offset req) :: u32)
      in if bc_disk c = 0 \<or> bc_disk_blocks c < bc_media_blocks c
         then (AOS_BLK_RESP_ERR_NO_DEVICE, m)
         else if writing
         then (AOS_BLK_RESP_OK, m\<lparr>bm_bytes :=
                 aos_copy (bm_bytes m) (bc_disk c + disk_offset) data (unat nbytes)\<rparr>)
         else (AOS_BLK_RESP_OK, m\<lparr>bm_bytes :=
                 aos_copy (bm_bytes m) data (bc_disk c + disk_offset) (unat nbytes)\<rparr>))"

text \<open>The request dispatch in the body of the pump's inner loop: the response to one request.\<close>

definition success_count_of :: "aos_blk_resp_status \<Rightarrow> aos_blk_req \<Rightarrow> u16" where
  "success_count_of status req =
     (if status = AOS_BLK_RESP_OK \<and>
         (br_code req = AOS_BLK_REQ_READ \<or> br_code req = AOS_BLK_REQ_WRITE)
      then br_count req else 0)"

definition serve_request :: "aos_blk_virt \<Rightarrow> blk_mem \<Rightarrow> aos_blk_virt_client \<Rightarrow> aos_blk_req \<Rightarrow>
    aos_blk_resp \<times> blk_mem" where
  "serve_request v m c req =
     (if \<not> request_valid c req then
        (\<lparr>bs_status = AOS_BLK_RESP_ERR_INVALID_PARAM, bs_success_count = 0, bs_id = br_id req\<rparr>, m)
      else if br_code req = AOS_BLK_REQ_WRITE \<and> bi_read_only (bm_infos m (bc_info c)) then
        (\<lparr>bs_status = AOS_BLK_RESP_ERR_IO, bs_success_count = 0, bs_id = br_id req\<rparr>, m)
      else
        (case bv_backend v of
           Some backend \<Rightarrow>
             (case backend m c req of (status, m') \<Rightarrow>
                (\<lparr>bs_status = status, bs_success_count = success_count_of status req,
                  bs_id = br_id req\<rparr>, m'))
         | None \<Rightarrow>
             if br_code req = AOS_BLK_REQ_READ then
               (case serve_rw m c req False of (status, m') \<Rightarrow>
                  (\<lparr>bs_status = status, bs_success_count = success_count_of status req,
                    bs_id = br_id req\<rparr>, m'))
             else if br_code req = AOS_BLK_REQ_WRITE then
               (case serve_rw m c req True of (status, m') \<Rightarrow>
                  (\<lparr>bs_status = status, bs_success_count = success_count_of status req,
                    bs_id = br_id req\<rparr>, m'))
             else if br_code req = AOS_BLK_REQ_FLUSH \<or> br_code req = AOS_BLK_REQ_BARRIER then
               (\<lparr>bs_status = AOS_BLK_RESP_OK, bs_success_count = 0, bs_id = br_id req\<rparr>, m)
             else
               (\<lparr>bs_status = AOS_BLK_RESP_ERR_INVALID_PARAM, bs_success_count = 0,
                 bs_id = br_id req\<rparr>, m)))"

fun client_loop :: "aos_blk_virt \<Rightarrow> aos_blk_virt_client \<Rightarrow> nat \<Rightarrow> u32 \<Rightarrow> blk_mem \<Rightarrow> u32 \<times> blk_mem" where
  "client_loop v c 0 completed m = (completed, m)"
| "client_loop v c (Suc budget) completed m =
     (if req_empty (bm_reqs m (bc_req c)) then (completed, m)
      else if resp_full (bm_resps m (bc_resp c)) (bc_capacity c) then (completed, m)
      else
        (case dequeue_req m (bc_req c) (bc_capacity c) of
           None \<Rightarrow> (completed, m)
         | Some (req, m1) \<Rightarrow>
             (case serve_request v m1 c req of (resp, m2) \<Rightarrow>
                (case enqueue_resp m2 (bc_resp c) (bc_capacity c) resp of
                   None \<Rightarrow> (completed, m2)
                 | Some m3 \<Rightarrow> client_loop v c budget (completed + 1) m3))))"

definition pump_client :: "aos_blk_virt \<Rightarrow> aos_blk_virt_client \<Rightarrow> u32 \<Rightarrow> blk_mem \<Rightarrow> u32 \<times> blk_mem" where
  "pump_client v c completed m =
     (if bc_info c = 0 \<or> bc_req c = 0 \<or> bc_resp c = 0 \<or> bc_data c = 0 \<or>
         bc_capacity c = 0 \<or> AOS_BLK_QUEUE_CAPACITY < unat (bc_capacity c)
      then (completed, m)
      else if \<not> aos_blk_queue_resp_valid m (bc_resp c) (bc_capacity c)
      then (completed, reset_resp_queue m (bc_resp c))
      else if \<not> aos_blk_queue_req_valid m (bc_req c) (bc_capacity c)
      then (completed, reset_req_queue m (bc_req c))
      else client_loop v c (unat (bc_capacity c)) completed m)"

fun clients_loop :: "aos_blk_virt \<Rightarrow> aos_blk_virt_client list \<Rightarrow> u32 \<Rightarrow> blk_mem \<Rightarrow> u32 \<times> blk_mem" where
  "clients_loop v [] completed m = (completed, m)"
| "clients_loop v (c # cs) completed m =
     (case pump_client v c completed m of (completed', m') \<Rightarrow> clients_loop v cs completed' m')"

definition aos_blk_virt_pump :: "aos_blk_virt option \<Rightarrow> blk_mem \<Rightarrow> u32 \<times> blk_mem" where
  "aos_blk_virt_pump vp m =
     (case vp of
        None \<Rightarrow> (0, m)
      | Some v \<Rightarrow>
          if bv_num_clients v = 0 then (0, m)
          else clients_loop v (take (unat (bv_num_clients v)) (bv_clients v)) 0 m)"

section \<open>The rings as FIFOs\<close>

definition req_contents :: "nat \<Rightarrow> aos_blk_req_queue \<Rightarrow> aos_blk_req list" where
  "req_contents cap q = ring_list (brq_buffers q) cap (brq_head q) (brq_tail q)"

definition resp_contents :: "nat \<Rightarrow> aos_blk_resp_queue \<Rightarrow> aos_blk_resp list" where
  "resp_contents cap q = ring_list (bsq_buffers q) cap (bsq_head q) (bsq_tail q)"

lemma length_req_contents [simp]: "length (req_contents cap q) = unat (req_len q)"
  by (simp add: req_contents_def req_len_def)

lemma length_resp_contents [simp]: "length (resp_contents cap q) = unat (resp_len q)"
  by (simp add: resp_contents_def resp_len_def)

definition blk_capacity_ok :: "u32 \<Rightarrow> bool" where
  "blk_capacity_ok cap \<longleftrightarrow>
     cap \<noteq> 0 \<and> unat cap \<le> AOS_BLK_QUEUE_CAPACITY \<and> unat cap dvd 2 ^ 32"

lemma blk_capacity_okD:
  assumes "blk_capacity_ok cap"
  shows "cap \<noteq> 0" "unat cap \<le> AOS_BLK_QUEUE_CAPACITY" "unat cap dvd 2 ^ LENGTH(32)"
    "unat cap < 2 ^ LENGTH(32)"
  using assms by (auto simp: blk_capacity_ok_def AOS_BLK_QUEUE_CAPACITY_def)

lemma dequeue_req_cons:
  assumes cap: "blk_capacity_ok cap" and valid: "aos_blk_queue_req_valid m q cap"
    and xs: "req_contents (unat cap) (bm_reqs m q) = x # xs"
  shows "\<exists>m'. dequeue_req m q cap = Some (x, m') \<and> aos_blk_queue_req_valid m' q cap \<and>
    req_contents (unat cap) (bm_reqs m' q) = xs \<and> bm_resps m' = bm_resps m"
proof -
  let ?Q = "bm_reqs m q"
  have ne: "brq_head ?Q \<noteq> brq_tail ?Q"
    using xs by (auto simp: req_contents_def)
  have hd: "brq_buffers ?Q (unat (brq_head ?Q) mod unat cap) = x"
    and tl: "ring_list (brq_buffers ?Q) (unat cap) (brq_head ?Q + 1) (brq_tail ?Q) = xs"
    using xs ring_list_Cons [OF ne blk_capacity_okD(3) [OF cap], of "brq_buffers ?Q"]
    by (simp_all add: req_contents_def)
  have "Suc (length xs) = unat (req_len ?Q)"
    using length_req_contents [of "unat cap" ?Q] xs by simp
  moreover have "unat (req_len ?Q) \<le> unat cap"
    using valid by (simp add: aos_blk_queue_req_valid_def word_le_nat_alt)
  moreover have "length xs = unat (brq_tail ?Q - (brq_head ?Q + 1))"
    using tl by (metis length_ring_list)
  ultimately have "unat (brq_tail ?Q - (brq_head ?Q + 1)) \<le> unat cap" by linarith
  with hd tl ne valid show ?thesis
    by (auto simp: dequeue_req_def req_empty_def req_len_def req_contents_def Let_def
        aos_blk_queue_req_valid_def word_le_nat_alt)
qed

lemma dequeue_req_nil:
  "req_contents (unat cap) (bm_reqs m q) = [] \<Longrightarrow> dequeue_req m q cap = None"
  by (simp add: dequeue_req_def req_empty_def req_len_def req_contents_def)

lemma enqueue_resp_room:
  assumes cap: "blk_capacity_ok cap" and valid: "aos_blk_queue_resp_valid m q cap"
    and room: "length (resp_contents (unat cap) (bm_resps m q)) < unat cap"
  shows "\<exists>m'. enqueue_resp m q cap x = Some m' \<and> aos_blk_queue_resp_valid m' q cap \<and>
    resp_contents (unat cap) (bm_resps m' q) = resp_contents (unat cap) (bm_resps m q) @ [x] \<and>
    bm_reqs m' = bm_reqs m"
proof -
  let ?Q = "bm_resps m q"
  have room': "unat (bsq_tail ?Q - bsq_head ?Q) < unat cap"
    using room by (simp add: resp_len_def)
  have snoc: "ring_list ((bsq_buffers ?Q)(unat (bsq_tail ?Q) mod unat cap := x)) (unat cap)
      (bsq_head ?Q) (bsq_tail ?Q + 1) = resp_contents (unat cap) ?Q @ [x]"
    unfolding resp_contents_def
    using ring_list_snoc [OF room' blk_capacity_okD(3,4) [OF cap]] .
  have "length (resp_contents (unat cap) ?Q @ [x]) \<le> unat cap" using room by simp
  with snoc have "unat (bsq_tail ?Q + 1 - bsq_head ?Q) \<le> unat cap"
    by (metis length_ring_list)
  with snoc room' valid show ?thesis
    by (simp add: enqueue_resp_def resp_full_def resp_contents_def resp_len_def Let_def
        aos_blk_queue_resp_valid_def word_le_nat_alt)
qed

lemma enqueue_resp_full:
  "length (resp_contents (unat cap) (bm_resps m q)) = unat cap \<Longrightarrow> enqueue_resp m q cap x = None"
  by (simp add: enqueue_resp_def resp_full_def word_le_nat_alt)

text \<open>
  The two halves of each ring are different programs: sDDF's helper in the VMM and the pump's
  helper in \<open>blk_virt\<close>.  Together they implement the FIFO interface, in both directions.
\<close>

abbreviation (input) blk_handle :: "u64 \<Rightarrow> blk_queue_handle" where
  "blk_handle q \<equiv> \<lparr>qh_req_queue = q, qh_resp_queue = q, qh_capacity = of_nat AOS_BLK_QUEUE_CAPACITY\<rparr>"

lemma unat_blk_capacity [simp]: "unat (of_nat AOS_BLK_QUEUE_CAPACITY :: u32) = AOS_BLK_QUEUE_CAPACITY"
  by (simp add: AOS_BLK_QUEUE_CAPACITY_def)

lemma blk_capacity_ok_default [simp]: "blk_capacity_ok (of_nat AOS_BLK_QUEUE_CAPACITY)"
  by (simp add: blk_capacity_ok_def AOS_BLK_QUEUE_CAPACITY_def)

definition blk_req_put :: "u64 \<times> blk_mem \<Rightarrow> aos_blk_req \<Rightarrow> (u64 \<times> blk_mem) option" where
  "blk_req_put qm r = map_option (Pair (fst qm))
     (blk_enqueue_req (snd qm) (blk_handle (fst qm)) (br_code r) (br_io_or_offset r)
        (br_block_number r) (br_count r) (br_id r))"

definition blk_req_get :: "u64 \<times> blk_mem \<Rightarrow> (aos_blk_req \<times> u64 \<times> blk_mem) option" where
  "blk_req_get qm = map_option (\<lambda>(r, m). (r, fst qm, m))
     (dequeue_req (snd qm) (fst qm) (of_nat AOS_BLK_QUEUE_CAPACITY))"

definition blk_req_pending :: "u64 \<times> blk_mem \<Rightarrow> aos_blk_req list" where
  "blk_req_pending qm = req_contents AOS_BLK_QUEUE_CAPACITY (bm_reqs (snd qm) (fst qm))"

definition blk_req_wf :: "u64 \<times> blk_mem \<Rightarrow> bool" where
  "blk_req_wf qm \<longleftrightarrow> aos_blk_queue_req_valid (snd qm) (fst qm) (of_nat AOS_BLK_QUEUE_CAPACITY)"

lemma blk_enqueue_req_room:
  assumes valid: "aos_blk_queue_req_valid m q (of_nat AOS_BLK_QUEUE_CAPACITY)"
    and room: "length (req_contents AOS_BLK_QUEUE_CAPACITY (bm_reqs m q)) < AOS_BLK_QUEUE_CAPACITY"
  shows "\<exists>m'. blk_enqueue_req m (blk_handle q) (br_code x) (br_io_or_offset x) (br_block_number x)
      (br_count x) (br_id x) = Some m' \<and>
    aos_blk_queue_req_valid m' q (of_nat AOS_BLK_QUEUE_CAPACITY) \<and>
    req_contents AOS_BLK_QUEUE_CAPACITY (bm_reqs m' q) =
      req_contents AOS_BLK_QUEUE_CAPACITY (bm_reqs m q) @ [x]"
proof -
  let ?Q = "bm_reqs m q" and ?cap = "of_nat AOS_BLK_QUEUE_CAPACITY :: u32"
  have room': "unat (brq_tail ?Q - brq_head ?Q) < AOS_BLK_QUEUE_CAPACITY"
    using room by (simp add: req_len_def)
  then have ne: "brq_tail ?Q - brq_head ?Q \<noteq> ?cap" by (metis less_irrefl unat_blk_capacity)
  have snoc: "ring_list ((brq_buffers ?Q)(unat (brq_tail ?Q) mod AOS_BLK_QUEUE_CAPACITY := x))
      AOS_BLK_QUEUE_CAPACITY (brq_head ?Q) (brq_tail ?Q + 1) =
      req_contents AOS_BLK_QUEUE_CAPACITY ?Q @ [x]"
    unfolding req_contents_def
    using ring_list_snoc [OF room'] blk_capacity_okD(3,4) [OF blk_capacity_ok_default] by simp
  have "length (req_contents AOS_BLK_QUEUE_CAPACITY ?Q @ [x]) \<le> AOS_BLK_QUEUE_CAPACITY"
    using room by simp
  with snoc have "unat (brq_tail ?Q + 1 - brq_head ?Q) \<le> AOS_BLK_QUEUE_CAPACITY"
    by (metis length_ring_list)
  with snoc ne valid show ?thesis
    by (cases x) (simp add: blk_enqueue_req_def blk_queue_full_req_def req_contents_def req_len_def Let_def
        aos_blk_queue_req_valid_def word_le_nat_alt)
qed

interpretation blk_req: bounded_fifo blk_req_put blk_req_get blk_req_pending blk_req_wf
  AOS_BLK_QUEUE_CAPACITY
proof (unfold_locales, goal_cases)
  case (1 qm)
  then show ?case
    by (simp add: blk_req_wf_def blk_req_pending_def aos_blk_queue_req_valid_def word_le_nat_alt)
next
  case (2 qm x)
  then show ?case
    using blk_enqueue_req_room [of "snd qm" "fst qm" x]
    by (auto simp: blk_req_wf_def blk_req_pending_def blk_req_put_def)
next
  case (3 qm x)
  then have "req_len (bm_reqs (snd qm) (fst qm)) = of_nat AOS_BLK_QUEUE_CAPACITY"
    by (simp add: blk_req_pending_def word_unat_eq_iff)
  then show ?case
    by (simp add: blk_req_put_def blk_enqueue_req_def blk_queue_full_req_def req_len_def)
next
  case (4 qm)
  then show ?case
    using dequeue_req_nil [of "of_nat AOS_BLK_QUEUE_CAPACITY" "snd qm" "fst qm"]
    by (simp add: blk_req_pending_def blk_req_get_def)
next
  case (5 qm x xs)
  then show ?case
    using dequeue_req_cons [of "of_nat AOS_BLK_QUEUE_CAPACITY" "snd qm" "fst qm" x xs]
    by (auto simp: blk_req_wf_def blk_req_pending_def blk_req_get_def)
qed

definition blk_resp_put :: "u64 \<times> blk_mem \<Rightarrow> aos_blk_resp \<Rightarrow> (u64 \<times> blk_mem) option" where
  "blk_resp_put qm r = map_option (Pair (fst qm))
     (enqueue_resp (snd qm) (fst qm) (of_nat AOS_BLK_QUEUE_CAPACITY) r)"

definition blk_resp_get :: "u64 \<times> blk_mem \<Rightarrow> (aos_blk_resp \<times> u64 \<times> blk_mem) option" where
  "blk_resp_get qm = map_option
     (\<lambda>((st, n, i), m). (\<lparr>bs_status = st, bs_success_count = n, bs_id = i\<rparr>, fst qm, m))
     (blk_dequeue_resp (snd qm) (blk_handle (fst qm)))"

definition blk_resp_pending :: "u64 \<times> blk_mem \<Rightarrow> aos_blk_resp list" where
  "blk_resp_pending qm = resp_contents AOS_BLK_QUEUE_CAPACITY (bm_resps (snd qm) (fst qm))"

definition blk_resp_wf :: "u64 \<times> blk_mem \<Rightarrow> bool" where
  "blk_resp_wf qm \<longleftrightarrow> aos_blk_queue_resp_valid (snd qm) (fst qm) (of_nat AOS_BLK_QUEUE_CAPACITY)"

lemma blk_dequeue_resp_cons:
  assumes valid: "aos_blk_queue_resp_valid m q (of_nat AOS_BLK_QUEUE_CAPACITY)"
    and xs: "resp_contents AOS_BLK_QUEUE_CAPACITY (bm_resps m q) = x # xs"
  shows "\<exists>m'. blk_dequeue_resp m (blk_handle q) =
      Some ((bs_status x, bs_success_count x, bs_id x), m') \<and>
    aos_blk_queue_resp_valid m' q (of_nat AOS_BLK_QUEUE_CAPACITY) \<and>
    resp_contents AOS_BLK_QUEUE_CAPACITY (bm_resps m' q) = xs"
proof -
  let ?Q = "bm_resps m q"
  have dvd: "AOS_BLK_QUEUE_CAPACITY dvd 2 ^ LENGTH(32)"
    using blk_capacity_okD(3) [OF blk_capacity_ok_default] by simp
  have ne: "bsq_head ?Q \<noteq> bsq_tail ?Q"
    using xs by (auto simp: resp_contents_def)
  have hd: "bsq_buffers ?Q (unat (bsq_head ?Q) mod AOS_BLK_QUEUE_CAPACITY) = x"
    and tl: "ring_list (bsq_buffers ?Q) AOS_BLK_QUEUE_CAPACITY (bsq_head ?Q + 1) (bsq_tail ?Q) = xs"
    using xs ring_list_Cons [OF ne dvd, of "bsq_buffers ?Q"] by (simp_all add: resp_contents_def)
  have "Suc (length xs) = unat (resp_len ?Q)"
    using length_resp_contents [of AOS_BLK_QUEUE_CAPACITY ?Q] xs by simp
  moreover have "unat (resp_len ?Q) \<le> AOS_BLK_QUEUE_CAPACITY"
    using valid by (simp add: aos_blk_queue_resp_valid_def word_le_nat_alt)
  moreover have "length xs = unat (bsq_tail ?Q - (bsq_head ?Q + 1))"
    using tl by (metis length_ring_list)
  ultimately have "unat (bsq_tail ?Q - (bsq_head ?Q + 1)) \<le> AOS_BLK_QUEUE_CAPACITY" by linarith
  with hd tl ne valid show ?thesis
    by (auto simp: blk_dequeue_resp_def blk_queue_empty_resp_def resp_len_def resp_contents_def
        Let_def aos_blk_queue_resp_valid_def word_le_nat_alt)
qed

interpretation blk_resp: bounded_fifo blk_resp_put blk_resp_get blk_resp_pending blk_resp_wf
  AOS_BLK_QUEUE_CAPACITY
proof (unfold_locales, goal_cases)
  case (1 qm)
  then show ?case
    by (simp add: blk_resp_wf_def blk_resp_pending_def aos_blk_queue_resp_valid_def word_le_nat_alt)
next
  case (2 qm x)
  then show ?case
    using enqueue_resp_room [of "of_nat AOS_BLK_QUEUE_CAPACITY" "snd qm" "fst qm" x]
    by (auto simp: blk_resp_wf_def blk_resp_pending_def blk_resp_put_def)
next
  case (3 qm x)
  then show ?case
    using enqueue_resp_full [of "of_nat AOS_BLK_QUEUE_CAPACITY" "snd qm" "fst qm" x]
    by (simp add: blk_resp_pending_def blk_resp_put_def)
next
  case (4 qm)
  then show ?case
    by (simp add: blk_resp_pending_def blk_resp_get_def blk_dequeue_resp_def
        blk_queue_empty_resp_def resp_contents_def)
next
  case (5 qm x xs)
  then show ?case
    using blk_dequeue_resp_cons [of "snd qm" "fst qm" x xs]
    by (auto simp: blk_resp_wf_def blk_resp_pending_def blk_resp_get_def)
qed

section \<open>What a request may touch\<close>

definition data_window :: "aos_blk_virt_client \<Rightarrow> u64 set" where
  "data_window c = window (bc_data c) AOS_BLK_DATA_BYTES"

definition media_window :: "aos_blk_virt_client \<Rightarrow> u64 set" where
  "media_window c = window (bc_disk c) (unat (bc_media_blocks c) * AOS_BLK_TRANSFER_SIZE)"

text \<open>The request's byte extents, as natural numbers.\<close>

definition req_bytes :: "aos_blk_req \<Rightarrow> nat" where
  "req_bytes req = unat (br_count req) * AOS_BLK_TRANSFER_SIZE"

definition req_disk_offset :: "aos_blk_req \<Rightarrow> nat" where
  "req_disk_offset req = unat (br_block_number req) * AOS_BLK_TRANSFER_SIZE"

definition is_rw :: "aos_blk_req \<Rightarrow> bool" where
  "is_rw req \<longleftrightarrow> br_code req = AOS_BLK_REQ_READ \<or> br_code req = AOS_BLK_REQ_WRITE"

lemma unat_nbytes:
  "unat ((ucast (br_count req) :: u32) * of_nat AOS_BLK_TRANSFER_SIZE) = req_bytes req"
proof -
  have "unat (br_count req) < 2 ^ LENGTH(16)" by (rule unsigned_less)
  then show ?thesis
    by (simp add: req_bytes_def AOS_BLK_TRANSFER_SIZE_def unat_word_ariths unat_ucast_up)
qed

lemma request_extents:
  assumes "request_valid c req" and "is_rw req"
  shows "unat (br_io_or_offset req) + req_bytes req \<le> AOS_BLK_DATA_BYTES"
    and "req_disk_offset req + req_bytes req \<le>
      unat (bc_media_blocks c) * AOS_BLK_TRANSFER_SIZE"
proof -
  let ?n = "(ucast (br_count req) :: u32) * of_nat AOS_BLK_TRANSFER_SIZE"
  have bn: "br_block_number req \<le> ucast (bc_media_blocks c)"
    and cnt: "(ucast (br_count req) :: u64) \<le> ucast (bc_media_blocks c) - br_block_number req"
    and off: "br_io_or_offset req \<le> of_nat AOS_BLK_DATA_BYTES"
    and len: "(ucast ?n :: u64) \<le> of_nat AOS_BLK_DATA_BYTES - br_io_or_offset req"
    using assms by (auto simp: request_valid_def is_rw_def Let_def not_less split: if_splits)
  have "unat (br_count req) \<le> unat (bc_media_blocks c) - unat (br_block_number req)"
    using bn cnt by (simp add: word_le_nat_alt unat_sub_le unat_ucast_up)
  moreover have "unat (br_block_number req) \<le> unat (bc_media_blocks c)"
    using bn by (simp add: word_le_nat_alt unat_ucast_up)
  ultimately have "unat (br_block_number req) + unat (br_count req) \<le> unat (bc_media_blocks c)"
    by linarith
  then have "(unat (br_block_number req) + unat (br_count req)) * AOS_BLK_TRANSFER_SIZE \<le>
      unat (bc_media_blocks c) * AOS_BLK_TRANSFER_SIZE" by (rule mult_le_mono1)
  then show "req_disk_offset req + req_bytes req \<le> unat (bc_media_blocks c) * AOS_BLK_TRANSFER_SIZE"
    by (simp add: req_disk_offset_def req_bytes_def distrib_right)
  have data: "unat (of_nat AOS_BLK_DATA_BYTES :: u64) = AOS_BLK_DATA_BYTES"
    by (simp add: blk_layout_defs)
  have "req_bytes req \<le> AOS_BLK_DATA_BYTES - unat (br_io_or_offset req)"
    using len off data by (simp add: word_le_nat_alt unat_sub_le unat_ucast_up unat_nbytes)
  moreover have "unat (br_io_or_offset req) \<le> AOS_BLK_DATA_BYTES"
    using off data by (simp add: word_le_nat_alt)
  ultimately show "unat (br_io_or_offset req) + req_bytes req \<le> AOS_BLK_DATA_BYTES" by linarith
qed

text \<open>The addresses \<open>serve_rw\<close> forms are the extents' windows.\<close>

lemma data_address:
  assumes "request_valid c req" and "is_rw req"
  shows "bc_data c + ucast (ucast (br_io_or_offset req) :: u32) =
    bc_data c + br_io_or_offset req"
proof -
  have "unat (br_io_or_offset req) < 2 ^ LENGTH(32)"
    using request_extents(1) [OF assms] by (simp add: blk_layout_defs)
  then have "ucast (ucast (br_io_or_offset req) :: u32) = br_io_or_offset req"
    by (simp add: word_unat_eq_iff unat_ucast_up unat_ucast_small)
  then show ?thesis by simp
qed

lemma disk_address:
  "bc_disk c + br_block_number req * of_nat AOS_BLK_TRANSFER_SIZE =
    bc_disk c + of_nat (req_disk_offset req)"
  by (simp add: req_disk_offset_def)

lemma serve_rw_eq:
  assumes "request_valid c req" and "is_rw req"
  shows "serve_rw m c req writing =
    (if bc_disk c = 0 \<or> bc_disk_blocks c < bc_media_blocks c then (AOS_BLK_RESP_ERR_NO_DEVICE, m)
     else (AOS_BLK_RESP_OK, m\<lparr>bm_bytes :=
       (if writing
        then aos_copy (bm_bytes m) (bc_disk c + of_nat (req_disk_offset req))
               (bc_data c + br_io_or_offset req) (req_bytes req)
        else aos_copy (bm_bytes m) (bc_data c + br_io_or_offset req)
               (bc_disk c + of_nat (req_disk_offset req)) (req_bytes req))\<rparr>))"
  unfolding serve_rw_def Let_def data_address [OF assms] disk_address unat_nbytes by simp

lemma extent_windows:
  assumes "request_valid c req" and "is_rw req"
  shows "window (bc_data c + br_io_or_offset req) (req_bytes req) \<subseteq> data_window c"
    and "window (bc_disk c + of_nat (req_disk_offset req)) (req_bytes req) \<subseteq> media_window c"
  unfolding data_window_def media_window_def
  using window_sub [OF request_extents(1) [OF assms], of "bc_data c"]
    window_sub [OF request_extents(2) [OF assms], of "bc_disk c"] by simp_all

lemma serve_rw_frame:
  assumes "request_valid c req" and "is_rw req" and "serve_rw m c req writing = (st, m')"
  shows "m' = m\<lparr>bm_bytes := bm_bytes m'\<rparr>"
    and "x \<notin> (if writing then media_window c else data_window c) \<Longrightarrow> bm_bytes m' x = bm_bytes m x"
proof -
  show "m' = m\<lparr>bm_bytes := bm_bytes m'\<rparr>"
    using assms(3) unfolding serve_rw_eq [OF assms(1,2)] by (auto split: if_splits)
  show "bm_bytes m' x = bm_bytes m x" if "x \<notin> (if writing then media_window c else data_window c)"
    using assms(3) that extent_windows [OF assms(1,2)] aos_copy_frame
    unfolding serve_rw_eq [OF assms(1,2)] by (auto split: if_splits) blast+
qed

text \<open>
  With no backend configured a request changes bytes only: the medium for an accepted write, the
  client's data cells for a read, nothing otherwise.
\<close>

lemma serve_request_ram:
  assumes "bv_backend v = None" and "serve_request v m c req = (resp, m')"
  shows "m' = m\<lparr>bm_bytes := bm_bytes m'\<rparr>"
    and "x \<notin> data_window c \<Longrightarrow> x \<notin> media_window c \<Longrightarrow> bm_bytes m' x = bm_bytes m x"
    and "bi_read_only (bm_infos m (bc_info c)) \<Longrightarrow> x \<notin> data_window c \<Longrightarrow> bm_bytes m' x = bm_bytes m x"
proof -
  have rw: "request_valid c req \<Longrightarrow> br_code req = AOS_BLK_REQ_READ \<Longrightarrow> is_rw req"
    "request_valid c req \<Longrightarrow> br_code req = AOS_BLK_REQ_WRITE \<Longrightarrow> is_rw req"
    by (simp_all add: is_rw_def)
  show "m' = m\<lparr>bm_bytes := bm_bytes m'\<rparr>"
    using assms serve_rw_frame(1) rw
    by (auto simp: serve_request_def split: if_splits prod.splits)
  show "bm_bytes m' x = bm_bytes m x" if "x \<notin> data_window c" "x \<notin> media_window c"
    using assms serve_rw_frame(2) [of c req] rw that
    by (fastforce simp: serve_request_def split: if_splits prod.splits)
  show "bm_bytes m' x = bm_bytes m x"
    if "bi_read_only (bm_infos m (bc_info c))" "x \<notin> data_window c"
    using assms serve_rw_frame(2) [of c req] rw that
    by (fastforce simp: serve_request_def split: if_splits prod.splits)
qed

lemma serve_request_id [simp]: "bs_id (fst (serve_request v m c req)) = br_id req"
  by (auto simp: serve_request_def split: option.splits prod.splits)

section \<open>Serving a client in order\<close>

text \<open>The reference: the pending requests served one after the other, responses collected.\<close>

fun serve_list :: "aos_blk_virt \<Rightarrow> aos_blk_virt_client \<Rightarrow> blk_mem \<Rightarrow> aos_blk_req list \<Rightarrow>
    aos_blk_resp list \<times> blk_mem" where
  "serve_list v c m [] = ([], m)"
| "serve_list v c m (r # rs) =
     (case serve_request v m c r of (resp, m1) \<Rightarrow>
        (case serve_list v c m1 rs of (resps, m2) \<Rightarrow> (resp # resps, m2)))"

lemma length_serve_list [simp]: "length (fst (serve_list v c m rs)) = length rs"
  by (induction v c m rs rule: serve_list.induct) (auto split: prod.splits)

lemma serve_list_ids: "map bs_id (fst (serve_list v c m rs)) = map br_id rs"
proof (induction rs arbitrary: m)
  case (Cons r rs)
  obtain resp m1 resps m2 where eqs: "serve_request v m c r = (resp, m1)" "serve_list v c m1 rs = (resps, m2)"
    by fastforce
  then show ?case using serve_request_id [of v m c r] Cons [of m1] by simp
qed simp

text \<open>With no backend the rings are invisible to a request.\<close>

abbreviation with_rings :: "(u64 \<Rightarrow> aos_blk_req_queue) \<Rightarrow> (u64 \<Rightarrow> aos_blk_resp_queue) \<Rightarrow> blk_mem \<Rightarrow> blk_mem" where
  "with_rings R S m \<equiv> m\<lparr>bm_reqs := R, bm_resps := S\<rparr>"

lemma serve_request_rings:
  "bv_backend v = None \<Longrightarrow> serve_request v (with_rings R S m) c req =
    map_prod id (with_rings R S) (serve_request v m c req)"
  by (auto simp: serve_request_def serve_rw_def Let_def)

lemma serve_list_rings:
  "bv_backend v = None \<Longrightarrow> serve_list v c (with_rings R S m) rs =
    map_prod id (with_rings R S) (serve_list v c m rs)"
proof (induction rs arbitrary: m)
  case (Cons r rs)
  then show ?case
    by (auto simp: serve_request_rings split: prod.splits)
qed simp

lemma dequeue_req_shape:
  "dequeue_req m q cap = Some (x, m') \<Longrightarrow> m' = m\<lparr>bm_reqs := (bm_reqs m)(q := bm_reqs m' q)\<rparr>"
  by (auto simp: dequeue_req_def Let_def split: if_splits)

lemma enqueue_resp_shape:
  "enqueue_resp m q cap x = Some m' \<Longrightarrow> m' = m\<lparr>bm_resps := (bm_resps m)(q := bm_resps m' q)\<rparr>"
  by (auto simp: enqueue_resp_def Let_def split: if_splits)

definition blk_rings_valid :: "blk_mem \<Rightarrow> aos_blk_virt_client \<Rightarrow> bool" where
  "blk_rings_valid m c \<longleftrightarrow>
     aos_blk_queue_req_valid m (bc_req c) (bc_capacity c) \<and>
     aos_blk_queue_resp_valid m (bc_resp c) (bc_capacity c)"

definition pending_reqs :: "blk_mem \<Rightarrow> aos_blk_virt_client \<Rightarrow> aos_blk_req list" where
  "pending_reqs m c = req_contents (unat (bc_capacity c)) (bm_reqs m (bc_req c))"

definition pending_resps :: "blk_mem \<Rightarrow> aos_blk_virt_client \<Rightarrow> aos_blk_resp list" where
  "pending_resps m c = resp_contents (unat (bc_capacity c)) (bm_resps m (bc_resp c))"

lemma client_loop_step:
  assumes v: "bv_backend v = None" and cap: "blk_capacity_ok (bc_capacity c)"
    and valid: "blk_rings_valid m c" and reqs: "pending_reqs m c = r # rs"
    and room: "length (pending_resps m c) < unat (bc_capacity c)"
    and serve: "serve_request v m c r = (resp, ms)"
  shows "\<exists>R S. client_loop v c (Suc budget) completed m =
      client_loop v c budget (completed + 1) (with_rings R S ms) \<and>
    blk_rings_valid (with_rings R S ms) c \<and> pending_reqs (with_rings R S ms) c = rs \<and>
    pending_resps (with_rings R S ms) c = pending_resps m c @ [resp]"
proof -
  let ?cap = "bc_capacity c"
  obtain m1 where deq: "dequeue_req m (bc_req c) ?cap = Some (r, m1)"
    and valid1: "aos_blk_queue_req_valid m1 (bc_req c) ?cap"
    and rs: "req_contents (unat ?cap) (bm_reqs m1 (bc_req c)) = rs" and s1: "bm_resps m1 = bm_resps m"
    using dequeue_req_cons [OF cap, of m "bc_req c" r rs] valid reqs
    by (auto simp: blk_rings_valid_def pending_reqs_def)
  have "m1 = with_rings (bm_reqs m1) (bm_resps m) m"
    using dequeue_req_shape [OF deq] by (metis blk_mem.select_convs blk_mem.surjective blk_mem.update_convs)
  then have m2: "serve_request v m1 c r = (resp, with_rings (bm_reqs m1) (bm_resps m) ms)"
    using serve_request_rings [OF v] serve by (metis id_apply map_prod_simp)
  let ?m2 = "with_rings (bm_reqs m1) (bm_resps m) ms"
  obtain m3 where enq: "enqueue_resp ?m2 (bc_resp c) ?cap resp = Some m3"
    and valid3: "aos_blk_queue_resp_valid m3 (bc_resp c) ?cap"
    and resps: "resp_contents (unat ?cap) (bm_resps m3 (bc_resp c)) = pending_resps m c @ [resp]"
    using enqueue_resp_room [OF cap, of ?m2 "bc_resp c" resp] valid room
    by (auto simp: blk_rings_valid_def pending_resps_def aos_blk_queue_resp_valid_def)
  have m3: "m3 = with_rings (bm_reqs m1) (bm_resps m3) ms"
    using enqueue_resp_shape [OF enq] by (cases ms; cases m3) simp
  have ne: "\<not> req_empty (bm_reqs m (bc_req c))" "\<not> resp_full (bm_resps m (bc_resp c)) ?cap"
    using deq room by (auto simp: dequeue_req_def resp_full_def pending_resps_def word_le_nat_alt split: if_splits)
  then have "client_loop v c (Suc budget) completed m = client_loop v c budget (completed + 1) m3"
    using deq m2 enq by simp
  moreover have "bm_reqs m3 = bm_reqs m1" by (subst m3) simp
  ultimately show ?thesis
    using valid1 valid3 rs resps
    by (intro exI [of _ "bm_reqs m1"] exI [of _ "bm_resps m3"], unfold m3 [symmetric])
      (auto simp: blk_rings_valid_def pending_reqs_def pending_resps_def
        aos_blk_queue_req_valid_def aos_blk_queue_resp_valid_def)
qed

text \<open>
  The loop serves the longest prefix of the pending requests for which budget and response room
  last, and answers it exactly as the reference does.
\<close>

lemma client_loop_serves:
  assumes "bv_backend v = None" and "blk_capacity_ok (bc_capacity c)" and "blk_rings_valid m c"
    and "k = min budget (min (length (pending_reqs m c))
           (unat (bc_capacity c) - length (pending_resps m c)))"
    and "serve_list v c m (take k (pending_reqs m c)) = (rs, ms)"
  shows "\<exists>R S. client_loop v c budget completed m = (completed + of_nat k, with_rings R S ms) \<and>
    blk_rings_valid (with_rings R S ms) c \<and>
    pending_reqs (with_rings R S ms) c = drop k (pending_reqs m c) \<and>
    pending_resps (with_rings R S ms) c = pending_resps m c @ rs"
  using assms
proof (induction budget arbitrary: completed m k rs ms)
  case 0
  then show ?case
    by (intro exI [of _ "bm_reqs m"] exI [of _ "bm_resps m"]) auto
next
  case (Suc budget)
  show ?case
  proof (cases "k = 0")
    case True
    then have "req_empty (bm_reqs m (bc_req c)) \<or> resp_full (bm_resps m (bc_resp c)) (bc_capacity c)"
      using Suc.prems(4) by (auto simp: pending_reqs_def pending_resps_def req_empty_def
          resp_full_def word_le_nat_alt min_def split: if_splits)
    then show ?thesis
      using True Suc.prems
      by (intro exI [of _ "bm_reqs m"] exI [of _ "bm_resps m"]) auto
  next
    case False
    then obtain r reqs where reqs: "pending_reqs m c = r # reqs"
      using Suc.prems(4) by (cases "pending_reqs m c") auto
    obtain j where k: "k = Suc j" using False by (cases k) auto
    with reqs have room: "length (pending_resps m c) < unat (bc_capacity c)" using Suc.prems(4) by simp
    obtain resp m1 where serve: "serve_request v m c r = (resp, m1)" by fastforce
    obtain R S where step: "client_loop v c (Suc budget) completed m =
          client_loop v c budget (completed + 1) (with_rings R S m1)"
      and valid: "blk_rings_valid (with_rings R S m1) c"
      and reqs1: "pending_reqs (with_rings R S m1) c = reqs"
      and resps1: "pending_resps (with_rings R S m1) c = pending_resps m c @ [resp]"
      using client_loop_step [OF Suc.prems(1-3) reqs room serve, of budget completed] by blast
    obtain rs1 where rs: "rs = resp # rs1" "serve_list v c m1 (take j reqs) = (rs1, ms)"
      using Suc.prems(5) reqs k serve by (auto split: prod.splits)
    have j: "j = min budget (min (length reqs) (unat (bc_capacity c) - length (pending_resps m c @ [resp])))"
      using Suc.prems(4) reqs k by (auto simp: min_def split: if_splits)
    have "serve_list v c (with_rings R S m1) (take j reqs) = (rs1, with_rings R S ms)"
      using serve_list_rings [OF Suc.prems(1)] rs(2) by simp
    from Suc.IH [OF Suc.prems(1,2) valid _ this [folded reqs1], unfolded reqs1 resps1, OF j, of "completed + 1"]
    show ?thesis using step reqs k rs(1) by (auto simp: add.assoc)
  qed
qed

section \<open>Isolation\<close>

lemma client_loop_ram_frame:
  assumes "bv_backend v = None" and "client_loop v c budget completed m = (n, m')"
  shows "bm_infos m' = bm_infos m"
    and "x \<notin> data_window c \<Longrightarrow> x \<notin> media_window c \<Longrightarrow> bm_bytes m' x = bm_bytes m x"
    and "bi_read_only (bm_infos m (bc_info c)) \<Longrightarrow> x \<notin> data_window c \<Longrightarrow> bm_bytes m' x = bm_bytes m x"
proof -
  have "bm_infos m' = bm_infos m \<and>
      (x \<notin> data_window c \<longrightarrow> x \<notin> media_window c \<longrightarrow> bm_bytes m' x = bm_bytes m x) \<and>
      (bi_read_only (bm_infos m (bc_info c)) \<longrightarrow> x \<notin> data_window c \<longrightarrow> bm_bytes m' x = bm_bytes m x)"
    using assms(2)
  proof (induction budget arbitrary: completed m)
    case (Suc budget)
    have *: "bm_infos m2 = bm_infos m \<and>
        (x \<notin> data_window c \<longrightarrow> x \<notin> media_window c \<longrightarrow> bm_bytes m2 x = bm_bytes m x) \<and>
        (bi_read_only (bm_infos m (bc_info c)) \<longrightarrow> x \<notin> data_window c \<longrightarrow> bm_bytes m2 x = bm_bytes m x)"
      if deq: "dequeue_req m (bc_req c) (bc_capacity c) = Some (req, m1)"
        and serve: "serve_request v m1 c req = (resp, m2)" for req m1 resp m2
    proof -
      have "bm_infos m1 = bm_infos m \<and> bm_bytes m1 = bm_bytes m"
        using deq by (auto simp: dequeue_req_def Let_def split: if_splits)
      moreover have "bm_infos m2 = bm_infos m1"
        by (subst serve_request_ram(1) [OF assms(1) serve]) simp
      ultimately show ?thesis
        using serve_request_ram(2,3) [OF assms(1) serve] by auto
    qed
    have enq: "bm_infos m3 = bm_infos m2 \<and> bm_bytes m3 = bm_bytes m2"
      if "enqueue_resp m2 (bc_resp c) (bc_capacity c) resp = Some m3" for m2 resp m3
      using that by (auto simp: enqueue_resp_def Let_def split: if_splits)
    show ?case
      using Suc.prems
      by (auto split: if_splits option.splits prod.splits dest!: * enq Suc.IH)
  qed simp
  then show "bm_infos m' = bm_infos m"
    "x \<notin> data_window c \<Longrightarrow> x \<notin> media_window c \<Longrightarrow> bm_bytes m' x = bm_bytes m x"
    "bi_read_only (bm_infos m (bc_info c)) \<Longrightarrow> x \<notin> data_window c \<Longrightarrow> bm_bytes m' x = bm_bytes m x"
    by auto
qed

lemma pump_client_ram_frame:
  assumes "bv_backend v = None" and "pump_client v c completed m = (n, m')"
  shows "bm_infos m' = bm_infos m"
    and "x \<notin> data_window c \<Longrightarrow> x \<notin> media_window c \<Longrightarrow> bm_bytes m' x = bm_bytes m x"
    and "bi_read_only (bm_infos m (bc_info c)) \<Longrightarrow> x \<notin> data_window c \<Longrightarrow> bm_bytes m' x = bm_bytes m x"
  using assms(2) client_loop_ram_frame [OF assms(1)]
  by (auto simp: pump_client_def reset_req_queue_def reset_resp_queue_def Let_def split: if_splits)

text \<open>The bytes a pump may write for a client: its data cells, and its medium unless read-only.\<close>

definition writable_bytes :: "blk_mem \<Rightarrow> aos_blk_virt_client \<Rightarrow> u64 set" where
  "writable_bytes m c =
     data_window c \<union> (if bi_read_only (bm_infos m (bc_info c)) then {} else media_window c)"

lemma clients_loop_ram_frame:
  assumes "bv_backend v = None" and "clients_loop v cs completed m = (n, m')"
    and "\<And>c. c \<in> set cs \<Longrightarrow> x \<notin> writable_bytes m c"
  shows "bm_bytes m' x = bm_bytes m x"
  using assms(2,3)
proof (induction cs arbitrary: completed m)
  case (Cons c cs)
  obtain n1 m1 where p: "pump_client v c completed m = (n1, m1)" by fastforce
  note fr = pump_client_ram_frame [OF assms(1) p]
  have "bm_bytes m1 x = bm_bytes m x"
    using Cons.prems(2) [of c] fr(2,3) [of x] by (auto simp: writable_bytes_def split: if_splits)
  moreover have "bm_bytes m' x = bm_bytes m1 x"
    using Cons.prems p fr(1) by (intro Cons.IH [of n1]) (auto simp: writable_bytes_def)
  ultimately show ?case by simp
qed simp

section \<open>Properties\<close>

lemma serve_request_read:
  assumes "bv_backend v = None" and "request_valid c req" and "br_code req = AOS_BLK_REQ_READ"
    and "bc_disk c \<noteq> 0" and "bc_media_blocks c \<le> bc_disk_blocks c"
  shows "serve_request v m c req =
    (\<lparr>bs_status = AOS_BLK_RESP_OK, bs_success_count = br_count req, bs_id = br_id req\<rparr>,
     m\<lparr>bm_bytes := aos_copy (bm_bytes m) (bc_data c + br_io_or_offset req)
        (bc_disk c + of_nat (req_disk_offset req)) (req_bytes req)\<rparr>)"
proof -
  have "is_rw req" using assms(3) by (simp add: is_rw_def)
  then show ?thesis
    using assms by (simp add: serve_request_def serve_rw_eq success_count_of_def not_less
        AOS_BLK_REQ_READ_def AOS_BLK_REQ_WRITE_def)
qed

lemma serve_request_write:
  assumes "bv_backend v = None" and "request_valid c req" and "br_code req = AOS_BLK_REQ_WRITE"
    and "\<not> bi_read_only (bm_infos m (bc_info c))"
    and "bc_disk c \<noteq> 0" and "bc_media_blocks c \<le> bc_disk_blocks c"
  shows "serve_request v m c req =
    (\<lparr>bs_status = AOS_BLK_RESP_OK, bs_success_count = br_count req, bs_id = br_id req\<rparr>,
     m\<lparr>bm_bytes := aos_copy (bm_bytes m) (bc_disk c + of_nat (req_disk_offset req))
        (bc_data c + br_io_or_offset req) (req_bytes req)\<rparr>)"
proof -
  have "is_rw req" using assms(3) by (simp add: is_rw_def)
  then show ?thesis
    using assms by (simp add: serve_request_def serve_rw_eq success_count_of_def not_less
        AOS_BLK_REQ_READ_def AOS_BLK_REQ_WRITE_def)
qed

text \<open>
  C5. Serving in order: for a client with sound rings and no external backend, one pump pass serves
  exactly the longest prefix of the pending requests that has room for its responses.  It answers
  them in order as serving them one by one would, with the medium and the data cells ending as that
  reference leaves them, each response carrying its request's identifier, and the rest of the
  requests stay queued.
\<close>

theorem blk_pump_serves_in_order:
  assumes "bv_backend v = None" and "blk_capacity_ok (bc_capacity c)" and "blk_rings_valid m c"
    and "bc_info c \<noteq> 0" and "bc_data c \<noteq> 0"
    and "k = min (length (pending_reqs m c)) (unat (bc_capacity c) - length (pending_resps m c))"
    and "serve_list v c m (take k (pending_reqs m c)) = (rs, ms)"
    and "pump_client v c completed m = (n, m')"
  shows "n = completed + of_nat k \<and>
    pending_reqs m' c = drop k (pending_reqs m c) \<and>
    pending_resps m' c = pending_resps m c @ rs \<and>
    map bs_id rs = map br_id (take k (pending_reqs m c)) \<and>
    bm_bytes m' = bm_bytes ms \<and> blk_rings_valid m' c"
proof -
  have "length (pending_reqs m c) \<le> unat (bc_capacity c)"
    using assms(3) by (simp add: blk_rings_valid_def aos_blk_queue_req_valid_def pending_reqs_def word_le_nat_alt)
  then have "k = min (unat (bc_capacity c)) (min (length (pending_reqs m c))
      (unat (bc_capacity c) - length (pending_resps m c)))"
    using assms(6) by simp
  from client_loop_serves [OF assms(1-3) this assms(7), of completed]
  obtain R S where loop: "client_loop v c (unat (bc_capacity c)) completed m =
      (completed + of_nat k, with_rings R S ms)"
    and post: "blk_rings_valid (with_rings R S ms) c"
      "pending_reqs (with_rings R S ms) c = drop k (pending_reqs m c)"
      "pending_resps (with_rings R S ms) c = pending_resps m c @ rs" by blast
  have "pump_client v c completed m = client_loop v c (unat (bc_capacity c)) completed m"
    using assms(3-5) by (auto simp: pump_client_def blk_rings_valid_def aos_blk_queue_req_valid_def
        aos_blk_queue_resp_valid_def)
  then show ?thesis
    using loop post assms(8) serve_list_ids [of v c m "take k (pending_reqs m c)"] assms(7) by auto
qed

text \<open>
  C6. Isolation of the block pump: with the RAM-disk backend, whatever requests, offsets, block
  numbers and ring indices the clients have written, one pump changes no byte outside the data
  cells of the bound clients and the media of those bound clients that are not read-only.
\<close>

theorem blk_pump_isolated:
  assumes "bv_backend v = None" and "aos_blk_virt_pump (Some v) m = (n, m')"
    and "\<And>c. c \<in> set (take (unat (bv_num_clients v)) (bv_clients v)) \<Longrightarrow> x \<notin> writable_bytes m c"
  shows "bm_bytes m' x = bm_bytes m x"
  using assms clients_loop_ram_frame [OF assms(1)]
  by (auto simp: aos_blk_virt_pump_def split: if_splits)

text \<open>
  C7. Write/read round trip: when a client writes some blocks and then reads the same blocks into
  any place of its data area, both requests succeed with the full block count and the bytes read
  are the bytes written.
\<close>

theorem blk_write_read_roundtrip:
  assumes "bv_backend v = None" and "request_valid c w" and "request_valid c r"
    and "br_code w = AOS_BLK_REQ_WRITE" and "br_code r = AOS_BLK_REQ_READ"
    and "br_block_number r = br_block_number w" and "br_count r = br_count w"
    and "\<not> bi_read_only (bm_infos m (bc_info c))"
    and "bc_disk c \<noteq> 0" and "bc_media_blocks c \<le> bc_disk_blocks c"
    and "data_window c \<inter> media_window c = {}"
    and "serve_list v c m [w, r] = (rs, m')"
  shows "map bs_status rs = [AOS_BLK_RESP_OK, AOS_BLK_RESP_OK] \<and>
    map bs_success_count rs = [br_count w, br_count w] \<and>
    (\<forall>i < unat (br_count w) * AOS_BLK_TRANSFER_SIZE.
       bm_bytes m' (bc_data c + br_io_or_offset r + of_nat i) =
       bm_bytes m (bc_data c + br_io_or_offset w + of_nat i))"
proof -
  let ?n = "req_bytes w"
  let ?dw = "bc_data c + br_io_or_offset w" and ?dr = "bc_data c + br_io_or_offset r"
  let ?k = "bc_disk c + of_nat (req_disk_offset w)"
  have rw: "is_rw w" "is_rw r" using assms(4,5) by (simp_all add: is_rw_def)
  have same: "req_bytes r = ?n" "req_disk_offset r = req_disk_offset w"
    using assms(6,7) by (simp_all add: req_bytes_def req_disk_offset_def)
  have n: "?n \<le> 2 ^ 64"
    using request_extents(1) [OF assms(2) rw(1)] by (simp add: blk_layout_defs)
  have sub: "window ?dw ?n \<subseteq> data_window c" "window ?dr ?n \<subseteq> data_window c"
      "window ?k ?n \<subseteq> media_window c"
    using extent_windows [OF assms(2) rw(1)] extent_windows(1) [OF assms(3) rw(2)] same by simp_all
  then have disj: "window ?k ?n \<inter> window ?dw ?n = {}" "window ?dr ?n \<inter> window ?k ?n = {}"
    using assms(11) by blast+
  note served = assms(12) [simplified serve_list.simps
      serve_request_write [OF assms(1,2,4,8-10)] serve_request_read [OF assms(1,3,5,9,10)] same, simplified]
  have "bm_bytes m' (?dr + of_nat i) = bm_bytes m (?dw + of_nat i)" if "i < ?n" for i
    using served aos_copy_copies [OF that n disj(1), of "bm_bytes m"]
      aos_copy_copies [OF that n disj(2), of "aos_copy (bm_bytes m) ?k ?dw ?n"] by auto
  then show ?thesis
    using served assms(7) by (auto simp: req_bytes_def)
qed

text \<open>
  C8. The bounds check is exact: a read or write request is accepted precisely when, as unbounded
  numbers, it has blocks, they lie within the medium, and its bytes lie within the client's data
  area; a flush or barrier precisely when its other fields are zero; nothing else is accepted.
  No 16-, 32- or 64-bit wrap-around in the check's arithmetic changes the verdict.
\<close>

theorem blk_request_valid_exact:
  "request_valid c req \<longleftrightarrow>
     (if is_rw req then
        0 < unat (br_count req) \<and>
        unat (br_block_number req) + unat (br_count req) \<le> unat (bc_media_blocks c) \<and>
        unat (br_io_or_offset req) + unat (br_count req) * AOS_BLK_TRANSFER_SIZE \<le> AOS_BLK_DATA_BYTES
      else (br_code req = AOS_BLK_REQ_FLUSH \<or> br_code req = AOS_BLK_REQ_BARRIER) \<and>
        br_io_or_offset req = 0 \<and> br_block_number req = 0 \<and> br_count req = 0)"
proof (cases "is_rw req")
  case True
  have data: "unat (of_nat AOS_BLK_DATA_BYTES :: u64) = AOS_BLK_DATA_BYTES"
    by (simp add: blk_layout_defs)
  have mid: "br_block_number req \<le> ucast (bc_media_blocks c) \<and>
      (ucast (br_count req) :: u64) \<le> ucast (bc_media_blocks c) - br_block_number req \<longleftrightarrow>
      unat (br_block_number req) + unat (br_count req) \<le> unat (bc_media_blocks c)"
    by (auto simp: word_le_nat_alt unat_ucast_up unat_sub_le)
  have last: "br_io_or_offset req \<le> of_nat AOS_BLK_DATA_BYTES \<and>
      (ucast ((ucast (br_count req) :: u32) * of_nat AOS_BLK_TRANSFER_SIZE) :: u64) \<le>
        of_nat AOS_BLK_DATA_BYTES - br_io_or_offset req \<longleftrightarrow>
      unat (br_io_or_offset req) + req_bytes req \<le> AOS_BLK_DATA_BYTES"
    using data by (auto simp: word_le_nat_alt unat_ucast_up unat_sub_le unat_nbytes)
  have "request_valid c req \<longleftrightarrow> br_count req \<noteq> 0 \<and> bc_media_blocks c \<noteq> 0 \<and>
      unat (br_block_number req) + unat (br_count req) \<le> unat (bc_media_blocks c) \<and>
      unat (br_io_or_offset req) + req_bytes req \<le> AOS_BLK_DATA_BYTES"
    unfolding mid [symmetric] last [symmetric]
    using True by (auto simp: request_valid_def is_rw_def Let_def not_less)
  moreover have "bc_media_blocks c \<noteq> 0" if "br_count req \<noteq> 0"
      "unat (br_block_number req) + unat (br_count req) \<le> unat (bc_media_blocks c)"
  proof
    assume "bc_media_blocks c = 0"
    then have "unat (br_count req) = 0" using that(2) by simp
    then show False using that(1) by simp
  qed
  ultimately show ?thesis
    using True by (auto simp: req_bytes_def)
next
  case False
  then show ?thesis by (auto simp: request_valid_def is_rw_def)
qed


text \<open>
  C10. Detaching a virtualizer never loses work: it succeeds exactly when every bound client's
  rings are sound and hold neither a pending request nor an undelivered response, and then leaves
  no client bound; otherwise the virtualizer is left as it was.
\<close>

theorem blk_detach_only_drained:
  assumes "unat (bv_num_clients v) \<le> AOS_BLK_MAX_CLIENTS"
  shows "aos_blk_virt_detach (Some v) m =
    (if \<forall>c \<in> set (take (unat (bv_num_clients v)) (bv_clients v)).
          blk_rings_valid m c \<and> pending_reqs m c = [] \<and> pending_resps m c = []
     then (True, Some zero_blk_virt) else (False, Some v))"
proof -
  have "client_drained m c \<longleftrightarrow>
      blk_rings_valid m c \<and> pending_reqs m c = [] \<and> pending_resps m c = []" for c
    by (auto simp: client_drained_def blk_rings_valid_def pending_reqs_def pending_resps_def
        simp flip: length_0_conv)
  then show ?thesis
    using assms by (simp add: aos_blk_virt_detach_def aos_blk_virt_reset_def list_all_iff)
qed

section \<open>Witnesses\<close>

text \<open>
  One RAM-disk client of sixteen blocks at the addresses the region layout gives it, with a write
  and a read of block 3 pending and the request indices about to wrap.
\<close>

definition ex_blk_client :: aos_blk_virt_client where
  "ex_blk_client = the (aos_blk_client_set_ram_disk
     (Some (aos_blk_client_bind 0x10000000 0 zero_blk_client)) 0x40000000 16)"

definition ex_write :: aos_blk_req where
  "ex_write = \<lparr>br_code = 1, br_io_or_offset = 0, br_block_number = 3, br_count = 1, br_id = 7\<rparr>"

definition ex_read :: aos_blk_req where
  "ex_read = \<lparr>br_code = 0, br_io_or_offset = 4096, br_block_number = 3, br_count = 1, br_id = 8\<rparr>"

definition ex_blk_mem :: blk_mem where
  "ex_blk_mem = \<lparr>bm_infos = (\<lambda>_. aos_blk_storage_init 16), bm_signals = (\<lambda>_. \<lparr>bg_req_consumer_signalled = 0, bg_reserved = 0\<rparr>),
     bm_reqs = (\<lambda>_. \<lparr>brq_head = 0xFFFFFFFF, brq_tail = 1, brq_plugged = False,
       brq_buffers = (\<lambda>_. zero_blk_req)(127 := ex_write, 0 := ex_read)\<rparr>),
     bm_resps = (\<lambda>_. \<lparr>bsq_head = 0, bsq_tail = 0, bsq_buffers = (\<lambda>_. zero_blk_resp)\<rparr>),
     bm_bytes = ucast\<rparr>"

definition ex_blk_virt :: aos_blk_virt where
  "ex_blk_virt = \<lparr>bv_clients = [ex_blk_client, zero_blk_client], bv_num_clients = 1, bv_backend = None\<rparr>"

lemma ex_blk_client_eval: "ex_blk_client =
  \<lparr>bc_info = 0x10200000, bc_signal = 0x10200800, bc_req = 0x10201000, bc_resp = 0x10203000,
   bc_data = 0x10205000, bc_capacity = 128, bc_disk = 0x40000000, bc_disk_blocks = 16,
   bc_media_blocks = 16\<rparr>"
  by (simp add: ex_blk_client_def aos_blk_client_set_ram_disk_def aos_blk_client_bind_def
      zero_blk_client_def blk_layout_defs)

lemmas ex_blk_eval = ex_blk_client_eval ex_write_def ex_read_def ex_blk_mem_def ex_blk_virt_def
  blk_req_codes blk_layout_defs

lemma ex_blk_sound:
  "bv_backend ex_blk_virt = None" "blk_capacity_ok (bc_capacity ex_blk_client)"
  "blk_rings_valid ex_blk_mem ex_blk_client" "bc_info ex_blk_client \<noteq> 0" "bc_data ex_blk_client \<noteq> 0"
  by (simp_all add: blk_rings_valid_def blk_capacity_ok_def aos_blk_queue_req_valid_def
      aos_blk_queue_resp_valid_def req_len_def resp_len_def ex_blk_eval)

lemma ex_blk_pending:
  "pending_reqs ex_blk_mem ex_blk_client = [ex_write, ex_read]"
  "pending_resps ex_blk_mem ex_blk_client = []"
  by (simp_all add: pending_reqs_def pending_resps_def req_contents_def resp_contents_def
      ring_list_def upt_rec ex_blk_eval)

theorem blk_pump_serves_in_order_witness:
  "\<exists>rs ms m'. serve_list ex_blk_virt ex_blk_client ex_blk_mem [ex_write, ex_read] = (rs, ms) \<and>
     pump_client ex_blk_virt ex_blk_client 0 ex_blk_mem = (2, m') \<and>
     pending_reqs m' ex_blk_client = [] \<and> pending_resps m' ex_blk_client = rs \<and>
     map bs_id rs = [7, 8] \<and> bm_bytes m' = bm_bytes ms"
proof -
  obtain rs ms where serve: "serve_list ex_blk_virt ex_blk_client ex_blk_mem [ex_write, ex_read] = (rs, ms)"
    by fastforce
  obtain n m' where pump: "pump_client ex_blk_virt ex_blk_client 0 ex_blk_mem = (n, m')"
    by fastforce
  have "2 = min (length (pending_reqs ex_blk_mem ex_blk_client))
      (unat (bc_capacity ex_blk_client) - length (pending_resps ex_blk_mem ex_blk_client))"
    unfolding ex_blk_pending by (simp add: ex_blk_client_eval)
  from blk_pump_serves_in_order [OF ex_blk_sound this _ pump, of rs ms] serve pump
  show ?thesis by (simp add: ex_blk_pending) (simp add: ex_write_def ex_read_def)
qed

lemma ex_blk_windows:
  "data_window ex_blk_client \<inter> media_window ex_blk_client = {}"
  unfolding data_window_def media_window_def by (rule window_disjoint) (simp_all add: ex_blk_eval)

theorem blk_pump_isolated_witness:
  "bm_bytes (snd (aos_blk_virt_pump (Some ex_blk_virt) ex_blk_mem)) 0x10201000 = bm_bytes ex_blk_mem 0x10201000"
proof (rule blk_pump_isolated [OF ex_blk_sound(1) prod.collapse [symmetric]])
  fix c assume "c \<in> set (take (unat (bv_num_clients ex_blk_virt)) (bv_clients ex_blk_virt))"
  then have "c = ex_blk_client" by (simp add: ex_blk_virt_def)
  then show "0x10201000 \<notin> writable_bytes ex_blk_mem c"
    using window_unat [of "bc_data ex_blk_client" AOS_BLK_DATA_BYTES "0x10201000"]
      window_unat [of "bc_disk ex_blk_client" 65536 "0x10201000"]
    by (auto simp: writable_bytes_def data_window_def media_window_def ex_blk_eval)
qed

theorem blk_write_read_roundtrip_witness:
  "\<exists>rs m'. serve_list ex_blk_virt ex_blk_client ex_blk_mem [ex_write, ex_read] = (rs, m') \<and>
     map bs_status rs = [AOS_BLK_RESP_OK, AOS_BLK_RESP_OK] \<and>
     bm_bytes m' (0x10205000 + 4096 + 5) = bm_bytes ex_blk_mem (0x10205000 + 5)"
proof -
  obtain rs m' where serve: "serve_list ex_blk_virt ex_blk_client ex_blk_mem [ex_write, ex_read] = (rs, m')"
    by fastforce
  have valid: "request_valid ex_blk_client ex_write" "request_valid ex_blk_client ex_read"
    by (simp_all add: request_valid_def ex_blk_eval)
  have "map bs_status rs = [AOS_BLK_RESP_OK, AOS_BLK_RESP_OK] \<and>
    map bs_success_count rs = [br_count ex_write, br_count ex_write] \<and>
    (\<forall>i < unat (br_count ex_write) * AOS_BLK_TRANSFER_SIZE.
       bm_bytes m' (bc_data ex_blk_client + br_io_or_offset ex_read + of_nat i) =
       bm_bytes ex_blk_mem (bc_data ex_blk_client + br_io_or_offset ex_write + of_nat i))"
    by (rule blk_write_read_roundtrip [OF ex_blk_sound(1) valid _ _ _ _ _ _ _ ex_blk_windows serve])
      (simp_all add: ex_blk_eval aos_blk_storage_init_def)
  with serve show ?thesis
    by (auto simp: ex_blk_eval dest!: spec [of _ 5])
qed


theorem blk_detach_only_drained_witness:
  "aos_blk_virt_detach (Some ex_blk_virt) ex_blk_mem = (False, Some ex_blk_virt)"
  using blk_detach_only_drained [of ex_blk_virt ex_blk_mem] ex_blk_pending
  by (simp add: ex_blk_virt_def AOS_BLK_MAX_CLIENTS_def)

end
