(* ===== verification/Sel4Kernel.thy ===== *)
theory Sel4Kernel
  imports AosPrelude
begin

text \<open>
  The kernel interface of the agentOS components that invoke seL4.  The kernel itself is not part of
  the sources: it is a parameter, an oracle that answers each invocation from the history of events
  before it.  A component threads the history, so its theorems speak about every kernel and every
  pattern of failures, and about the exact order in which the component calls it.  The constant
  \<open>seL4_MinSchedContextBits\<close> of the kernel's headers is part of the parameter.
\<close>

section \<open>Invocations\<close>

record seL4_CapRights =
  capAllowGrantReply :: bool
  capAllowGrant :: bool
  capAllowRead :: bool
  capAllowWrite :: bool

definition seL4_AllRights :: seL4_CapRights where
  "seL4_AllRights = \<lparr>capAllowGrantReply = True, capAllowGrant = True, capAllowRead = True, capAllowWrite = True\<rparr>"

datatype seL4_ObjectType =
    seL4_UntypedObject
  | seL4_TCBObject
  | seL4_EndpointObject
  | seL4_NotificationObject
  | seL4_CapTableObject
  | seL4_SchedContextObject
  | seL4_ReplyObject
  | seL4_ARM_VSpaceObject
  | seL4_ARM_PageTableObject
  | seL4_ARM_SmallPageObject
  | seL4_ARM_LargePageObject
  | seL4_ARM_VCPUObject

text \<open>The user context words a thread is started with; the registers the sources do not name are zero.\<close>

record user_context =
  ctx_pc :: u64
  ctx_sp :: u64
  ctx_arg0 :: u64
  ctx_arg1 :: u64

datatype sel4_call =
    Untyped_Retype (rt_untyped: u64) (rt_type: seL4_ObjectType) (rt_size_bits: u64) (rt_root: u64)
      (rt_node_index: u64) (rt_node_depth: u64) (rt_offset: u64) (rt_num: u64)
  | CNode_Mint (mt_dest_root: u64) (mt_dest_index: u64) (mt_dest_depth: u8)
      (mt_src_root: u64) (mt_src_index: u64) (mt_src_depth: u8) (mt_rights: seL4_CapRights) (mt_badge: u64)
  | CNode_Revoke u64 u64 u8
  | CNode_Delete u64 u64 u8
  | ARM_Page_Map (pm_frame: u64) (pm_vspace: u64) (pm_va: u64) (pm_rights: seL4_CapRights)
  | ARM_Page_Unmap u64
  | ARM_PageTable_Map u64 u64 u64
  | ARM_ASIDPool_Assign u64 u64
  | TCB_Configure u64 u64 u64 u64 u64 u64 u64
  | TCB_WriteRegisters (wr_tcb: u64) (wr_resume: bool) (wr_regs: user_context)
  | TCB_SetSchedParams u64 u64 u64 u64 u64 u64
  | SchedControl_ConfigureFlags u64 u64 u64 u64 u64 u64 u64
  | SchedContext_Bind u64 u64

text \<open>An event is an invocation with the kernel's answer, or an IPC call with the reply's label.\<close>

datatype sel4_event =
    Inv sel4_call seL4_Error
  | Ipc_Call (ic_ep: u64) (ic_label: u64) (ic_caps: "u64 list") (ic_reply: u64)

record sel4_kernel =
  k_invoke :: "sel4_event list \<Rightarrow> sel4_call \<Rightarrow> seL4_Error"
  k_ipc :: "sel4_event list \<Rightarrow> u64 \<Rightarrow> u64 \<Rightarrow> u64 list \<Rightarrow> u64"
  k_min_sc_bits :: u64

definition invoke :: "sel4_kernel \<Rightarrow> sel4_event list \<Rightarrow> sel4_call \<Rightarrow> seL4_Error \<times> sel4_event list" where
  "invoke k tr c = (k_invoke k tr c, tr @ [Inv c (k_invoke k tr c)])"

definition ipc_call :: "sel4_kernel \<Rightarrow> sel4_event list \<Rightarrow> u64 \<Rightarrow> u64 \<Rightarrow> u64 list \<Rightarrow> u64 \<times> sel4_event list" where
  "ipc_call k tr ep label caps =
     (k_ipc k tr ep label caps, tr @ [Ipc_Call ep label caps (k_ipc k tr ep label caps)])"

section \<open>Reading a history\<close>

text \<open>The invocations the kernel accepted, in order.\<close>

fun accepted :: "sel4_event list \<Rightarrow> sel4_call list" where
  "accepted [] = []"
| "accepted (Inv c seL4_NoError # tr) = c # accepted tr"
| "accepted (_ # tr) = accepted tr"

lemma accepted_append [simp]: "accepted (xs @ ys) = accepted xs @ accepted ys"
  by (induction xs rule: accepted.induct) simp_all

lemma in_accepted_iff: "c \<in> set (accepted tr) \<longleftrightarrow> Inv c seL4_NoError \<in> set tr"
  by (induction tr rule: accepted.induct) auto

lemma accepted_single [simp]:
  "accepted [Inv c err] = (if err = seL4_NoError then [c] else [])"
  by (cases err) simp_all

lemma accepted_ipc [simp]: "accepted [Ipc_Call ep label caps r] = []"
  by simp

text \<open>All invocations made, accepted or not, in order.\<close>

fun invoked :: "sel4_event list \<Rightarrow> sel4_call list" where
  "invoked [] = []"
| "invoked (Inv c err # tr) = c # invoked tr"
| "invoked (Ipc_Call ep label caps r # tr) = invoked tr"

lemma invoked_append [simp]: "invoked (xs @ ys) = invoked xs @ invoked ys"
  by (induction xs rule: invoked.induct) simp_all

lemma in_invoked_iff: "c \<in> set (invoked tr) \<longleftrightarrow> (\<exists>err. Inv c err \<in> set tr)"
  by (induction tr rule: invoked.induct) auto

lemma accepted_subset_invoked: "set (accepted tr) \<subseteq> set (invoked tr)"
  by (auto simp: in_accepted_iff in_invoked_iff)

text \<open>A kernel that accepts everything, for concrete runs.\<close>

definition kernel_ok :: sel4_kernel where
  "kernel_ok = \<lparr>k_invoke = (\<lambda>_ _. seL4_NoError), k_ipc = (\<lambda>_ _ _ _. 0), k_min_sc_bits = 7\<rparr>"

end
