(* ===== verification/CapLend.thy ===== *)
theory CapLend
  imports Sel4Kernel
begin

text \<open>
  The capability-lending primitive: \<open>libs/pd-support/cap_lease.c\<close> (the lease table, with its
  generation-stamped identifiers) and \<open>libs/pd-support/cap_lend.c\<close> (loans recorded in lock-step with
  leases, minting and revoking through the kernel).  The lease table is modelled first and shown to
  implement the \<open>lease_book\<close> interface the lending code relies on.
\<close>

unbundle bit_operations_syntax

section \<open>Lease table (cap_lease.c, lease_contract.h)\<close>

definition AOS_LEASE_MAX_ACTIVE :: nat where "AOS_LEASE_MAX_ACTIVE = 8"
definition AOS_LEASE_SLOT_BITS :: nat where "AOS_LEASE_SLOT_BITS = 8"
definition AOS_LEASE_GEN_BITS :: nat where "AOS_LEASE_GEN_BITS = 32 - AOS_LEASE_SLOT_BITS"
definition AOS_LEASE_SLOT_MASK :: u32 where
  "AOS_LEASE_SLOT_MASK = push_bit AOS_LEASE_SLOT_BITS 1 - 1"
definition AOS_LEASE_GEN_MASK :: u32 where
  "AOS_LEASE_GEN_MASK = push_bit AOS_LEASE_GEN_BITS 1 - 1"

datatype aos_lease_state = AOS_LEASE_FREE | AOS_LEASE_ACTIVE | AOS_LEASE_REVOKED

record aos_lease =
  ls_lease_id :: u32
  ls_borrower_pd :: u32
  ls_rights :: u32
  ls_state :: aos_lease_state

record aos_lease_table =
  lt_slots :: "aos_lease list"

definition lease_make_id :: "u32 \<Rightarrow> u32 \<Rightarrow> u32" where
  "lease_make_id slot_idx generation =
     (slot_idx AND AOS_LEASE_SLOT_MASK) OR
     push_bit AOS_LEASE_SLOT_BITS (generation AND AOS_LEASE_GEN_MASK)"

definition lease_id_slot :: "u32 \<Rightarrow> u32" where
  "lease_id_slot lease_id = lease_id AND AOS_LEASE_SLOT_MASK"

definition lease_id_gen :: "u32 \<Rightarrow> u32" where
  "lease_id_gen lease_id = drop_bit AOS_LEASE_SLOT_BITS lease_id AND AOS_LEASE_GEN_MASK"

definition aos_lease_table_init :: "aos_lease_table option \<Rightarrow> aos_lease_table option" where
  "aos_lease_table_init tp =
     (case tp of
        None \<Rightarrow> None
      | Some t \<Rightarrow> Some (t\<lparr>lt_slots := map (\<lambda>i. \<lparr>ls_lease_id = lease_make_id (of_nat i) 0,
          ls_borrower_pd = 0, ls_rights = 0, ls_state = AOS_LEASE_FREE\<rparr>) [0..<AOS_LEASE_MAX_ACTIVE]\<rparr>))"

text \<open>
  The scan of \<open>aos_lease_open\<close> from slot \<open>i\<close> on: the first slot that is not active is claimed, with
  its generation bumped when it was used before.
\<close>

fun lease_open_scan :: "u32 \<Rightarrow> aos_lease list \<Rightarrow> u32 \<Rightarrow> u32 \<Rightarrow> (u32 \<times> aos_lease list) option" where
  "lease_open_scan i [] borrower_pd rights = None"
| "lease_open_scan i (slot # slots) borrower_pd rights =
     (if ls_state slot \<noteq> AOS_LEASE_ACTIVE then
        let generation = lease_id_gen (ls_lease_id slot);
            generation' = (if ls_state slot = AOS_LEASE_REVOKED
                           then (generation + 1) AND AOS_LEASE_GEN_MASK else generation);
            new_id = lease_make_id i generation'
        in Some (new_id, \<lparr>ls_lease_id = new_id, ls_borrower_pd = borrower_pd, ls_rights = rights,
                          ls_state = AOS_LEASE_ACTIVE\<rparr> # slots)
      else map_option (\<lambda>(new_id, slots'). (new_id, slot # slots'))
             (lease_open_scan (i + 1) slots borrower_pd rights))"

text \<open>\<open>None\<close> is the return value -1, with the table unchanged; \<open>Some\<close> is 0 with the identifier stored.\<close>

definition aos_lease_open ::
    "aos_lease_table option \<Rightarrow> u32 \<Rightarrow> u32 \<Rightarrow> (u32 \<times> aos_lease_table) option" where
  "aos_lease_open tp borrower_pd rights =
     (case tp of
        None \<Rightarrow> None
      | Some t \<Rightarrow> map_option (\<lambda>(new_id, slots). (new_id, t\<lparr>lt_slots := slots\<rparr>))
          (lease_open_scan 0 (lt_slots t) borrower_pd rights))"

definition aos_lease_close :: "aos_lease_table option \<Rightarrow> u32 \<Rightarrow> aos_lease_table option" where
  "aos_lease_close tp lease_id =
     (case tp of
        None \<Rightarrow> None
      | Some t \<Rightarrow>
          let idx = unat (lease_id_slot lease_id) in
          if AOS_LEASE_MAX_ACTIVE \<le> idx then None
          else
            let slot = lt_slots t ! idx in
            if ls_state slot \<noteq> AOS_LEASE_ACTIVE then None
            else if ls_lease_id slot \<noteq> lease_id then None
            else Some (t\<lparr>lt_slots := (lt_slots t)[idx := slot\<lparr>ls_state := AOS_LEASE_REVOKED\<rparr>]\<rparr>))"

definition aos_lease_get :: "aos_lease_table option \<Rightarrow> u32 \<Rightarrow> aos_lease option" where
  "aos_lease_get tp lease_id =
     (case tp of
        None \<Rightarrow> None
      | Some t \<Rightarrow>
          let idx = unat (lease_id_slot lease_id) in
          if AOS_LEASE_MAX_ACTIVE \<le> idx then None
          else
            let slot = lt_slots t ! idx in
            if ls_lease_id slot \<noteq> lease_id then None else Some slot)"

section \<open>Lease identifiers\<close>

lemmas lease_bits = AOS_LEASE_SLOT_BITS_def AOS_LEASE_GEN_BITS_def AOS_LEASE_SLOT_MASK_def
  AOS_LEASE_GEN_MASK_def

lemma lease_masks: "AOS_LEASE_SLOT_MASK = mask 8" "AOS_LEASE_GEN_MASK = mask 24"
  by (simp_all add: lease_bits mask_eq_exp_minus_1 push_bit_eq_mult)

lemma unat_lease_id_slot: "unat (lease_id_slot i) = unat i mod 256"
  by (simp add: lease_id_slot_def lease_masks flip: take_bit_eq_mask)
    (simp add: unsigned_take_bit_eq take_bit_nat_def)

lemma unat_lease_id_gen: "unat (lease_id_gen i) = unat i div 256"
proof -
  have "unat i div 256 < 2 ^ 24" using unsigned_less [of i, where ?'a = nat] by simp
  then show ?thesis
    by (simp add: lease_id_gen_def lease_masks AOS_LEASE_SLOT_BITS_def flip: take_bit_eq_mask)
      (simp add: unsigned_take_bit_eq take_bit_nat_def unsigned_drop_bit_eq drop_bit_nat_def)
qed

lemma unat_lease_make_id:
  assumes "unat s < 256" and "unat g < 2 ^ 24"
  shows "unat (lease_make_id s g) = unat s + 256 * unat g"
proof -
  have s: "s AND mask 8 = s" and g: "g AND mask 24 = g"
    using assms by (simp_all add: word_unat_eq_iff unsigned_take_bit_eq take_bit_nat_def flip: take_bit_eq_mask)
  have "s AND push_bit 8 g = 0"
  proof (rule bit_word_eqI)
    fix n assume "n < LENGTH(32)"
    have "\<not> bit (s AND mask 8) n" if "8 \<le> n" using that by (simp add: bit_simps)
    then show "bit (s AND push_bit 8 g) n \<longleftrightarrow> bit (0 :: u32) n" by (auto simp: s bit_simps)
  qed
  then have "lease_make_id s g = s + push_bit 8 g"
    by (simp add: lease_make_id_def lease_masks s g AOS_LEASE_SLOT_BITS_def disjunctive_add_eq_or)
  moreover have "unat (push_bit 8 g) = 256 * unat g"
    using assms(2) by (simp add: push_bit_eq_mult unat_word_ariths)
  ultimately show ?thesis using assms by (simp add: unat_word_ariths)
qed

lemma lease_id_parts:
  assumes "unat s < 256" and "unat g < 2 ^ 24"
  shows "lease_id_slot (lease_make_id s g) = s" and "lease_id_gen (lease_make_id s g) = g"
  using assms by (simp_all add: word_unat_eq_iff unat_lease_id_slot unat_lease_id_gen unat_lease_make_id)

lemma unat_lease_gen_bound: "unat (lease_id_gen i) < 2 ^ 24"
  unfolding unat_lease_id_gen using unsigned_less [of i, where ?'a = nat] by simp

lemma unat_bump:
  "unat (g + 1 AND AOS_LEASE_GEN_MASK) = (unat g + 1) mod 2 ^ 24"
  by (simp add: lease_masks flip: take_bit_eq_mask)
    (simp add: unsigned_take_bit_eq take_bit_nat_def unat_word_ariths mod_mod_cancel)

section \<open>The bookkeeping interface\<close>

text \<open>
  What lending relies on: a bounded book of live leases, from which opening takes a fresh identifier
  and closing removes one.  A client that keeps one entry per live lease in a table of the same
  size stays in lock-step with the book, so its opens and closes cannot fail for want of a slot.
\<close>

locale lease_book =
  fixes opn :: "'t \<Rightarrow> u32 \<Rightarrow> u32 \<Rightarrow> (u32 \<times> 't) option"
    and cls :: "'t \<Rightarrow> u32 \<Rightarrow> 't option"
    and live :: "'t \<Rightarrow> u32 set"
    and wf :: "'t \<Rightarrow> bool"
    and cap :: nat
  assumes finite_live: "wf t \<Longrightarrow> finite (live t)"
    and opn_room: "wf t \<Longrightarrow> card (live t) < cap \<Longrightarrow>
      \<exists>i t'. opn t pd r = Some (i, t') \<and> i \<notin> live t \<and> live t' = insert i (live t) \<and> wf t'"
    and cls_live: "wf t \<Longrightarrow> i \<in> live t \<Longrightarrow> \<exists>t'. cls t i = Some t' \<and> live t' = live t - {i} \<and> wf t'"
    and cls_dead: "wf t \<Longrightarrow> i \<notin> live t \<Longrightarrow> cls t i = None"
begin

definition lockstep :: "('k \<times> u32) option list \<Rightarrow> 't \<Rightarrow> bool" where
  "lockstep rs t \<longleftrightarrow> wf t \<and> length rs = cap \<and>
     live t = {i. \<exists>a < cap. \<exists>k. rs ! a = Some (k, i)} \<and>
     (\<forall>a < cap. \<forall>b < cap. \<forall>k i k' i'. rs ! a = Some (k, i) \<longrightarrow> rs ! b = Some (k', i') \<longrightarrow>
        a \<noteq> b \<longrightarrow> k \<noteq> k' \<and> i \<noteq> i')"

lemma lockstepD:
  assumes "lockstep rs t"
  shows "wf t" and "length rs = cap" and "live t = {i. \<exists>a < cap. \<exists>k. rs ! a = Some (k, i)}"
    and "a < cap \<Longrightarrow> b < cap \<Longrightarrow> rs ! a = Some (k, i) \<Longrightarrow> rs ! b = Some (k', i') \<Longrightarrow> a \<noteq> b \<Longrightarrow> k \<noteq> k'"
    and "a < cap \<Longrightarrow> b < cap \<Longrightarrow> rs ! a = Some (k, i) \<Longrightarrow> rs ! b = Some (k', i') \<Longrightarrow> a \<noteq> b \<Longrightarrow> i \<noteq> i'"
  using assms unfolding lockstep_def by blast+

lemma lockstepI:
  assumes "wf t" and "length rs = cap" and "live t = {i. \<exists>a < cap. \<exists>k. rs ! a = Some (k, i)}"
    and "\<And>a b k i k' i'. a < cap \<Longrightarrow> b < cap \<Longrightarrow> a \<noteq> b \<Longrightarrow> rs ! a = Some (k, i) \<Longrightarrow> rs ! b = Some (k', i') \<Longrightarrow>
      k \<noteq> k' \<and> i \<noteq> i'"
  shows "lockstep rs t"
  using assms unfolding lockstep_def by blast

lemma lockstep_cong:
  assumes "lockstep rs t" and "wf t'" and "live t' = live t"
  shows "lockstep rs t'"
  using assms(1,2) unfolding lockstep_def assms(3) by blast

lemma lockstep_empty: "wf t \<Longrightarrow> live t = {} \<Longrightarrow> lockstep (replicate cap None) t"
  by (simp add: lockstep_def)

lemma lockstep_card:
  assumes "lockstep rs t" and "j < cap" and "rs ! j = None"
  shows "card (live t) < cap"
proof -
  let ?used = "{a. a < cap \<and> rs ! a \<noteq> None}"
  have "live t \<subseteq> (\<lambda>a. snd (the (rs ! a))) ` ?used"
  proof
    fix i assume "i \<in> live t"
    then obtain a k where "a < cap" "rs ! a = Some (k, i)" unfolding lockstepD(3) [OF assms(1)] by blast
    then show "i \<in> (\<lambda>a. snd (the (rs ! a))) ` ?used" by (intro image_eqI [of _ _ a]) simp_all
  qed
  then have "card (live t) \<le> card ((\<lambda>a. snd (the (rs ! a))) ` ?used)" by (rule card_mono [rotated]) simp
  also have "\<dots> \<le> card ?used" by (rule card_image_le) simp
  also have "\<dots> \<le> card ({..<cap} - {j})" using assms(3) by (intro card_mono) auto
  also have "\<dots> < cap" using assms(2) by simp
  finally show ?thesis by simp
qed

text \<open>Opening for a free entry succeeds and recording it keeps the lock-step; so does undoing it.\<close>

lemma lockstep_open:
  assumes ls: "lockstep rs t" and j: "j < cap" "rs ! j = None"
    and fresh: "\<And>a i. a < cap \<Longrightarrow> rs ! a \<noteq> Some (k, i)"
  shows "\<exists>i t'. opn t pd r = Some (i, t') \<and> lockstep (rs[j := Some (k, i)]) t' \<and>
    (\<exists>t''. cls t' i = Some t'' \<and> lockstep rs t'')"
proof -
  note d = lockstepD [OF ls]
  obtain i t' where o: "opn t pd r = Some (i, t')" "i \<notin> live t" "live t' = insert i (live t)" "wf t'"
    using opn_room [OF d(1) lockstep_card [OF ls j]] by blast
  then obtain t'' where c: "cls t' i = Some t''" "live t'' = live t' - {i}" "wf t''"
    using cls_live [of t' i] by blast
  have new: "\<And>a k'. a < cap \<Longrightarrow> rs ! a \<noteq> Some (k', i)" using o(2) unfolding d(3) by blast
  have nth: "rs[j := Some (k, i)] ! a = (if a = j then Some (k, i) else rs ! a)" if "a < cap" for a
    using that j d(2) by (simp add: nth_list_update)
  have live': "live t' = {x. \<exists>a < cap. \<exists>k'. rs[j := Some (k, i)] ! a = Some (k', x)}"
  proof -
    have "{x. \<exists>a < cap. \<exists>k'. rs[j := Some (k, i)] ! a = Some (k', x)} =
        insert i {x. \<exists>a < cap. \<exists>k'. rs ! a = Some (k', x)}"
      using j nth by (auto split: if_splits) (metis option.distinct(1))
    then show ?thesis unfolding o(3) d(3) by simp
  qed
  have "lockstep (rs[j := Some (k, i)]) t'"
  proof (rule lockstepI [OF o(4) _ live'])
    fix a b ka ia kb ib
    assume ab: "a < cap" "b < cap" "a \<noteq> b" "rs[j := Some (k, i)] ! a = Some (ka, ia)"
      "rs[j := Some (k, i)] ! b = Some (kb, ib)"
    consider "a = j" "b \<noteq> j" | "a \<noteq> j" "b = j" | "a \<noteq> j" "b \<noteq> j" using ab(3) by blast
    then show "ka \<noteq> kb \<and> ia \<noteq> ib"
    proof cases
      case 1 then show ?thesis using ab nth new [of b kb] fresh [of b ib] by auto
    next
      case 2 then show ?thesis using ab nth new [of a ka] fresh [of a ia] by auto
    next
      case 3
      then have "rs ! a = Some (ka, ia)" "rs ! b = Some (kb, ib)" using ab nth by simp_all
      then show ?thesis using d(4,5) [OF ab(1,2) _ _ ab(3)] by blast
    qed
  qed (simp add: d(2))
  moreover have "live t'' = live t" using c(2) o(2,3) by auto
  then have "lockstep rs t''"
    by (rule lockstep_cong [OF ls c(3)])
  ultimately show ?thesis using o(1) c(1) by blast
qed

lemma lockstep_close:
  assumes ls: "lockstep rs t" and j: "j < cap" "rs ! j = Some (k, i)"
  shows "\<exists>t'. cls t i = Some t' \<and> lockstep (rs[j := None]) t'"
proof -
  note d = lockstepD [OF ls]
  have "i \<in> live t" unfolding d(3) using j by blast
  then obtain t' where c: "cls t i = Some t'" "live t' = live t - {i}" "wf t'"
    using cls_live [OF d(1)] by blast
  have nth: "rs[j := None] ! a = (if a = j then None else rs ! a)" if "a < cap" for a
    using that j d(2) by (simp add: nth_list_update)
  have other: "a = j" if "a < cap" "rs ! a = Some (k', i)" for a k'
    using d(5) [OF that(1) j(1) that(2) j(2)] by blast
  have live': "live t' = {x. \<exists>a < cap. \<exists>k'. rs[j := None] ! a = Some (k', x)}"
  proof (rule set_eqI, rule iffI)
    fix x assume "x \<in> live t'"
    then obtain a k' where a: "a < cap" "rs ! a = Some (k', x)" and "x \<noteq> i"
      unfolding c(2) d(3) by blast
    then have "a \<noteq> j" using j(2) by auto
    then have "rs[j := None] ! a = Some (k', x)" using a by (simp add: nth)
    then show "x \<in> {x. \<exists>a < cap. \<exists>k'. rs[j := None] ! a = Some (k', x)}" using a(1) by blast
  next
    fix x assume "x \<in> {x. \<exists>a < cap. \<exists>k'. rs[j := None] ! a = Some (k', x)}"
    then obtain a k' where a: "a < cap" "rs[j := None] ! a = Some (k', x)" by blast
    then have "a \<noteq> j" "rs ! a = Some (k', x)" using nth [of a] by (auto split: if_splits)
    then show "x \<in> live t'" using a(1) other [of a k'] unfolding c(2) d(3) by auto
  qed
  have "lockstep (rs[j := None]) t'"
  proof (rule lockstepI [OF c(3) _ live'])
    fix a b ka ia kb ib
    assume ab: "a < cap" "b < cap" "a \<noteq> b" "rs[j := None] ! a = Some (ka, ia)" "rs[j := None] ! b = Some (kb, ib)"
    then have "rs ! a = Some (ka, ia)" "rs ! b = Some (kb, ib)" by (auto simp: nth split: if_splits)
    then show "ka \<noteq> kb \<and> ia \<noteq> ib" using d(4,5) [OF ab(1,2) _ _ ab(3)] by blast
  qed (simp add: d(2))
  then show ?thesis using c(1) by blast
qed

end

section \<open>The lease table implements the book\<close>

definition lease_wf :: "aos_lease_table \<Rightarrow> bool" where
  "lease_wf t \<longleftrightarrow> length (lt_slots t) = AOS_LEASE_MAX_ACTIVE \<and>
     (\<forall>j < AOS_LEASE_MAX_ACTIVE. unat (lease_id_slot (ls_lease_id (lt_slots t ! j))) = j)"

definition live_leases :: "aos_lease_table \<Rightarrow> u32 set" where
  "live_leases t = {ls_lease_id (lt_slots t ! j) | j.
     j < length (lt_slots t) \<and> ls_state (lt_slots t ! j) = AOS_LEASE_ACTIVE}"

lemma lease_table_init_wf:
  assumes "aos_lease_table_init (Some t) = Some t'"
  shows "lease_wf t'" and "live_leases t' = {}"
proof -
  have "unat (lease_id_slot (lease_make_id (of_nat j) 0)) = j" if "j < 8" for j
    using that lease_id_parts(1) [of "of_nat j" 0] by (simp add: unat_of_nat)
  then show "lease_wf t'" "live_leases t' = {}"
    using assms by (auto simp: aos_lease_table_init_def lease_wf_def live_leases_def AOS_LEASE_MAX_ACTIVE_def)
qed

text \<open>The generation a claim of a slot stamps.\<close>

definition claim_gen :: "aos_lease \<Rightarrow> u32" where
  "claim_gen slot =
     (if ls_state slot = AOS_LEASE_REVOKED
      then (lease_id_gen (ls_lease_id slot) + 1) AND AOS_LEASE_GEN_MASK
      else lease_id_gen (ls_lease_id slot))"

lemma claim_gen_bound: "unat (claim_gen slot) < 2 ^ 24"
  using unat_lease_gen_bound [of "ls_lease_id slot"] by (simp add: claim_gen_def unat_bump)

lemma lease_open_scan_None:
  "lease_open_scan i slots pd r = None \<longleftrightarrow> (\<forall>s \<in> set slots. ls_state s = AOS_LEASE_ACTIVE)"
  by (induction i slots pd r rule: lease_open_scan.induct) (auto simp: Let_def)

lemma lease_open_scan_Some:
  assumes "lease_open_scan i slots pd r = Some (new_id, slots')"
  shows "\<exists>j < length slots. ls_state (slots ! j) \<noteq> AOS_LEASE_ACTIVE \<and>
    new_id = lease_make_id (i + of_nat j) (claim_gen (slots ! j)) \<and>
    slots' = slots[j := \<lparr>ls_lease_id = new_id, ls_borrower_pd = pd, ls_rights = r, ls_state = AOS_LEASE_ACTIVE\<rparr>]"
  using assms
proof (induction i slots pd r arbitrary: slots' rule: lease_open_scan.induct)
  case (2 i slot slots pd r)
  show ?case
  proof (cases "ls_state slot = AOS_LEASE_ACTIVE")
    case True
    then obtain slots1 where rec: "lease_open_scan (i + 1) slots pd r = Some (new_id, slots1)"
      and s': "slots' = slot # slots1" using "2.prems" by auto
    obtain j where "j < length slots" "ls_state (slots ! j) \<noteq> AOS_LEASE_ACTIVE"
      "new_id = lease_make_id (i + 1 + of_nat j) (claim_gen (slots ! j))"
      "slots1 = slots[j := \<lparr>ls_lease_id = new_id, ls_borrower_pd = pd, ls_rights = r, ls_state = AOS_LEASE_ACTIVE\<rparr>]"
      using "2.IH" [OF _ rec] True by blast
    with s' show ?thesis by (intro exI [of _ "Suc j"]) (simp add: add.assoc)
  next
    case False
    with "2.prems" show ?thesis by (intro exI [of _ 0]) (auto simp: claim_gen_def Let_def)
  qed
qed simp

lemma aos_lease_open_Some:
  assumes "lease_wf t" and "aos_lease_open (Some t) pd r = Some (new_id, t')"
  shows "\<exists>j < AOS_LEASE_MAX_ACTIVE. ls_state (lt_slots t ! j) \<noteq> AOS_LEASE_ACTIVE \<and>
    unat (lease_id_slot new_id) = j \<and> lease_id_gen new_id = claim_gen (lt_slots t ! j) \<and>
    t' = t\<lparr>lt_slots := (lt_slots t)[j := \<lparr>ls_lease_id = new_id, ls_borrower_pd = pd, ls_rights = r,
      ls_state = AOS_LEASE_ACTIVE\<rparr>]\<rparr>"
proof -
  obtain slots' where "lease_open_scan 0 (lt_slots t) pd r = Some (new_id, slots')"
    "t' = t\<lparr>lt_slots := slots'\<rparr>" using assms(2) by (auto simp: aos_lease_open_def)
  with lease_open_scan_Some [OF this(1)] assms(1) obtain j where j: "j < 8"
    "ls_state (lt_slots t ! j) \<noteq> AOS_LEASE_ACTIVE" "new_id = lease_make_id (of_nat j) (claim_gen (lt_slots t ! j))"
    "t' = t\<lparr>lt_slots := (lt_slots t)[j := \<lparr>ls_lease_id = new_id, ls_borrower_pd = pd, ls_rights = r,
      ls_state = AOS_LEASE_ACTIVE\<rparr>]\<rparr>"
    by (auto simp: lease_wf_def AOS_LEASE_MAX_ACTIVE_def)
  moreover have "unat (of_nat j :: u32) = j" using j(1) by (simp add: unat_of_nat)
  ultimately show ?thesis
    using lease_id_parts [of "of_nat j" "claim_gen (lt_slots t ! j)"] claim_gen_bound
    by (intro exI [of _ j]) (simp add: AOS_LEASE_MAX_ACTIVE_def)
qed

lemma live_leases_update:
  assumes "j < length (lt_slots t)" and "ls_state s = AOS_LEASE_ACTIVE"
  shows "live_leases (t\<lparr>lt_slots := (lt_slots t)[j := s]\<rparr>) =
    insert (ls_lease_id s) {ls_lease_id (lt_slots t ! a) | a. a \<noteq> j \<and>
      a < length (lt_slots t) \<and> ls_state (lt_slots t ! a) = AOS_LEASE_ACTIVE}"
  using assms by (auto simp: live_leases_def nth_list_update)

lemma live_leases_drop:
  assumes "j < length (lt_slots t)" and "ls_state s \<noteq> AOS_LEASE_ACTIVE"
  shows "live_leases (t\<lparr>lt_slots := (lt_slots t)[j := s]\<rparr>) =
    {ls_lease_id (lt_slots t ! a) | a. a \<noteq> j \<and>
      a < length (lt_slots t) \<and> ls_state (lt_slots t ! a) = AOS_LEASE_ACTIVE}"
  using assms by (auto simp: live_leases_def nth_list_update)

lemma aos_lease_open_live:
  assumes "lease_wf t" and "aos_lease_open (Some t) pd r = Some (i, t')"
  shows "lease_wf t'" and "i \<notin> live_leases t" and "live_leases t' = insert i (live_leases t)"
proof -
  obtain j where j: "j < AOS_LEASE_MAX_ACTIVE" "ls_state (lt_slots t ! j) \<noteq> AOS_LEASE_ACTIVE"
    "unat (lease_id_slot i) = j"
    and t': "t' = t\<lparr>lt_slots := (lt_slots t)[j := \<lparr>ls_lease_id = i, ls_borrower_pd = pd, ls_rights = r,
      ls_state = AOS_LEASE_ACTIVE\<rparr>]\<rparr>"
    using aos_lease_open_Some [OF assms] by blast
  have len: "length (lt_slots t) = AOS_LEASE_MAX_ACTIVE" using assms(1) by (simp add: lease_wf_def)
  show "lease_wf t'" using assms(1) j t' by (auto simp: lease_wf_def nth_list_update)
  show "i \<notin> live_leases t"
    using assms(1) j by (auto simp: live_leases_def lease_wf_def)
  show "live_leases t' = insert i (live_leases t)"
    unfolding t' using j len by (subst live_leases_update) (auto simp: live_leases_def)
qed

lemma aos_lease_close_live:
  assumes "lease_wf t" and "i \<in> live_leases t"
  shows "\<exists>t'. aos_lease_close (Some t) i = Some t' \<and> live_leases t' = live_leases t - {i} \<and> lease_wf t'"
proof -
  have len: "length (lt_slots t) = AOS_LEASE_MAX_ACTIVE" using assms(1) by (simp add: lease_wf_def)
  obtain j where j: "j < AOS_LEASE_MAX_ACTIVE" "ls_state (lt_slots t ! j) = AOS_LEASE_ACTIVE"
    "ls_lease_id (lt_slots t ! j) = i" using assms(2) len by (auto simp: live_leases_def)
  then have slot: "unat (lease_id_slot i) = j" using assms(1) by (auto simp: lease_wf_def)
  let ?t = "t\<lparr>lt_slots := (lt_slots t)[j := (lt_slots t ! j)\<lparr>ls_state := AOS_LEASE_REVOKED\<rparr>]\<rparr>"
  have close: "aos_lease_close (Some t) i = Some ?t"
    using j slot by (simp add: aos_lease_close_def)
  have same: "a = j" if "a < AOS_LEASE_MAX_ACTIVE" "ls_lease_id (lt_slots t ! a) = i" for a
    using that slot assms(1) by (auto simp: lease_wf_def)
  have "live_leases ?t = live_leases t - {i}"
    using j len by (subst live_leases_drop) (auto simp: live_leases_def dest: same)
  moreover have "lease_wf ?t" using assms(1) j by (auto simp: lease_wf_def nth_list_update)
  ultimately show ?thesis using close by simp
qed

lemma aos_lease_close_dead:
  assumes "lease_wf t" and "i \<notin> live_leases t"
  shows "aos_lease_close (Some t) i = None"
  using assms by (auto simp: aos_lease_close_def live_leases_def lease_wf_def Let_def not_le)

lemma all_active_card:
  assumes "lease_wf t" and "\<forall>s \<in> set (lt_slots t). ls_state s = AOS_LEASE_ACTIVE"
  shows "card (live_leases t) = AOS_LEASE_MAX_ACTIVE"
proof -
  let ?f = "\<lambda>j. ls_lease_id (lt_slots t ! j)"
  have len: "length (lt_slots t) = AOS_LEASE_MAX_ACTIVE" using assms(1) by (simp add: lease_wf_def)
  have "live_leases t = ?f ` {..<AOS_LEASE_MAX_ACTIVE}"
    using assms(2) len by (auto simp: live_leases_def)
  moreover have "inj_on ?f {..<AOS_LEASE_MAX_ACTIVE}"
    using assms(1) by (intro inj_onI) (metis lease_wf_def lessThan_iff)
  ultimately show ?thesis by (simp add: card_image)
qed

interpretation lease_tab: lease_book "\<lambda>t. aos_lease_open (Some t)" "\<lambda>t. aos_lease_close (Some t)"
  live_leases lease_wf AOS_LEASE_MAX_ACTIVE
proof (unfold_locales, goal_cases)
  case (1 t)
  have "live_leases t \<subseteq> ls_lease_id ` set (lt_slots t)" by (auto simp: live_leases_def)
  then show ?case by (rule finite_subset) simp
next
  case (2 t pd r)
  then have "aos_lease_open (Some t) pd r \<noteq> None"
    using all_active_card [of t] by (auto simp: aos_lease_open_def lease_open_scan_None)
  then obtain i t' where "aos_lease_open (Some t) pd r = Some (i, t')" by auto
  with aos_lease_open_live [OF 2(1) this] show ?case by blast
next
  case (3 t i)
  then show ?case by (rule aos_lease_close_live)
next
  case (4 t i)
  then show ?case by (rule aos_lease_close_dead)
qed

section \<open>A closed lease never comes back\<close>

text \<open>
  Generations: along any sequence of opens and closes a slot's generation only grows, until the
  24-bit counter wraps.  An identifier is \<^emph>\<open>spent\<close> in a table when its slot has moved past it or
  holds it revoked.
\<close>

datatype lease_op = Open u32 u32 | Close u32

fun lease_run :: "aos_lease_table \<Rightarrow> lease_op list \<Rightarrow> u32 list \<times> aos_lease_table" where
  "lease_run t [] = ([], t)"
| "lease_run t (Open pd r # ops) =
     (case aos_lease_open (Some t) pd r of
        None \<Rightarrow> lease_run t ops
      | Some (i, t') \<Rightarrow> (case lease_run t' ops of (ids, t'') \<Rightarrow> (i # ids, t'')))"
| "lease_run t (Close i # ops) =
     (case aos_lease_close (Some t) i of None \<Rightarrow> lease_run t ops | Some t' \<Rightarrow> lease_run t' ops)"

definition slot_of :: "aos_lease_table \<Rightarrow> u32 \<Rightarrow> aos_lease" where
  "slot_of t i = lt_slots t ! unat (lease_id_slot i)"

definition gen_of :: "u32 \<Rightarrow> nat" where
  "gen_of i = unat (lease_id_gen i)"

definition spent :: "aos_lease_table \<Rightarrow> u32 \<Rightarrow> bool" where
  "spent t i \<longleftrightarrow> unat (lease_id_slot i) < AOS_LEASE_MAX_ACTIVE \<and>
     (gen_of i < gen_of (ls_lease_id (slot_of t i)) \<or>
      gen_of i = gen_of (ls_lease_id (slot_of t i)) \<and> ls_state (slot_of t i) = AOS_LEASE_REVOKED)"

lemma lease_id_eqI:
  "lease_id_slot i = lease_id_slot i' \<Longrightarrow> gen_of i = gen_of i' \<Longrightarrow> i = i'"
  unfolding gen_of_def word_unat_eq_iff unat_lease_id_slot unat_lease_id_gen
  by (metis div_mult_mod_eq)

lemma spent_not_live: "lease_wf t \<Longrightarrow> spent t i \<Longrightarrow> i \<notin> live_leases t"
  by (auto simp: spent_def live_leases_def slot_of_def lease_wf_def)

definition used :: "aos_lease_table \<Rightarrow> u32 \<Rightarrow> bool" where
  "used t i \<longleftrightarrow> unat (lease_id_slot i) < AOS_LEASE_MAX_ACTIVE \<and>
     (gen_of i < gen_of (ls_lease_id (slot_of t i)) \<or>
      gen_of i = gen_of (ls_lease_id (slot_of t i)) \<and> ls_state (slot_of t i) \<noteq> AOS_LEASE_FREE)"

definition gens_below :: "nat \<Rightarrow> aos_lease_table \<Rightarrow> bool" where
  "gens_below n t \<longleftrightarrow> (\<forall>j < AOS_LEASE_MAX_ACTIVE. gen_of (ls_lease_id (lt_slots t ! j)) \<le> n)"

lemma claim_gen_no_wrap:
  assumes "gen_of (ls_lease_id s) \<le> n" and "Suc n < 2 ^ 24"
  shows "unat (claim_gen s) =
    (if ls_state s = AOS_LEASE_REVOKED then Suc (gen_of (ls_lease_id s)) else gen_of (ls_lease_id s))"
  using assms by (auto simp: claim_gen_def unat_bump gen_of_def)

lemma lease_open_gens:
  assumes wf: "lease_wf t" and gens: "gens_below n t" and n: "Suc n < 2 ^ 24"
    and open_t: "aos_lease_open (Some t) pd r = Some (i, t')"
  shows "gens_below (Suc n) t'" and "used t' i"
    and "used t i' \<Longrightarrow> used t' i' \<and> i' \<noteq> i" and "spent t i' \<Longrightarrow> spent t' i' \<and> i' \<noteq> i"
proof -
  let ?s = "\<lambda>j. lt_slots t ! j"
  obtain j where j: "j < AOS_LEASE_MAX_ACTIVE" "ls_state (?s j) \<noteq> AOS_LEASE_ACTIVE"
    "unat (lease_id_slot i) = j" "lease_id_gen i = claim_gen (?s j)"
    and t': "t' = t\<lparr>lt_slots := (lt_slots t)[j := \<lparr>ls_lease_id = i, ls_borrower_pd = pd, ls_rights = r,
      ls_state = AOS_LEASE_ACTIVE\<rparr>]\<rparr>"
    using aos_lease_open_Some [OF wf open_t] by blast
  have len: "length (lt_slots t) = AOS_LEASE_MAX_ACTIVE" using wf by (simp add: lease_wf_def)
  have gen: "gen_of i = (if ls_state (?s j) = AOS_LEASE_REVOKED then Suc (gen_of (ls_lease_id (?s j)))
      else gen_of (ls_lease_id (?s j)))"
    using claim_gen_no_wrap [of "?s j" n] gens j n by (simp add: gens_below_def gen_of_def)
  have slot: "slot_of t' i' = (if unat (lease_id_slot i') = j
      then \<lparr>ls_lease_id = i, ls_borrower_pd = pd, ls_rights = r, ls_state = AOS_LEASE_ACTIVE\<rparr>
      else slot_of t i')" for i'
    using j(1) len by (simp add: slot_of_def t' nth_list_update)
  have at: "slot_of t i' = ?s j" if "unat (lease_id_slot i') = j" for i'
    using that by (simp add: slot_of_def)
  have le: "gen_of (ls_lease_id (?s a)) \<le> n" if "a < AOS_LEASE_MAX_ACTIVE" for a
    using gens that by (simp add: gens_below_def)
  have "gen_of (ls_lease_id (lt_slots t' ! a)) \<le> Suc n" if "a < AOS_LEASE_MAX_ACTIVE" for a
    using le [OF that] le [OF j(1)] gen len that j(1) by (auto simp: t' nth_list_update split: if_splits)
  then show "gens_below (Suc n) t'" by (simp add: gens_below_def)
  show "used t' i" using j by (simp add: used_def slot)
  show "used t i' \<Longrightarrow> used t' i' \<and> i' \<noteq> i"
    using gen j(2,3) at [of i'] by (cases "unat (lease_id_slot i') = j"; cases "ls_state (?s j)")
      (auto simp: used_def slot)
  show "spent t i' \<Longrightarrow> spent t' i' \<and> i' \<noteq> i"
    using gen j(2,3) at [of i'] by (cases "unat (lease_id_slot i') = j"; cases "ls_state (?s j)")
      (auto simp: spent_def slot)
qed

lemma lease_close_gens:
  assumes "lease_wf t" and "aos_lease_close (Some t) i = Some t'"
  shows "lease_wf t'" and "gens_below n t \<Longrightarrow> gens_below n t'" and "spent t' i"
    and "used t i' \<Longrightarrow> used t' i'" and "spent t i' \<Longrightarrow> spent t' i'"
proof -
  let ?j = "unat (lease_id_slot i)"
  have j: "?j < AOS_LEASE_MAX_ACTIVE" "ls_lease_id (lt_slots t ! ?j) = i"
    and t': "t' = t\<lparr>lt_slots := (lt_slots t)[?j := (lt_slots t ! ?j)\<lparr>ls_state := AOS_LEASE_REVOKED\<rparr>]\<rparr>"
    using assms(2) by (auto simp: aos_lease_close_def Let_def split: if_splits)
  have len: "length (lt_slots t) = AOS_LEASE_MAX_ACTIVE" using assms(1) by (simp add: lease_wf_def)
  show "lease_wf t'" using assms(1) j len by (auto simp: lease_wf_def t' nth_list_update)
  show "gens_below n t \<Longrightarrow> gens_below n t'" using len j(1) by (auto simp: gens_below_def t' nth_list_update)
  show "spent t' i" using j len by (simp add: spent_def slot_of_def t')
  show "used t i' \<Longrightarrow> used t' i'" using j len by (auto simp: used_def slot_of_def t' nth_list_update)
  show "spent t i' \<Longrightarrow> spent t' i'" using j len by (auto simp: spent_def slot_of_def t' nth_list_update)
qed

lemma lease_run_gens:
  assumes "lease_wf t" and "gens_below n t" and "lease_run t ops = (ids, t')" and "n + length ids < 2 ^ 24"
  shows "lease_wf t'" and "distinct ids" and "used t i \<Longrightarrow> i \<notin> set ids" and "spent t i \<Longrightarrow> spent t' i \<and> i \<notin> set ids"
proof -
  have "lease_wf t' \<and> distinct ids \<and> (\<forall>i. used t i \<longrightarrow> i \<notin> set ids) \<and>
      (\<forall>i. spent t i \<longrightarrow> spent t' i \<and> i \<notin> set ids)"
    using assms
  proof (induction t ops arbitrary: n ids rule: lease_run.induct)
    case (2 t pd r ops)
    show ?case
    proof (cases "aos_lease_open (Some t) pd r")
      case None
      then show ?thesis using "2.IH"(1) [OF None] "2.prems" by simp
    next
      case (Some p)
      obtain i t1 where p: "p = (i, t1)" by (cases p)
      obtain ids1 where run: "lease_run t1 ops = (ids1, t')" and ids: "ids = i # ids1"
        using "2.prems"(3) Some p by (auto split: prod.splits)
      have n: "Suc n < 2 ^ 24" using "2.prems"(4) ids by simp
      note g = lease_open_gens [OF "2.prems"(1,2) n Some [unfolded p]]
      have "lease_wf t'" "distinct ids1" "\<forall>i. used t1 i \<longrightarrow> i \<notin> set ids1"
        "\<forall>i. spent t1 i \<longrightarrow> spent t' i \<and> i \<notin> set ids1"
        using "2.IH"(2) [OF Some p [symmetric] aos_lease_open_live(1) [OF "2.prems"(1) Some [unfolded p]] g(1) run]
          "2.prems"(4) ids by auto
      then show ?thesis using ids g(2-4) by auto
    qed
  next
    case (3 t i ops)
    show ?case
    proof (cases "aos_lease_close (Some t) i")
      case None
      then show ?thesis using "3.IH"(1) [OF None] "3.prems" by simp
    next
      case (Some t1)
      note c = lease_close_gens [OF "3.prems"(1) Some]
      show ?thesis
        using "3.IH"(2) [OF Some c(1) c(2) [OF "3.prems"(2)]] "3.prems"(3,4) Some c(4,5) by auto
    qed
  qed simp
  then show "lease_wf t'" "distinct ids" "used t i \<Longrightarrow> i \<notin> set ids" "spent t i \<Longrightarrow> spent t' i \<and> i \<notin> set ids"
    by auto
qed

section \<open>Lending (cap_lend.c, cap_lend.h)\<close>

definition AOS_CAP_LEND_OK :: int where "AOS_CAP_LEND_OK = 0"
definition AOS_CAP_LEND_ERR_RIGHTS :: int where "AOS_CAP_LEND_ERR_RIGHTS = - 1"
definition AOS_CAP_LEND_ERR_LEASE :: int where "AOS_CAP_LEND_ERR_LEASE = - 2"
definition AOS_CAP_LEND_ERR_MINT :: int where "AOS_CAP_LEND_ERR_MINT = - 3"
definition AOS_CAP_LEND_ERR_NOT_FOUND :: int where "AOS_CAP_LEND_ERR_NOT_FOUND = - 4"
definition AOS_CAP_LEND_ERR_REVOKE :: int where "AOS_CAP_LEND_ERR_REVOKE = - 5"
definition AOS_CAP_LEND_ERR_LEASE_CLOSE :: int where "AOS_CAP_LEND_ERR_LEASE_CLOSE = - 6"

lemmas cap_lend_codes = AOS_CAP_LEND_OK_def AOS_CAP_LEND_ERR_RIGHTS_def AOS_CAP_LEND_ERR_LEASE_def
  AOS_CAP_LEND_ERR_MINT_def AOS_CAP_LEND_ERR_NOT_FOUND_def AOS_CAP_LEND_ERR_REVOKE_def
  AOS_CAP_LEND_ERR_LEASE_CLOSE_def

record cap_lend_record =
  cr_in_use :: bool
  cr_original :: u64
  cr_src_root :: u64
  cr_src_depth :: u64
  cr_lease_id :: u32

text \<open>The module's static variables, with the history of its kernel events.\<close>

record lend_state =
  g_lend_leases :: aos_lease_table
  g_lend_records :: "cap_lend_record list"
  g_lend_initialized :: bool
  ld_trace :: "sel4_event list"

definition zero_cap_lend_record :: cap_lend_record where
  "zero_cap_lend_record = \<lparr>cr_in_use = False, cr_original = 0, cr_src_root = 0, cr_src_depth = 0, cr_lease_id = 0\<rparr>"

definition zero_lend_state :: lend_state where
  "zero_lend_state = \<lparr>
     g_lend_leases = \<lparr>lt_slots = replicate AOS_LEASE_MAX_ACTIVE
       \<lparr>ls_lease_id = 0, ls_borrower_pd = 0, ls_rights = 0, ls_state = AOS_LEASE_FREE\<rparr>\<rparr>,
     g_lend_records = replicate AOS_LEASE_MAX_ACTIVE zero_cap_lend_record,
     g_lend_initialized = False, ld_trace = []\<rparr>"

definition aos_cap_lend_init :: "lend_state \<Rightarrow> lend_state" where
  "aos_cap_lend_init s = s\<lparr>
     g_lend_leases := the (aos_lease_table_init (Some (g_lend_leases s))),
     g_lend_records := map (\<lambda>_. zero_cap_lend_record) [0..<AOS_LEASE_MAX_ACTIVE],
     g_lend_initialized := True\<rparr>"

definition cap_lend_ensure_init :: "lend_state \<Rightarrow> lend_state" where
  "cap_lend_ensure_init s = (if \<not> g_lend_initialized s then aos_cap_lend_init s else s)"

definition cap_lend_rights_is_strict_subset :: "seL4_CapRights \<Rightarrow> bool" where
  "cap_lend_rights_is_strict_subset rights \<longleftrightarrow>
     \<not> (capAllowGrantReply rights \<and> capAllowGrant rights \<and> capAllowRead rights \<and> capAllowWrite rights)"

definition cap_lend_pack_rights :: "seL4_CapRights \<Rightarrow> u32" where
  "cap_lend_pack_rights rights =
     (let bits0 = (0 :: u32);
          bits1 = (if capAllowGrantReply rights then bits0 OR push_bit 3 1 else bits0);
          bits2 = (if capAllowGrant rights then bits1 OR push_bit 2 1 else bits1);
          bits3 = (if capAllowRead rights then bits2 OR push_bit 1 1 else bits2)
      in if capAllowWrite rights then bits3 OR push_bit 0 1 else bits3)"

text \<open>The record searches return the index of the first match.\<close>

definition cap_lend_find :: "lend_state \<Rightarrow> u64 \<Rightarrow> nat option" where
  "cap_lend_find s original =
     find (\<lambda>i. cr_in_use (g_lend_records s ! i) \<and> cr_original (g_lend_records s ! i) = original)
       [0..<AOS_LEASE_MAX_ACTIVE]"

definition cap_lend_find_free :: "lend_state \<Rightarrow> nat option" where
  "cap_lend_find_free s = find (\<lambda>i. \<not> cr_in_use (g_lend_records s ! i)) [0..<AOS_LEASE_MAX_ACTIVE]"

definition aos_cap_lend :: "sel4_kernel \<Rightarrow> lend_state \<Rightarrow> u64 \<Rightarrow> u64 \<Rightarrow> u64 \<Rightarrow> u64 \<Rightarrow> u64 \<Rightarrow> u64 \<Rightarrow>
    seL4_CapRights \<Rightarrow> u64 \<Rightarrow> int \<times> lend_state" where
  "aos_cap_lend k s0 src_root original src_depth dest_cnode dest_slot dest_depth rights badge =
     (let s = cap_lend_ensure_init s0 in
      if \<not> cap_lend_rights_is_strict_subset rights then (AOS_CAP_LEND_ERR_RIGHTS, s)
      else if cap_lend_find s original \<noteq> None then (AOS_CAP_LEND_ERR_LEASE, s)
      else
        (case cap_lend_find_free s of
           None \<Rightarrow> (AOS_CAP_LEND_ERR_LEASE, s)
         | Some rec \<Rightarrow>
             (case aos_lease_open (Some (g_lend_leases s)) (ucast badge) (cap_lend_pack_rights rights) of
                None \<Rightarrow> (AOS_CAP_LEND_ERR_LEASE, s)
              | Some (lease_id, leases) \<Rightarrow>
                  (case invoke k (ld_trace s)
                     (CNode_Mint dest_cnode dest_slot (ucast dest_depth) src_root original (ucast src_depth)
                        rights badge) of
                     (err, tr) \<Rightarrow>
                       if err \<noteq> seL4_NoError then
                         (AOS_CAP_LEND_ERR_MINT, s\<lparr>ld_trace := tr,
                            g_lend_leases := (case aos_lease_close (Some leases) lease_id of
                                                None \<Rightarrow> leases | Some leases' \<Rightarrow> leases')\<rparr>)
                       else
                         (AOS_CAP_LEND_OK, s\<lparr>ld_trace := tr, g_lend_leases := leases,
                            g_lend_records := (g_lend_records s)[rec := \<lparr>cr_in_use = True,
                              cr_original = original, cr_src_root = src_root, cr_src_depth = src_depth,
                              cr_lease_id = lease_id\<rparr>]\<rparr>)))))"

definition aos_cap_lend_revoke :: "sel4_kernel \<Rightarrow> lend_state \<Rightarrow> u64 \<Rightarrow> int \<times> lend_state" where
  "aos_cap_lend_revoke k s0 original =
     (let s = cap_lend_ensure_init s0 in
      case cap_lend_find s original of
        None \<Rightarrow> (AOS_CAP_LEND_ERR_NOT_FOUND, s)
      | Some rec \<Rightarrow>
          let r = g_lend_records s ! rec in
          (case invoke k (ld_trace s) (CNode_Revoke (cr_src_root r) original (ucast (cr_src_depth r))) of
             (err, tr) \<Rightarrow>
               if err \<noteq> seL4_NoError then (AOS_CAP_LEND_ERR_REVOKE, s\<lparr>ld_trace := tr\<rparr>)
               else
                 (case aos_lease_close (Some (g_lend_leases s)) (cr_lease_id r) of
                    None \<Rightarrow> (AOS_CAP_LEND_ERR_LEASE_CLOSE, s\<lparr>ld_trace := tr\<rparr>)
                  | Some leases \<Rightarrow>
                      (AOS_CAP_LEND_OK, s\<lparr>ld_trace := tr, g_lend_leases := leases,
                         g_lend_records := (g_lend_records s)[rec := zero_cap_lend_record]\<rparr>))))"

definition aos_cap_lend_lookup :: "lend_state \<Rightarrow> u64 \<Rightarrow> aos_lease option \<times> lend_state" where
  "aos_cap_lend_lookup s0 original =
     (let s = cap_lend_ensure_init s0 in
      (case cap_lend_find s original of
         None \<Rightarrow> None
       | Some rec \<Rightarrow> aos_lease_get (Some (g_lend_leases s)) (cr_lease_id (g_lend_records s ! rec)), s))"

section \<open>Loans in lock-step with leases and with the kernel history\<close>

definition rec_view :: "cap_lend_record \<Rightarrow> (u64 \<times> u32) option" where
  "rec_view r = (if cr_in_use r then Some (cr_original r, cr_lease_id r) else None)"

definition loan_of :: "lend_state \<Rightarrow> u64 \<Rightarrow> (u64 \<times> u8) option" where
  "loan_of s original = map_option
     (\<lambda>i. (cr_src_root (g_lend_records s ! i), ucast (cr_src_depth (g_lend_records s ! i))))
     (cap_lend_find s original)"

text \<open>What the accepted kernel calls say is on loan: minting from a capability puts it on loan, at
  the root and depth it was resolved with; revoking it ends the loan.\<close>

fun loan_step :: "(u64 \<Rightarrow> (u64 \<times> u8) option) \<Rightarrow> sel4_call \<Rightarrow> u64 \<Rightarrow> (u64 \<times> u8) option" where
  "loan_step L (CNode_Mint dr di dd sr si sd r b) = L(si := Some (sr, sd))"
| "loan_step L (CNode_Revoke root i d) = L(i := None)"
| "loan_step L _ = L"

definition kernel_loans :: "sel4_event list \<Rightarrow> u64 \<Rightarrow> (u64 \<times> u8) option" where
  "kernel_loans tr = foldl loan_step Map.empty (accepted tr)"

definition lend_ok :: "lend_state \<Rightarrow> bool" where
  "lend_ok s \<longleftrightarrow> g_lend_initialized s \<and>
     lease_tab.lockstep (map rec_view (g_lend_records s)) (g_lend_leases s) \<and>
     loan_of s = kernel_loans (ld_trace s)"

definition lend_inv :: "lend_state \<Rightarrow> bool" where
  "lend_inv s \<longleftrightarrow> (if g_lend_initialized s then lend_ok s else ld_trace s = [])"

lemma cap_lend_find_Some:
  assumes "cap_lend_find s original = Some i"
  shows "i < AOS_LEASE_MAX_ACTIVE" and "cr_in_use (g_lend_records s ! i)"
    and "cr_original (g_lend_records s ! i) = original"
  using assms by (auto simp: cap_lend_find_def find_index_iff)

lemma cap_lend_find_eq:
  assumes ls: "lease_tab.lockstep (map rec_view (g_lend_records s)) t"
    and i: "i < AOS_LEASE_MAX_ACTIVE" "cr_in_use (g_lend_records s ! i)"
      "cr_original (g_lend_records s ! i) = original"
  shows "cap_lend_find s original = Some i"
proof -
  have len: "length (g_lend_records s) = AOS_LEASE_MAX_ACTIVE"
    using lease_tab.lockstepD(2) [OF ls] by simp
  obtain a where a: "cap_lend_find s original = Some a"
    using i by (cases "cap_lend_find s original") (auto simp: cap_lend_find_def find_index_None)
  note fa = cap_lend_find_Some [OF a]
  have "map rec_view (g_lend_records s) ! a = Some (original, cr_lease_id (g_lend_records s ! a))"
    "map rec_view (g_lend_records s) ! i = Some (original, cr_lease_id (g_lend_records s ! i))"
    using fa i len by (simp_all add: rec_view_def)
  then have "a = i" using lease_tab.lockstepD(4) [OF ls fa(1) i(1)] by blast
  then show ?thesis using a by simp
qed

lemma lend_ok_init: "ld_trace s = [] \<Longrightarrow> lend_ok (aos_cap_lend_init s)"
proof -
  assume tr: "ld_trace s = []"
  let ?t = "g_lend_leases (aos_cap_lend_init s)"
  have "aos_lease_table_init (Some (g_lend_leases s)) = Some ?t"
    by (simp add: aos_cap_lend_init_def aos_lease_table_init_def)
  note t = lease_table_init_wf [OF this]
  have "map rec_view (g_lend_records (aos_cap_lend_init s)) = replicate AOS_LEASE_MAX_ACTIVE None"
    by (simp add: aos_cap_lend_init_def rec_view_def zero_cap_lend_record_def map_replicate_const comp_def)
  then have "lease_tab.lockstep (map rec_view (g_lend_records (aos_cap_lend_init s))) ?t"
    using lease_tab.lockstep_empty [OF t] by simp
  moreover have "cap_lend_find (aos_cap_lend_init s) original = None" for original
    by (simp add: cap_lend_find_def find_index_None aos_cap_lend_init_def zero_cap_lend_record_def)
  ultimately show ?thesis
    using tr by (auto simp: lend_ok_def loan_of_def kernel_loans_def aos_cap_lend_init_def)
qed

lemma lend_ok_ensure: "lend_inv s \<Longrightarrow> lend_ok (cap_lend_ensure_init s)"
  by (auto simp: lend_inv_def cap_lend_ensure_init_def lend_ok_init split: if_splits)

lemma lend_ok_inv: "lend_ok s \<Longrightarrow> lend_inv s"
  by (simp add: lend_inv_def lend_ok_def)

lemma kernel_loans_snoc:
  "kernel_loans (tr @ [Inv c err]) =
     (if err = seL4_NoError then loan_step (kernel_loans tr) c else kernel_loans tr)"
  by (simp add: kernel_loans_def)

lemma loan_of_frame:
  "g_lend_records s' = g_lend_records s \<Longrightarrow> loan_of s' = loan_of s"
  by (simp add: loan_of_def cap_lend_find_def fun_eq_iff)

lemma loan_of_update:
  assumes ls: "lease_tab.lockstep (map rec_view (g_lend_records s)) t"
    and ls': "lease_tab.lockstep (map rec_view ((g_lend_records s)[j := r])) t'"
    and j: "j < AOS_LEASE_MAX_ACTIVE" and s': "g_lend_records s' = (g_lend_records s)[j := r]"
    and r: "cr_in_use r \<Longrightarrow> cr_original r = original \<and> \<not> cr_in_use (g_lend_records s ! j) \<and> cap_lend_find s original = None"
    and nr: "\<not> cr_in_use r \<Longrightarrow> cap_lend_find s original = Some j"
  shows "loan_of s' = (loan_of s)(original :=
    (if cr_in_use r then Some (cr_src_root r, ucast (cr_src_depth r)) else None))"
proof
  fix x
  have len: "length (g_lend_records s) = AOS_LEASE_MAX_ACTIVE"
    using lease_tab.lockstepD(2) [OF ls] by simp
  have nth: "g_lend_records s' ! i = (if i = j then r else g_lend_records s ! i)"
    if "i < AOS_LEASE_MAX_ACTIVE" for i using that len by (simp add: s' nth_list_update)
  note f' = cap_lend_find_eq [of s', unfolded s', OF ls', folded s']
  note f = cap_lend_find_eq [OF ls]
  consider "x = original" "cr_in_use r" | "x = original" "\<not> cr_in_use r" | "x \<noteq> original" by blast
  then show "loan_of s' x = ((loan_of s)(original :=
      (if cr_in_use r then Some (cr_src_root r, ucast (cr_src_depth r)) else None))) x"
  proof cases
    case 1
    then have "cap_lend_find s' original = Some j" using r j nth by (intro f') auto
    then show ?thesis using 1 nth [OF j] by (simp add: loan_of_def)
  next
    case 2
    have "cap_lend_find s' original = None"
    proof (rule ccontr)
      assume "cap_lend_find s' original \<noteq> None"
      then obtain i where i: "cap_lend_find s' original = Some i" by blast
      note fi = cap_lend_find_Some [OF i]
      then have "i \<noteq> j" "cap_lend_find s original = Some i" using 2 nth f [of i] by (auto split: if_splits)
      then show False using nr 2 by simp
    qed
    then show ?thesis using 2 by (simp add: loan_of_def)
  next
    case 3
    have "cap_lend_find s' x = cap_lend_find s x"
    proof (cases "cap_lend_find s x")
      case None
      have "cap_lend_find s' x \<noteq> Some i" for i
        using 3 r None nth f [of i x] cap_lend_find_Some [of s' x i] cap_lend_find_Some [of s original j]
        by (cases "i = j") auto
      then show ?thesis using None by (cases "cap_lend_find s' x") auto
    next
      case (Some i)
      note fi = cap_lend_find_Some [OF Some]
      have "i \<noteq> j" using fi 3 r nr cap_lend_find_Some(3) [of s original j] by (cases "cr_in_use r") auto
      then show ?thesis using Some fi nth f' [of i x] by simp
    qed
    moreover have "i \<noteq> j" if "cap_lend_find s x = Some i" for i
      using cap_lend_find_Some [OF that] 3 r nr cap_lend_find_Some(3) [of s original j]
      by (cases "cr_in_use r") auto
    ultimately show ?thesis
      using 3 nth cap_lend_find_Some(1) [of s x] by (cases "cap_lend_find s x") (auto simp: loan_of_def)
  qed
qed

lemma lend_outcome:
  assumes "lend_inv s0" and "aos_cap_lend k s0 sr orig sd dc ds dd rights badge = (rc, s')"
  shows "lend_ok s'"
    and "rc = AOS_CAP_LEND_OK \<Longrightarrow> loan_of s' = (loan_of (cap_lend_ensure_init s0))(orig := Some (sr, ucast sd))"
    and "rc \<noteq> AOS_CAP_LEND_OK \<Longrightarrow> loan_of s' = loan_of (cap_lend_ensure_init s0)"
proof -
  let ?s = "cap_lend_ensure_init s0"
  have ok: "lend_ok ?s" using assms(1) by (rule lend_ok_ensure)
  then have ls: "lease_tab.lockstep (map rec_view (g_lend_records ?s)) (g_lend_leases ?s)"
    and loans: "loan_of ?s = kernel_loans (ld_trace ?s)" and ini: "g_lend_initialized ?s"
    by (simp_all add: lend_ok_def)
  have len: "length (g_lend_records ?s) = AOS_LEASE_MAX_ACTIVE"
    using lease_tab.lockstepD(2) [OF ls] by simp
  have "lend_ok s' \<and> (rc = AOS_CAP_LEND_OK \<longrightarrow> loan_of s' = (loan_of ?s)(orig := Some (sr, ucast sd))) \<and>
      (rc \<noteq> AOS_CAP_LEND_OK \<longrightarrow> loan_of s' = loan_of ?s)"
  proof (cases "cap_lend_rights_is_strict_subset rights \<and> cap_lend_find ?s orig = None \<and> cap_lend_find_free ?s \<noteq> None")
    case False
    then show ?thesis
      using assms(2) ok by (auto simp: aos_cap_lend_def Let_def cap_lend_codes split: if_splits option.splits)
  next
    case True
    then obtain j where find: "cap_lend_find ?s orig = None" and free: "cap_lend_find_free ?s = Some j" by blast
    then have j: "j < AOS_LEASE_MAX_ACTIVE" "\<not> cr_in_use (g_lend_records ?s ! j)"
      by (auto simp: cap_lend_find_free_def find_index_iff)
    let ?rs = "map rec_view (g_lend_records ?s)"
    have "?rs ! a \<noteq> Some (orig, i)" if "a < AOS_LEASE_MAX_ACTIVE" for a i
      using find that len by (auto simp: cap_lend_find_def find_index_None rec_view_def)
    moreover have "?rs ! j = None" using j len by (simp add: rec_view_def)
    ultimately obtain i t' t'' where o: "aos_lease_open (Some (g_lend_leases ?s)) (ucast badge)
          (cap_lend_pack_rights rights) = Some (i, t')"
      and ls1: "lease_tab.lockstep (?rs[j := Some (orig, i)]) t'"
      and c: "aos_lease_close (Some t') i = Some t''" and ls2: "lease_tab.lockstep ?rs t''"
      using lease_tab.lockstep_open [OF ls j(1), of orig] by blast
    let ?r = "\<lparr>cr_in_use = True, cr_original = orig, cr_src_root = sr, cr_src_depth = sd, cr_lease_id = i\<rparr>"
    let ?c = "CNode_Mint dc ds (ucast dd) sr orig (ucast sd) rights badge"
    show ?thesis
    proof (cases "k_invoke k (ld_trace ?s) ?c = seL4_NoError")
      case True
      then have rc: "rc = AOS_CAP_LEND_OK" and s': "s' = ?s\<lparr>ld_trace := ld_trace ?s @ [Inv ?c seL4_NoError],
          g_lend_leases := t', g_lend_records := (g_lend_records ?s)[j := ?r]\<rparr>"
        using assms(2) \<open>cap_lend_rights_is_strict_subset rights \<and> _\<close> free o
        by (simp_all add: aos_cap_lend_def Let_def invoke_def)
      have ls': "lease_tab.lockstep (map rec_view ((g_lend_records ?s)[j := ?r])) t'"
        using ls1 by (simp add: map_update rec_view_def)
      then have "loan_of s' = (loan_of ?s)(orig := Some (sr, ucast sd))"
        using loan_of_update [OF ls ls' j(1), of s' orig] find j(2) s' by simp
      then show ?thesis
        using rc ls' ini loans s' by (simp add: lend_ok_def kernel_loans_snoc)
    next
      case False
      then have "rc = AOS_CAP_LEND_ERR_MINT" "s' = ?s\<lparr>ld_trace := ld_trace ?s @ [Inv ?c (k_invoke k (ld_trace ?s) ?c)],
          g_lend_leases := t''\<rparr>"
        using assms(2) \<open>cap_lend_rights_is_strict_subset rights \<and> _\<close> free o c
        by (simp_all add: aos_cap_lend_def Let_def invoke_def)
      then show ?thesis
        using False ls2 ini loans loan_of_frame [of s' ?s]
        by (auto simp: lend_ok_def kernel_loans_snoc cap_lend_codes)
    qed
  qed
  then show "lend_ok s'" "rc = AOS_CAP_LEND_OK \<Longrightarrow> loan_of s' = (loan_of ?s)(orig := Some (sr, ucast sd))"
    "rc \<noteq> AOS_CAP_LEND_OK \<Longrightarrow> loan_of s' = loan_of ?s" by blast+
qed

lemma revoke_outcome:
  assumes "lend_inv s0" and "aos_cap_lend_revoke k s0 orig = (rc, s')"
  shows "lend_ok s'" and "rc \<noteq> AOS_CAP_LEND_ERR_LEASE_CLOSE"
    and "loan_of (cap_lend_ensure_init s0) orig = None \<Longrightarrow> rc = AOS_CAP_LEND_ERR_NOT_FOUND \<and> s' = cap_lend_ensure_init s0"
    and "loan_of (cap_lend_ensure_init s0) orig = Some (root, d) \<Longrightarrow>
      (\<exists>err. ld_trace s' = ld_trace (cap_lend_ensure_init s0) @ [Inv (CNode_Revoke root orig d) err] \<and>
        (if err = seL4_NoError
         then rc = AOS_CAP_LEND_OK \<and> loan_of s' = (loan_of (cap_lend_ensure_init s0))(orig := None)
         else rc = AOS_CAP_LEND_ERR_REVOKE \<and> loan_of s' = loan_of (cap_lend_ensure_init s0)))"
proof -
  let ?s = "cap_lend_ensure_init s0"
  have ok: "lend_ok ?s" using assms(1) by (rule lend_ok_ensure)
  then have ls: "lease_tab.lockstep (map rec_view (g_lend_records ?s)) (g_lend_leases ?s)"
    and loans: "loan_of ?s = kernel_loans (ld_trace ?s)" and ini: "g_lend_initialized ?s"
    by (simp_all add: lend_ok_def)
  have len: "length (g_lend_records ?s) = AOS_LEASE_MAX_ACTIVE"
    using lease_tab.lockstepD(2) [OF ls] by simp
  have "lend_ok s' \<and> rc \<noteq> AOS_CAP_LEND_ERR_LEASE_CLOSE \<and>
    (case loan_of ?s orig of
       None \<Rightarrow> rc = AOS_CAP_LEND_ERR_NOT_FOUND \<and> s' = ?s
     | Some (root, d) \<Rightarrow>
         (\<exists>err. ld_trace s' = ld_trace ?s @ [Inv (CNode_Revoke root orig d) err] \<and>
            (if err = seL4_NoError then rc = AOS_CAP_LEND_OK \<and> loan_of s' = (loan_of ?s)(orig := None)
             else rc = AOS_CAP_LEND_ERR_REVOKE \<and> loan_of s' = loan_of ?s)))"
  proof (cases "cap_lend_find ?s orig")
    case None
    then show ?thesis
      using assms(2) ok by (auto simp: aos_cap_lend_revoke_def Let_def loan_of_def cap_lend_codes)
  next
    case (Some j)
    note f = cap_lend_find_Some [OF Some]
    let ?r = "g_lend_records ?s ! j"
    let ?c = "CNode_Revoke (cr_src_root ?r) orig (ucast (cr_src_depth ?r))"
    let ?tr = "ld_trace ?s @ [Inv ?c (k_invoke k (ld_trace ?s) ?c)]"
    have loan: "loan_of ?s orig = Some (cr_src_root ?r, ucast (cr_src_depth ?r))"
      using Some by (simp add: loan_of_def)
    have "map rec_view (g_lend_records ?s) ! j = Some (orig, cr_lease_id ?r)"
      using f len by (simp add: rec_view_def)
    then obtain t' where c: "aos_lease_close (Some (g_lend_leases ?s)) (cr_lease_id ?r) = Some t'"
      and ls': "lease_tab.lockstep ((map rec_view (g_lend_records ?s))[j := None]) t'"
      using lease_tab.lockstep_close [OF ls f(1)] by blast
    have ls'': "lease_tab.lockstep (map rec_view ((g_lend_records ?s)[j := zero_cap_lend_record])) t'"
      using ls' by (simp add: map_update rec_view_def zero_cap_lend_record_def)
    show ?thesis
    proof (cases "k_invoke k (ld_trace ?s) ?c = seL4_NoError")
      case True
      then have s': "rc = AOS_CAP_LEND_OK" "s' = ?s\<lparr>ld_trace := ?tr, g_lend_leases := t',
          g_lend_records := (g_lend_records ?s)[j := zero_cap_lend_record]\<rparr>"
        using assms(2) Some c by (simp_all add: aos_cap_lend_revoke_def Let_def invoke_def)
      have "loan_of s' = (loan_of ?s)(orig := None)"
        using loan_of_update [OF ls ls'' f(1), of s' orig] Some s'(2) by (simp add: zero_cap_lend_record_def)
      moreover from this have "lend_ok s'"
        using True s' ls'' ini loans by (simp add: lend_ok_def kernel_loans_snoc)
      ultimately show ?thesis
        using True s' by (simp add: loan cap_lend_codes)
    next
      case False
      then have s': "rc = AOS_CAP_LEND_ERR_REVOKE" "s' = ?s\<lparr>ld_trace := ?tr\<rparr>"
        using assms(2) Some by (simp_all add: aos_cap_lend_revoke_def Let_def invoke_def)
      moreover have "loan_of s' = loan_of ?s" using s'(2) by (intro loan_of_frame) simp
      moreover from this have "lend_ok s'"
        using False s' ls ini loans by (simp add: lend_ok_def kernel_loans_snoc)
      ultimately show ?thesis
        using False by (simp add: loan cap_lend_codes)
    qed
  qed
  then show "lend_ok s'" "rc \<noteq> AOS_CAP_LEND_ERR_LEASE_CLOSE"
    "loan_of ?s orig = None \<Longrightarrow> rc = AOS_CAP_LEND_ERR_NOT_FOUND \<and> s' = ?s"
    "loan_of ?s orig = Some (root, d) \<Longrightarrow>
      (\<exists>err. ld_trace s' = ld_trace ?s @ [Inv (CNode_Revoke root orig d) err] \<and>
        (if err = seL4_NoError then rc = AOS_CAP_LEND_OK \<and> loan_of s' = (loan_of ?s)(orig := None)
         else rc = AOS_CAP_LEND_ERR_REVOKE \<and> loan_of s' = loan_of ?s))" by auto
qed

text \<open>The states a protection domain that uses the module can be in, for a given kernel.\<close>

inductive lend_reach :: "sel4_kernel \<Rightarrow> lend_state \<Rightarrow> bool" for k where
  start: "lend_reach k zero_lend_state"
| init: "lend_reach k s \<Longrightarrow> ld_trace s = [] \<Longrightarrow> lend_reach k (aos_cap_lend_init s)"
| lend: "lend_reach k s \<Longrightarrow>
    aos_cap_lend k s src_root original src_depth dest_cnode dest_slot dest_depth rights badge = (rc, s') \<Longrightarrow>
    lend_reach k s'"
| revoke: "lend_reach k s \<Longrightarrow> aos_cap_lend_revoke k s original = (rc, s') \<Longrightarrow> lend_reach k s'"
| lookup: "lend_reach k s \<Longrightarrow> aos_cap_lend_lookup s original = (l, s') \<Longrightarrow> lend_reach k s'"

lemma lend_reach_inv: "lend_reach k s \<Longrightarrow> lend_inv s"
proof (induction rule: lend_reach.induct)
  case start
  then show ?case by (simp add: lend_inv_def zero_lend_state_def)
next
  case (init s)
  then show ?case by (intro lend_ok_inv lend_ok_init)
next
  case (lend s sr orig sd dc ds dd rights badge rc s')
  then show ?case by (intro lend_ok_inv) (rule lend_outcome(1))
next
  case (revoke s orig rc s')
  then show ?case by (intro lend_ok_inv) (rule revoke_outcome(1))
next
  case (lookup s orig l s')
  then show ?case
    by (auto simp: aos_cap_lend_lookup_def Let_def intro: lend_ok_inv lend_ok_ensure)
qed

section \<open>Properties\<close>

text \<open>
  C11. A closed lease never comes back: once an identifier has been closed, then through any further
  opens and closes (fewer than the 24-bit generation counter can count) no open hands the identifier
  out again, closing it again fails, and looking it up finds nothing live.
\<close>

theorem lease_close_final:
  assumes "lease_wf t" and "gens_below n t" and "aos_lease_close (Some t) i = Some t1"
    and "lease_run t1 ops = (ids, t2)" and "n + length ids < 2 ^ 24"
  shows "i \<notin> set ids \<and> aos_lease_close (Some t2) i = None \<and>
    (\<forall>l. aos_lease_get (Some t2) i = Some l \<longrightarrow> ls_state l = AOS_LEASE_REVOKED)"
proof -
  note c = lease_close_gens [OF assms(1,3)]
  note r = lease_run_gens [OF c(1) c(2) [OF assms(2)] assms(4,5)]
  have spent2: "spent t2 i" and "i \<notin> set ids" using r(4) [OF c(3)] by auto
  moreover have "aos_lease_close (Some t2) i = None"
    by (rule aos_lease_close_dead [OF r(1) spent_not_live [OF r(1) spent2]])
  moreover have "ls_state l = AOS_LEASE_REVOKED" if "aos_lease_get (Some t2) i = Some l" for l
    using that spent2 by (auto simp: aos_lease_get_def spent_def slot_of_def Let_def split: if_splits)
  ultimately show ?thesis by blast
qed

lemma lease_table_init_gens:
  assumes "aos_lease_table_init (Some t0) = Some t"
  shows "gens_below 0 t"
  using assms lease_id_parts(2) [of _ 0]
  by (auto simp: gens_below_def gen_of_def aos_lease_table_init_def unat_of_nat AOS_LEASE_MAX_ACTIVE_def)

text \<open>
  C12. Lease identifiers are unique: all identifiers handed out since the table was initialised are
  distinct, whatever opens and closes happened, up to the span of the generation counter.
\<close>

theorem lease_ids_unique:
  assumes "aos_lease_table_init (Some t0) = Some t" and "lease_run t ops = (ids, t')"
    and "length ids < 2 ^ 24"
  shows "distinct ids"
proof -
  show ?thesis
    using lease_run_gens(2) [OF lease_table_init_wf(1) [OF assms(1)] lease_table_init_gens [OF assms(1)] assms(2)]
      assms(3) by simp
qed

text \<open>
  C13. The lending records are exactly the loans the kernel knows of: in every reachable state the
  module has a record for a capability precisely when the accepted kernel calls leave it on loan,
  with the root and depth it was minted through; and the live leases are exactly those of the
  records, one each.
\<close>

theorem lend_tracks_kernel:
  assumes "lend_reach k s" and "g_lend_initialized s"
  shows "loan_of s = kernel_loans (ld_trace s) \<and>
    live_leases (g_lend_leases s) = {cr_lease_id r | r. r \<in> set (g_lend_records s) \<and> cr_in_use r} \<and>
    (\<forall>a < AOS_LEASE_MAX_ACTIVE. \<forall>b < AOS_LEASE_MAX_ACTIVE.
       cr_in_use (g_lend_records s ! a) \<and> cr_in_use (g_lend_records s ! b) \<and> a \<noteq> b \<longrightarrow>
       cr_original (g_lend_records s ! a) \<noteq> cr_original (g_lend_records s ! b))"
proof -
  have ok: "lend_ok s" using lend_reach_inv [OF assms(1)] assms(2) by (simp add: lend_inv_def)
  then have ls: "lease_tab.lockstep (map rec_view (g_lend_records s)) (g_lend_leases s)"
    by (simp add: lend_ok_def)
  note d = lease_tab.lockstepD [OF ls]
  have "live_leases (g_lend_leases s) = {cr_lease_id r | r. r \<in> set (g_lend_records s) \<and> cr_in_use r}"
    using d(2) unfolding d(3) by (auto simp: rec_view_def in_set_conv_nth split: if_splits)
  moreover have "cr_original (g_lend_records s ! a) \<noteq> cr_original (g_lend_records s ! b)"
    if "a < AOS_LEASE_MAX_ACTIVE" "b < AOS_LEASE_MAX_ACTIVE" "a \<noteq> b"
      "cr_in_use (g_lend_records s ! a)" "cr_in_use (g_lend_records s ! b)" for a b
    using d(2) that by (intro d(4) [OF that(1,2) _ _ that(3)]) (auto simp: rec_view_def)
  ultimately show ?thesis using ok by (auto simp: lend_ok_def)
qed

text \<open>
  C14. Revoking a loan names the lender's own original: for a capability the kernel history shows on
  loan, revoking makes exactly one kernel call, a revoke of the original through the root and depth
  it was lent from; success ends the loan, a kernel failure leaves it in place for a retry, and the
  bookkeeping never fails.
\<close>

theorem lend_revoke_exact:
  assumes "lend_reach k s" and "kernel_loans (ld_trace s) original = Some (root, d)"
    and "aos_cap_lend_revoke k s original = (rc, s')"
  shows "\<exists>err. ld_trace s' = ld_trace s @ [Inv (CNode_Revoke root original d) err] \<and>
    rc = (if err = seL4_NoError then AOS_CAP_LEND_OK else AOS_CAP_LEND_ERR_REVOKE) \<and>
    loan_of s' original = (if err = seL4_NoError then None else Some (root, d))"
proof -
  have inv: "lend_inv s" using assms(1) by (rule lend_reach_inv)
  have "ld_trace s \<noteq> []" using assms(2) by (auto simp: kernel_loans_def)
  then have ok: "lend_ok s" and eq: "cap_lend_ensure_init s = s"
    using inv by (auto simp: lend_inv_def cap_lend_ensure_init_def split: if_splits)
  then have loan: "loan_of s original = Some (root, d)"
    using assms(2) by (simp add: lend_ok_def)
  obtain err where err: "ld_trace s' = ld_trace s @ [Inv (CNode_Revoke root original d) err]"
    "if err = seL4_NoError then rc = AOS_CAP_LEND_OK \<and> loan_of s' = (loan_of s)(original := None)
     else rc = AOS_CAP_LEND_ERR_REVOKE \<and> loan_of s' = loan_of s"
    using revoke_outcome(4) [OF inv assms(3), unfolded eq, OF loan] by blast
  show ?thesis
    using err loan by (intro exI [of _ err]) (simp split: if_splits)
qed

lemma ensure_init_trace [simp]: "ld_trace (cap_lend_ensure_init s) = ld_trace s"
  by (simp add: cap_lend_ensure_init_def aos_cap_lend_init_def)

lemma lend_trace:
  assumes "aos_cap_lend k s sr orig sd dc ds dd rights badge = (rc, s')"
  shows "ld_trace s' = ld_trace s \<or> rights \<noteq> seL4_AllRights \<and>
    (\<exists>err. ld_trace s' = ld_trace s @ [Inv (CNode_Mint dc ds (ucast dd) sr orig (ucast sd) rights badge) err])"
  using assms
  by (auto simp: aos_cap_lend_def Let_def invoke_def seL4_AllRights_def cap_lend_rights_is_strict_subset_def
      split: if_splits option.splits)

lemma revoke_trace:
  assumes "aos_cap_lend_revoke k s orig = (rc, s')"
  shows "ld_trace s' = ld_trace s \<or> (\<exists>root d err. ld_trace s' = ld_trace s @ [Inv (CNode_Revoke root orig d) err])"
  using assms by (auto simp: aos_cap_lend_revoke_def Let_def invoke_def split: if_splits option.splits)

definition narrowing_call :: "sel4_call \<Rightarrow> bool" where
  "narrowing_call c =
     (case c of CNode_Revoke _ _ _ \<Rightarrow> True | CNode_Mint _ _ _ _ _ _ r _ \<Rightarrow> r \<noteq> seL4_AllRights | _ \<Rightarrow> False)"

lemma narrowing_call_simps [simp]:
  "narrowing_call (CNode_Revoke root i d)"
  "narrowing_call (CNode_Mint dr di dd sr si sd r b) \<longleftrightarrow> r \<noteq> seL4_AllRights"
  by (simp_all add: narrowing_call_def)

text \<open>
  C15. A loan always narrows authority: in every reachable state, every kernel call the module ever
  made is either a revoke or a mint whose rights leave out at least one right.
\<close>

theorem lend_only_narrows:
  assumes "lend_reach k s" and "Inv c err \<in> set (ld_trace s)"
  shows "narrowing_call c"
proof -
  have "list_all (\<lambda>e. \<forall>c err. e = Inv c err \<longrightarrow> narrowing_call c) (ld_trace s)"
    using assms(1)
  proof (induction rule: lend_reach.induct)
    case (lend s sr orig sd dc ds dd rights badge rc s')
    show ?case using lend_trace [OF lend.hyps(2)] lend.IH by auto
  next
    case (revoke s orig rc s')
    show ?case using revoke_trace [OF revoke.hyps(2)] revoke.IH by auto
  qed (auto simp: zero_lend_state_def aos_cap_lend_init_def aos_cap_lend_lookup_def Let_def)
  then show ?thesis using assms(2) by (auto simp: list_all_iff)
qed

section \<open>Witnesses\<close>

text \<open>An initialised lease table, and the table after one lease to domain 5 has been opened.\<close>

definition ex_leases :: aos_lease_table where
  "ex_leases = the (aos_lease_table_init (Some \<lparr>lt_slots = []\<rparr>))"

definition ex_lease_open :: aos_lease_table where
  "ex_lease_open = snd (the (aos_lease_open (Some ex_leases) 5 3))"

lemma ex_lease_table:
  "aos_lease_table_init (Some \<lparr>lt_slots = []\<rparr>) = Some ex_leases"
  by (simp add: ex_leases_def aos_lease_table_init_def)

abbreviation (input) ex_slot :: "u32 \<Rightarrow> u32 \<Rightarrow> u32 \<Rightarrow> aos_lease_state \<Rightarrow> aos_lease" where
  "ex_slot i pd r st \<equiv> \<lparr>ls_lease_id = i, ls_borrower_pd = pd, ls_rights = r, ls_state = st\<rparr>"

lemma ex_leases_eval: "ex_leases = \<lparr>lt_slots = map (\<lambda>i. ex_slot i 0 0 AOS_LEASE_FREE) [0, 1, 2, 3, 4, 5, 6, 7]\<rparr>"
  by (simp add: ex_leases_def aos_lease_table_init_def AOS_LEASE_MAX_ACTIVE_def upt_rec
      lease_make_id_def lease_bits)

lemmas lease_eval = ex_leases_eval aos_lease_open_def aos_lease_close_def aos_lease_get_def
  lease_make_id_def lease_id_slot_def lease_id_gen_def lease_bits
  AOS_LEASE_MAX_ACTIVE_def Let_def

theorem lease_ids_unique_witness:
  "\<exists>t'. lease_run ex_leases [Open 5 3, Close 0, Open 6 1] = ([0, 256], t') \<and> distinct [0, 256 :: u32]"
proof -
  obtain t where run: "lease_run ex_leases [Open 5 3, Close 0, Open 6 1] = ([0, 256], t)"
    by (simp add: lease_eval)
  with lease_ids_unique [OF ex_lease_table run] show ?thesis by auto
qed

theorem lease_close_final_witness:
  "\<exists>t1 t2. aos_lease_close (Some ex_lease_open) 0 = Some t1 \<and>
     lease_run t1 [Open 6 1, Close 0] = ([256], t2) \<and> aos_lease_close (Some t2) 0 = None"
proof -
  have t: "ex_lease_open = \<lparr>lt_slots = ex_slot 0 5 3 AOS_LEASE_ACTIVE #
      map (\<lambda>i. ex_slot i 0 0 AOS_LEASE_FREE) [1, 2, 3, 4, 5, 6, 7]\<rparr>"
    by (simp add: ex_lease_open_def lease_eval)
  have "aos_lease_open (Some ex_leases) 5 3 = Some (0, ex_lease_open)"
    unfolding t by (simp add: lease_eval)
  note o = aos_lease_open_live(1) [OF lease_table_init_wf(1) [OF ex_lease_table] this]
    lease_open_gens(1) [OF lease_table_init_wf(1) [OF ex_lease_table] lease_table_init_gens [OF ex_lease_table] _ this]
  have wf: "lease_wf ex_lease_open" "gens_below (Suc 0) ex_lease_open" using o by simp_all
  obtain t1 where close: "aos_lease_close (Some ex_lease_open) 0 = Some t1"
    and t1: "t1 = \<lparr>lt_slots = ex_slot 0 5 3 AOS_LEASE_REVOKED #
      map (\<lambda>i. ex_slot i 0 0 AOS_LEASE_FREE) [1, 2, 3, 4, 5, 6, 7]\<rparr>"
    by (simp add: t lease_eval)
  obtain t2 where run: "lease_run t1 [Open 6 1, Close 0] = ([256], t2)"
    by (simp add: t1 lease_eval)
  with close lease_close_final [OF wf close run] show ?thesis by auto
qed

text \<open>A domain that has lent the frame in slot 47 of its own CNode, read-only, to a borrower.\<close>

definition read_only :: seL4_CapRights where
  "read_only = \<lparr>capAllowGrantReply = False, capAllowGrant = False, capAllowRead = True, capAllowWrite = False\<rparr>"

definition ex_lent :: lend_state where
  "ex_lent = snd (aos_cap_lend kernel_ok zero_lend_state 46 47 8 46 48 8 read_only 0xCA9)"

lemma ex_lent_reach: "lend_reach kernel_ok ex_lent"
  unfolding ex_lent_def by (rule lend_reach.lend [OF lend_reach.start prod.collapse [symmetric]])

lemma ex_lent_eval:
  "ld_trace ex_lent = [Inv (CNode_Mint 46 48 8 46 47 8 read_only 0xCA9) seL4_NoError]"
  "g_lend_initialized ex_lent" "loan_of ex_lent 47 = Some (46, 8)"
proof -
  have init: "cap_lend_ensure_init zero_lend_state = zero_lend_state\<lparr>g_lend_leases := ex_leases, g_lend_initialized := True\<rparr>"
    by (simp add: cap_lend_ensure_init_def aos_cap_lend_init_def zero_lend_state_def ex_leases_def
        aos_lease_table_init_def map_replicate_const)
  have find: "cap_lend_find_free (zero_lend_state\<lparr>g_lend_leases := t, g_lend_initialized := True\<rparr>) = Some 0"
    "cap_lend_find (zero_lend_state\<lparr>g_lend_leases := t, g_lend_initialized := True\<rparr>) 47 = None" for t
    by (simp_all add: cap_lend_find_free_def cap_lend_find_def find_index_iff find_index_None
        zero_lend_state_def zero_cap_lend_record_def AOS_LEASE_MAX_ACTIVE_def)
  have lent: "ex_lent = zero_lend_state\<lparr>g_lend_initialized := True,
      ld_trace := [Inv (CNode_Mint 46 48 8 46 47 8 read_only 0xCA9) seL4_NoError],
      g_lend_leases := snd (the (aos_lease_open (Some ex_leases) 0xCA9 2)),
      g_lend_records := (replicate 8 zero_cap_lend_record)[0 := \<lparr>cr_in_use = True, cr_original = 47,
        cr_src_root = 46, cr_src_depth = 8, cr_lease_id = 0\<rparr>]\<rparr>"
    unfolding ex_lent_def aos_cap_lend_def init Let_def
    by (simp add: find read_only_def cap_lend_rights_is_strict_subset_def cap_lend_pack_rights_def
        invoke_def kernel_ok_def lease_eval) (simp add: zero_lend_state_def AOS_LEASE_MAX_ACTIVE_def)
  show "ld_trace ex_lent = [Inv (CNode_Mint 46 48 8 46 47 8 read_only 0xCA9) seL4_NoError]"
    "g_lend_initialized ex_lent" unfolding lent by simp_all
  have "cap_lend_find ex_lent 47 = Some 0"
    unfolding lent by (simp add: cap_lend_find_def find_index_iff AOS_LEASE_MAX_ACTIVE_def)
  then show "loan_of ex_lent 47 = Some (46, 8)"
    unfolding loan_of_def by (simp add: lent)
qed

theorem lend_tracks_kernel_witness:
  "kernel_loans (ld_trace ex_lent) 47 = Some (46, 8) \<and> loan_of ex_lent 47 = Some (46, 8)"
  using lend_tracks_kernel [OF ex_lent_reach ex_lent_eval(2)] ex_lent_eval(3) by auto

theorem lend_revoke_exact_witness:
  "\<exists>s'. aos_cap_lend_revoke kernel_ok ex_lent 47 = (AOS_CAP_LEND_OK, s') \<and> loan_of s' 47 = None"
proof -
  obtain rc s' where r: "aos_cap_lend_revoke kernel_ok ex_lent 47 = (rc, s')" by fastforce
  have "kernel_loans (ld_trace ex_lent) 47 = Some (46, 8)"
    by (simp add: ex_lent_eval(1) kernel_loans_def)
  from lend_revoke_exact [OF ex_lent_reach this r] obtain err where
    err: "ld_trace s' = ld_trace ex_lent @ [Inv (CNode_Revoke 46 47 8) err]"
    "rc = (if err = seL4_NoError then AOS_CAP_LEND_OK else AOS_CAP_LEND_ERR_REVOKE)"
    "loan_of s' 47 = (if err = seL4_NoError then None else Some (46, 8))" by blast
  have ok: "Inv c e \<in> set (ld_trace s') \<Longrightarrow> e = seL4_NoError" for c e
    using r by (auto simp: aos_cap_lend_revoke_def Let_def invoke_def kernel_ok_def ex_lent_eval(1)
        split: option.splits if_splits)
  have "err = seL4_NoError" by (rule ok [of "CNode_Revoke 46 47 8"]) (simp add: err(1))
  with r err show ?thesis by simp
qed

theorem lend_only_narrows_witness:
  "lend_reach kernel_ok ex_lent \<and> narrowing_call (CNode_Mint 46 48 8 46 47 8 read_only 0xCA9)"
  using lend_only_narrows [OF ex_lent_reach, of "CNode_Mint 46 48 8 46 47 8 read_only 0xCA9" seL4_NoError]
    ex_lent_reach ex_lent_eval(1) by simp

end
