(* ===== verification/Fmt.thy ===== *)
theory Fmt
  imports AosPrelude
begin

text \<open>
  The bounded text printer that \<open>platform/inspect/authority.c\<close> and
  \<open>platform/inspect/inspect_snapshot.c\<close> both carry: a cursor that appends characters to a buffer
  and fails at its end.  The buffer is the text written so far; \<open>lim\<close> is the room before the
  terminating NUL (\<open>buflen - 1\<close>).  A printer \<^emph>\<open>emits\<close> a string when it writes it whole if it fits and
  otherwise writes as much as fits and fails; printers compose like the strings they emit.
\<close>

type_synonym printer = "nat \<Rightarrow> string \<Rightarrow> bool \<times> string"

definition putc_raw :: "char \<Rightarrow> printer" where
  "putc_raw c lim out = (if lim \<le> length out then (False, out) else (True, out @ [c]))"

text \<open>The \<open>||\<close> chains and loops of the sources stop at the first printer that fails.\<close>

definition seq :: "printer \<Rightarrow> printer \<Rightarrow> printer" where
  "seq f g lim out = (case f lim out of (ok, out') \<Rightarrow> if ok then g lim out' else (False, out'))"

definition done_ok :: printer where
  "done_ok lim out = (True, out)"

fun puts_raw :: "string \<Rightarrow> printer" where
  "puts_raw [] = done_ok"
| "puts_raw (c # s) = (if c = CHR 0x00 then done_ok else seq (putc_raw c) (puts_raw s))"

fun seq_list :: "printer list \<Rightarrow> printer" where
  "seq_list [] = done_ok"
| "seq_list (f # fs) = seq f (seq_list fs)"

text \<open>Writing characters from the last to the first, as the digit loops do with their scratch array.\<close>

definition put_rev :: "string \<Rightarrow> printer" where
  "put_rev tmp = seq_list (map putc_raw (rev tmp))"

fun u64_digits :: "nat \<Rightarrow> u64 \<Rightarrow> string" where
  "u64_digits 0 v = []"
| "u64_digits (Suc room) v =
     (if v = 0 then [] else char_of (48 + unat (v mod 10)) # u64_digits room (v div 10))"

definition put_u64 :: "u64 \<Rightarrow> printer" where
  "put_u64 v = (if v = 0 then putc_raw CHR ''0'' else put_rev (u64_digits 20 v))"

definition hex_digits :: string where
  "hex_digits = ''0123456789abcdef''"

unbundle bit_operations_syntax

fun u64_nibbles :: "nat \<Rightarrow> u64 \<Rightarrow> string" where
  "u64_nibbles 0 v = []"
| "u64_nibbles (Suc room) v =
     (if v = 0 then [] else hex_digits ! unat (v AND 0xf) # u64_nibbles room (drop_bit 4 v))"

definition put_hex64 :: "u64 \<Rightarrow> printer" where
  "put_hex64 v = seq (puts_raw ''0x'')
     (if v = 0 then putc_raw CHR ''0'' else put_rev (u64_nibbles 16 v))"

definition line_u64 :: "string \<Rightarrow> u64 \<Rightarrow> printer" where
  "line_u64 key val = seq (puts_raw key) (seq (putc_raw CHR ''='') (seq (put_u64 val) (putc_raw CHR 0x0A)))"

definition line_hex :: "string \<Rightarrow> u64 \<Rightarrow> printer" where
  "line_hex key val = seq (puts_raw key) (seq (putc_raw CHR ''='') (seq (put_hex64 val) (putc_raw CHR 0x0A)))"

definition line_str :: "string \<Rightarrow> string \<Rightarrow> printer" where
  "line_str key val = seq (puts_raw key) (seq (putc_raw CHR ''='') (seq (puts_raw val) (putc_raw CHR 0x0A)))"

section \<open>What a printer emits\<close>

definition emits :: "printer \<Rightarrow> string \<Rightarrow> bool" where
  "emits f s \<longleftrightarrow> (\<forall>lim out. length out \<le> lim \<longrightarrow>
     f lim out = (length out + length s \<le> lim, take lim (out @ s)))"

named_theorems emits_intros \<open>what each printer emits\<close>

lemma emits_done [emits_intros]: "emits done_ok []"
  by (simp add: emits_def done_ok_def)

lemma emits_putc [emits_intros]: "emits (putc_raw c) [c]"
  by (auto simp: emits_def putc_raw_def)

lemma emits_seq [emits_intros]:
  assumes "emits f s" and "emits g t"
  shows "emits (seq f g) (s @ t)"
  unfolding emits_def
proof (intro allI impI)
  fix lim :: nat and out :: string
  assume len: "length out \<le> lim"
  have f: "f lim out = (length out + length s \<le> lim, take lim (out @ s))"
    using assms(1) len by (simp add: emits_def)
  show "seq f g lim out = (length out + length (s @ t) \<le> lim, take lim (out @ s @ t))"
  proof (cases "length out + length s \<le> lim")
    case True
    then have "g lim (out @ s) = (length (out @ s) + length t \<le> lim, take lim ((out @ s) @ t))"
      using assms(2) by (simp add: emits_def)
    then show ?thesis using f True by (simp add: seq_def add.assoc)
  next
    case False
    then show ?thesis using f by (simp add: seq_def)
  qed
qed

lemma emits_seq_list:
  assumes "length fs = length ss" and "\<And>i. i < length fs \<Longrightarrow> emits (fs ! i) (ss ! i)"
  shows "emits (seq_list fs) (concat ss)"
  using assms
proof (induction fs arbitrary: ss)
  case (Cons f fs)
  then obtain s ss' where ss: "ss = s # ss'" by (cases ss) auto
  have "emits f s" using Cons.prems(2) [of 0] ss by simp
  moreover have "emits (seq_list fs) (concat ss')"
    using Cons.prems(1) Cons.prems(2) [of "Suc i" for i] ss by (intro Cons.IH) auto
  ultimately show ?case using ss by (simp add: emits_seq)
qed (simp add: emits_done)

lemma emits_map:
  assumes "\<And>x. x \<in> set xs \<Longrightarrow> emits (f x) (g x)"
  shows "emits (seq_list (map f xs)) (concat (map g xs))"
  by (rule emits_seq_list) (simp_all add: assms)

definition c_string :: "string \<Rightarrow> string" where
  "c_string s = takeWhile (\<lambda>c. c \<noteq> CHR 0x00) s"

lemma c_string_literal: "CHR 0x00 \<notin> set s \<Longrightarrow> c_string s = s"
  unfolding c_string_def takeWhile_eq_all_conv by blast

lemma emits_puts [emits_intros]: "emits (puts_raw s) (c_string s)"
proof (induction s)
  case (Cons c s)
  then show ?case
    using emits_seq [OF emits_putc Cons, of c] by (auto simp: c_string_def emits_done)
qed (simp add: c_string_def emits_done)

lemma emits_puts_literal: "CHR 0x00 \<notin> set s \<Longrightarrow> emits (puts_raw s) s"
  using emits_puts [of s] by (simp add: c_string_literal)

lemma emits_put_rev: "emits (put_rev tmp) (rev tmp)"
  using emits_map [of "rev tmp" putc_raw "\<lambda>c. [c]"] emits_putc by (simp add: put_rev_def)

section \<open>Numbers\<close>

text \<open>The reference numerals, most significant digit first.\<close>

definition digit :: "nat \<Rightarrow> char" where
  "digit d = (if d < 10 then char_of (48 + d) else char_of (87 + d))"

fun numeral_text :: "nat \<Rightarrow> nat \<Rightarrow> string" where
  "numeral_text b n =
     (if b < 2 \<or> n < b then [digit n] else numeral_text b (n div b) @ [digit (n mod b)])"

declare numeral_text.simps [simp del]

abbreviation dec :: "nat \<Rightarrow> string" where "dec \<equiv> numeral_text 10"
abbreviation hex :: "nat \<Rightarrow> string" where "hex \<equiv> numeral_text 16"

lemma digit_0: "char_of (48 :: nat) = CHR ''0''"
  by code_simp

lemma rev_u64_digits:
  "0 < unat v \<Longrightarrow> unat v < 10 ^ room \<Longrightarrow> rev (u64_digits room v) = dec (unat v)"
proof (induction room arbitrary: v)
  case (Suc room)
  have div: "unat (v div 10) = unat v div 10" and md: "unat (v mod 10) = unat v mod 10"
    by (simp_all add: unat_div unat_mod)
  show ?case
  proof (cases "unat v < 10")
    case True
    then have "v div 10 = 0" using div by (simp flip: unat_eq_0_iff)
    then have "u64_digits room (v div 10) = []" by (cases room) simp_all
    then show ?thesis using Suc.prems True md by (simp add: numeral_text.simps [of 10 "unat v"] digit_def)
  next
    case False
    then have "rev (u64_digits room (v div 10)) = dec (unat v div 10)"
      using Suc.IH [of "v div 10"] Suc.prems div by (simp add: div_less_iff_less_mult) 
    then show ?thesis
      using Suc.prems False md by (simp add: numeral_text.simps [of 10 "unat v"] digit_def)
  qed
qed simp

lemma emits_u64 [emits_intros]: "emits (put_u64 v) (dec (unat v))"
proof (cases "v = 0")
  case True
  then show ?thesis
    using emits_putc [of "CHR ''0''"] by (simp add: put_u64_def numeral_text.simps digit_def digit_0)
next
  case False
  have "unat v < 2 ^ 64" using unsigned_less [of v, where ?'a = nat] by simp
  then have "rev (u64_digits 20 v) = dec (unat v)" using False by (intro rev_u64_digits) simp_all
  then show ?thesis using emits_put_rev [of "u64_digits 20 v"] False by (simp add: put_u64_def)
qed

lemma hex_digit: "d < 16 \<Longrightarrow> hex_digits ! d = digit d"
proof -
  have "list_all (\<lambda>d. hex_digits ! d = digit d) [0..<16]" by code_simp
  then show "d < 16 \<Longrightarrow> hex_digits ! d = digit d" by (simp add: list_all_iff)
qed

lemma rev_u64_nibbles:
  "0 < unat v \<Longrightarrow> unat v < 16 ^ room \<Longrightarrow> rev (u64_nibbles room v) = hex (unat v)"
proof (induction room arbitrary: v)
  case (Suc room)
  have div: "unat (drop_bit 4 v) = unat v div 16"
    using unsigned_less [of v, where ?'a = nat]
    by (simp add: unsigned_drop_bit_eq drop_bit_nat_def take_bit_nat_eq_self)
  have "v AND 0xf = take_bit 4 v" by (simp add: take_bit_eq_mask mask_eq_exp_minus_1)
  then have md: "unat (v AND 0xf) = unat v mod 16"
    by (simp add: unsigned_take_bit_eq take_bit_nat_def)
  show ?case
  proof (cases "unat v < 16")
    case True
    then have "drop_bit 4 v = 0" using div by (simp flip: unat_eq_0_iff)
    then have "u64_nibbles room (drop_bit 4 v) = []" by (cases room) simp_all
    then show ?thesis using Suc.prems True md
      by (simp add: numeral_text.simps [of 16 "unat v"] hex_digit)
  next
    case False
    then have "rev (u64_nibbles room (drop_bit 4 v)) = hex (unat v div 16)"
      using Suc.IH [of "drop_bit 4 v"] Suc.prems div by (simp add: div_less_iff_less_mult flip: unat_pos_iff)
    then show ?thesis
      using Suc.prems False md by (simp add: numeral_text.simps [of 16 "unat v"] hex_digit)
  qed
qed simp

lemma emits_hex64 [emits_intros]: "emits (put_hex64 v) (''0x'' @ hex (unat v))"
  unfolding put_hex64_def
proof (rule emits_seq)
  show "emits (puts_raw ''0x'') ''0x''" by (rule emits_puts_literal) simp
  have "unat v < 16 ^ 16" using unsigned_less [of v, where ?'a = nat] by simp
  then have "rev (u64_nibbles 16 v) = hex (unat v)" if "v \<noteq> 0"
    using that by (intro rev_u64_nibbles) simp_all
  then show "emits (if v = 0 then putc_raw CHR ''0'' else put_rev (u64_nibbles 16 v)) (hex (unat v))"
    using emits_putc [of "CHR ''0''"] emits_put_rev [of "u64_nibbles 16 v"]
    by (cases "v = 0") (simp_all add: numeral_text.simps [of 16 0] digit_def digit_0)
qed

lemma emits_line_u64 [emits_intros]:
  "emits (line_u64 key v) (c_string key @ ''='' @ dec (unat v) @ [CHR 0x0A])"
  unfolding line_u64_def by (intro emits_intros)

lemma emits_line_hex [emits_intros]:
  "emits (line_hex key v) (c_string key @ ''='' @ (''0x'' @ hex (unat v)) @ [CHR 0x0A])"
  unfolding line_hex_def by (intro emits_intros)

lemma emits_line_str [emits_intros]:
  "emits (line_str key val) (c_string key @ ''='' @ c_string val @ [CHR 0x0A])"
  unfolding line_str_def by (intro emits_intros)

text \<open>The outcome of a formatter that runs a printer from an empty buffer.\<close>

lemma emitsD: "emits f s \<Longrightarrow> f lim [] = (length s \<le> lim, take lim s)"
  by (simp add: emits_def)

end
