(* ===== verification/Authority.thy ===== *)
theory Authority
  imports Fmt
begin

text \<open>
  Reports of who holds what: the authority snapshot (\<open>platform/inspect/authority.c\<close>), the ledger of
  capabilities a domain minted into its children (\<open>platform/inspect/endow_ledger.c\<close>) and the
  validation of a requested endowment (\<open>libs/pd-support/endowment.c\<close>).
\<close>

section \<open>Authority snapshot (authority.c, authority.h)\<close>

definition AOS_AUTHORITY_VERSION :: u32 where "AOS_AUTHORITY_VERSION = 1"
definition AOS_AUTHORITY_MAX_PDS :: nat where "AOS_AUTHORITY_MAX_PDS = 32"
definition AOS_AUTHORITY_NAME_LEN :: nat where "AOS_AUTHORITY_NAME_LEN = 32"
definition AOS_AUTHORITY_KIND_COUNT :: nat where "AOS_AUTHORITY_KIND_COUNT = 11"
definition AOS_AUTHORITY_KIND_ENDPOINT :: u32 where "AOS_AUTHORITY_KIND_ENDPOINT = 2"
definition AOS_AUTHORITY_KIND_NOTIFICATION :: u32 where "AOS_AUTHORITY_KIND_NOTIFICATION = 3"
definition AOS_AUTHORITY_KIND_OTHER :: u32 where "AOS_AUTHORITY_KIND_OTHER = 10"

definition AOS_AUTHORITY_OK :: int where "AOS_AUTHORITY_OK = 0"
definition AOS_AUTHORITY_ERR_NULL :: int where "AOS_AUTHORITY_ERR_NULL = - 1"
definition AOS_AUTHORITY_ERR_VERSION :: int where "AOS_AUTHORITY_ERR_VERSION = - 2"
definition AOS_AUTHORITY_ERR_TRUNC :: int where "AOS_AUTHORITY_ERR_TRUNC = - 3"
definition AOS_AUTHORITY_ERR_INVALID :: int where "AOS_AUTHORITY_ERR_INVALID = - 6"

lemmas authority_consts = AOS_AUTHORITY_VERSION_def AOS_AUTHORITY_MAX_PDS_def
  AOS_AUTHORITY_NAME_LEN_def AOS_AUTHORITY_KIND_COUNT_def AOS_AUTHORITY_KIND_OTHER_def
  AOS_AUTHORITY_KIND_ENDPOINT_def AOS_AUTHORITY_KIND_NOTIFICATION_def
  AOS_AUTHORITY_OK_def AOS_AUTHORITY_ERR_NULL_def AOS_AUTHORITY_ERR_VERSION_def
  AOS_AUTHORITY_ERR_TRUNC_def AOS_AUTHORITY_ERR_INVALID_def

record aos_authority_pd =
  ap_pd_index :: u32
  ap_name :: string
  ap_counts :: "u16 list"

record aos_authority_snapshot =
  as_version :: u32
  as_pd_count :: u32
  as_total_recorded :: u32
  as_truncated_adds :: u32
  as_saturated :: u32
  as_pds :: "aos_authority_pd list"

text \<open>A name buffer holds the first 31 characters of the C string and is zero from there on.\<close>

definition copy_name :: "string option \<Rightarrow> string" where
  "copy_name src =
     (case src of
        None \<Rightarrow> replicate AOS_AUTHORITY_NAME_LEN CHR 0x00
      | Some s \<Rightarrow>
          let t = take (AOS_AUTHORITY_NAME_LEN - 1) (c_string s)
          in t @ replicate (AOS_AUTHORITY_NAME_LEN - length t) CHR 0x00)"

definition clamp_kind :: "u32 \<Rightarrow> u32" where
  "clamp_kind kind =
     (if of_nat AOS_AUTHORITY_KIND_COUNT \<le> kind then AOS_AUTHORITY_KIND_OTHER else kind)"

definition zero_authority_pd :: aos_authority_pd where
  "zero_authority_pd = \<lparr>ap_pd_index = 0, ap_name = replicate AOS_AUTHORITY_NAME_LEN CHR 0x00,
     ap_counts = replicate AOS_AUTHORITY_KIND_COUNT 0\<rparr>"

definition aos_authority_init :: "aos_authority_snapshot option \<Rightarrow> aos_authority_snapshot option" where
  "aos_authority_init sp =
     (case sp of
        None \<Rightarrow> None
      | Some _ \<Rightarrow> Some \<lparr>as_version = AOS_AUTHORITY_VERSION, as_pd_count = 0, as_total_recorded = 0,
          as_truncated_adds = 0, as_saturated = 0,
          as_pds = replicate AOS_AUTHORITY_MAX_PDS zero_authority_pd\<rparr>)"

text \<open>The last part of \<open>aos_authority_add\<close>: count one more capability of kind \<open>k\<close> in row \<open>i\<close>.\<close>

definition count_in_row :: "aos_authority_snapshot \<Rightarrow> nat \<Rightarrow> u32 \<Rightarrow> aos_authority_snapshot" where
  "count_in_row s i k =
     (let row = as_pds s ! i in
      (if ap_counts row ! unat k = 0xFFFF then s\<lparr>as_saturated := 1\<rparr>
       else s\<lparr>as_pds := (as_pds s)[i := row\<lparr>ap_counts :=
              (ap_counts row)[unat k := ap_counts row ! unat k + 1]\<rparr>]\<rparr>)
      \<lparr>as_total_recorded := as_total_recorded s + 1\<rparr>)"

definition aos_authority_add ::
    "aos_authority_snapshot option \<Rightarrow> u32 \<Rightarrow> string option \<Rightarrow> u32 \<Rightarrow> int \<times> aos_authority_snapshot option" where
  "aos_authority_add sp pd_index name kind =
     (case sp of
        None \<Rightarrow> (AOS_AUTHORITY_ERR_NULL, None)
      | Some s \<Rightarrow>
          let k = clamp_kind kind in
          (case find (\<lambda>i. ap_pd_index (as_pds s ! i) = pd_index) [0..<unat (as_pd_count s)] of
             Some i \<Rightarrow> (AOS_AUTHORITY_OK, Some (count_in_row s i k))
           | None \<Rightarrow>
               if unat (as_pd_count s) < AOS_AUTHORITY_MAX_PDS then
                 let i = unat (as_pd_count s);
                     row = zero_authority_pd\<lparr>ap_pd_index := pd_index, ap_name := copy_name name\<rparr>;
                     s' = s\<lparr>as_pds := (as_pds s)[i := row], as_pd_count := as_pd_count s + 1\<rparr>
                 in (AOS_AUTHORITY_OK, Some (count_in_row s' i k))
               else
                 (AOS_AUTHORITY_OK, Some (s\<lparr>as_truncated_adds := as_truncated_adds s + 1,
                    as_total_recorded := as_total_recorded s + 1\<rparr>))))"

definition aos_authority_validate :: "aos_authority_snapshot option \<Rightarrow> int" where
  "aos_authority_validate sp =
     (case sp of
        None \<Rightarrow> AOS_AUTHORITY_ERR_NULL
      | Some s \<Rightarrow>
          if as_version s \<noteq> AOS_AUTHORITY_VERSION then AOS_AUTHORITY_ERR_VERSION
          else if AOS_AUTHORITY_MAX_PDS < unat (as_pd_count s) then AOS_AUTHORITY_ERR_INVALID
          else AOS_AUTHORITY_OK)"

definition kind_name :: "nat \<Rightarrow> string" where
  "kind_name kind =
     (if kind = 0 then ''untyped'' else if kind = 1 then ''tcb'' else if kind = 2 then ''endpoint''
      else if kind = 3 then ''notification'' else if kind = 4 then ''cnode''
      else if kind = 5 then ''frame'' else if kind = 6 then ''vspace''
      else if kind = 7 then ''irq_handler'' else if kind = 8 then ''sched_context''
      else if kind = 9 then ''reply'' else ''other'')"

text \<open>One row of the report, as the body of the loop of \<open>aos_authority_format\<close> prints it.\<close>

definition format_row :: "aos_authority_pd \<Rightarrow> printer" where
  "format_row row =
     seq (puts_raw ''pd='')
     (seq (puts_raw (take AOS_AUTHORITY_NAME_LEN (ap_name row)))
     (seq (puts_raw '' index='')
     (seq (put_u64 (ucast (ap_pd_index row)))
     (seq (seq_list (map (\<lambda>k. seq (putc_raw CHR '' '') (seq (puts_raw (kind_name k))
             (seq (putc_raw CHR ''='') (put_u64 (ucast (ap_counts row ! k)))))) [0..<AOS_AUTHORITY_KIND_COUNT]))
       (putc_raw CHR 0x0A)))))"

text \<open>The result is the return value and the text left in the buffer, when there is a buffer.\<close>

definition aos_authority_format :: "aos_authority_snapshot option \<Rightarrow> nat option \<Rightarrow> int \<times> string option" where
  "aos_authority_format sp bufp =
     (case (sp, bufp) of
        (Some s, Some buflen) \<Rightarrow>
          if buflen < 1 then (AOS_AUTHORITY_ERR_TRUNC, None)
          else if aos_authority_validate (Some s) \<noteq> AOS_AUTHORITY_OK
          then (aos_authority_validate (Some s), Some [])
          else
            (case seq (seq_list (map (\<lambda>i. format_row (as_pds s ! i))
                          [0..<min (unat (as_pd_count s)) AOS_AUTHORITY_MAX_PDS]))
                   (seq (line_u64 ''total'' (ucast (as_total_recorded s)))
                   (seq (line_u64 ''truncated_adds'' (ucast (as_truncated_adds s)))
                        (line_u64 ''saturated'' (ucast (as_saturated s))))) (buflen - 1) [] of
               (ok, out) \<Rightarrow>
                 if ok then (int (length out), Some out) else (AOS_AUTHORITY_ERR_TRUNC, Some out))
      | _ \<Rightarrow> (AOS_AUTHORITY_ERR_NULL, None))"

section \<open>Endowment-delta ledger (endow_ledger.c, endow_ledger.h)\<close>

definition AOS_ENDOW_LEDGER_VERSION :: u32 where "AOS_ENDOW_LEDGER_VERSION = 1"
definition AOS_ENDOW_LEDGER_MAX_ENTRIES :: nat where "AOS_ENDOW_LEDGER_MAX_ENTRIES = 16"
definition AOS_ENDOW_LEDGER_OK :: int where "AOS_ENDOW_LEDGER_OK = 0"
definition AOS_ENDOW_LEDGER_ERR_NULL :: int where "AOS_ENDOW_LEDGER_ERR_NULL = - 1"
definition AOS_ENDOW_LEDGER_ERR_VERSION :: int where "AOS_ENDOW_LEDGER_ERR_VERSION = - 2"
definition AOS_ENDOW_LEDGER_ERR_FULL :: int where "AOS_ENDOW_LEDGER_ERR_FULL = - 3"
definition AOS_ENDOW_LEDGER_ERR_INVALID :: int where "AOS_ENDOW_LEDGER_ERR_INVALID = - 4"

lemmas ledger_consts = AOS_ENDOW_LEDGER_VERSION_def AOS_ENDOW_LEDGER_MAX_ENTRIES_def
  AOS_ENDOW_LEDGER_OK_def AOS_ENDOW_LEDGER_ERR_NULL_def AOS_ENDOW_LEDGER_ERR_VERSION_def
  AOS_ENDOW_LEDGER_ERR_FULL_def AOS_ENDOW_LEDGER_ERR_INVALID_def

record aos_endow_ledger_entry =
  le_child_index :: u32
  le_child_name :: string
  le_kind :: u32
  le_rights :: u32
  le_badge :: u64

record aos_endow_ledger =
  el_version :: u32
  el_count :: u32
  el_dropped :: u32
  el_entries :: "aos_endow_ledger_entry list"

record aos_endow_ledger_mark_rec =
  mk_count :: u32
  mk_dropped :: u32

definition kind_carries_badge :: "u32 \<Rightarrow> bool" where
  "kind_carries_badge kind \<longleftrightarrow>
     kind = AOS_AUTHORITY_KIND_ENDPOINT \<or> kind = AOS_AUTHORITY_KIND_NOTIFICATION \<or>
     of_nat AOS_AUTHORITY_KIND_COUNT \<le> kind \<or> kind = AOS_AUTHORITY_KIND_OTHER"

definition zero_ledger_entry :: aos_endow_ledger_entry where
  "zero_ledger_entry = \<lparr>le_child_index = 0, le_child_name = replicate AOS_AUTHORITY_NAME_LEN CHR 0x00,
     le_kind = 0, le_rights = 0, le_badge = 0\<rparr>"

definition aos_endow_ledger_init :: "aos_endow_ledger option \<Rightarrow> aos_endow_ledger option" where
  "aos_endow_ledger_init lp =
     (case lp of
        None \<Rightarrow> None
      | Some _ \<Rightarrow> Some \<lparr>el_version = AOS_ENDOW_LEDGER_VERSION, el_count = 0, el_dropped = 0,
          el_entries = replicate AOS_ENDOW_LEDGER_MAX_ENTRIES zero_ledger_entry\<rparr>)"

definition aos_endow_ledger_record :: "aos_endow_ledger option \<Rightarrow> u32 \<Rightarrow> string option \<Rightarrow> u32 \<Rightarrow> u32 \<Rightarrow> u64 \<Rightarrow>
    int \<times> aos_endow_ledger option" where
  "aos_endow_ledger_record lp child_index child_name kind rights badge =
     (case lp of
        None \<Rightarrow> (AOS_ENDOW_LEDGER_ERR_NULL, None)
      | Some led \<Rightarrow>
          if el_version led \<noteq> AOS_ENDOW_LEDGER_VERSION then (AOS_ENDOW_LEDGER_ERR_VERSION, lp)
          else if AOS_ENDOW_LEDGER_MAX_ENTRIES \<le> unat (el_count led)
          then (AOS_ENDOW_LEDGER_ERR_FULL, Some (led\<lparr>el_dropped := el_dropped led + 1\<rparr>))
          else
            let e = \<lparr>le_child_index = child_index, le_child_name = copy_name child_name, le_kind = kind,
                     le_rights = rights, le_badge = (if kind_carries_badge kind then badge else 0)\<rparr>
            in (AOS_ENDOW_LEDGER_OK, Some (led\<lparr>
                  el_entries := (el_entries led)[unat (el_count led) := e],
                  el_count := el_count led + 1\<rparr>)))"

definition aos_endow_ledger_mark :: "aos_endow_ledger option \<Rightarrow> aos_endow_ledger_mark_rec" where
  "aos_endow_ledger_mark lp =
     (case lp of
        None \<Rightarrow> \<lparr>mk_count = 0, mk_dropped = 0\<rparr>
      | Some led \<Rightarrow> \<lparr>mk_count = el_count led, mk_dropped = el_dropped led\<rparr>)"

definition aos_endow_ledger_rollback ::
    "aos_endow_ledger option \<Rightarrow> aos_endow_ledger_mark_rec \<Rightarrow> aos_endow_ledger option" where
  "aos_endow_ledger_rollback lp mark =
     (case lp of
        None \<Rightarrow> None
      | Some led \<Rightarrow>
          if el_count led < mk_count mark \<or> el_dropped led < mk_dropped mark then lp
          else
            let a = unat (mk_count mark); b = unat (el_count led) in
            Some (led\<lparr>
              el_entries := take a (el_entries led) @ replicate (b - a) zero_ledger_entry @ drop b (el_entries led),
              el_count := mk_count mark, el_dropped := mk_dropped mark\<rparr>))"

definition aos_endow_ledger_validate :: "aos_endow_ledger option \<Rightarrow> int" where
  "aos_endow_ledger_validate lp =
     (case lp of
        None \<Rightarrow> AOS_ENDOW_LEDGER_ERR_NULL
      | Some led \<Rightarrow>
          if el_version led \<noteq> AOS_ENDOW_LEDGER_VERSION then AOS_ENDOW_LEDGER_ERR_VERSION
          else if AOS_ENDOW_LEDGER_MAX_ENTRIES < unat (el_count led) then AOS_ENDOW_LEDGER_ERR_INVALID
          else AOS_ENDOW_LEDGER_OK)"

definition aos_endow_ledger_merge ::
    "aos_endow_ledger option \<Rightarrow> aos_authority_snapshot option \<Rightarrow> int \<times> aos_authority_snapshot option" where
  "aos_endow_ledger_merge lp sp =
     (case (lp, sp) of
        (_, None) \<Rightarrow> (AOS_ENDOW_LEDGER_ERR_NULL, None)
      | (None, _) \<Rightarrow> (aos_endow_ledger_validate None, sp)
      | (Some led, _) \<Rightarrow>
          if aos_endow_ledger_validate lp \<noteq> AOS_ENDOW_LEDGER_OK then (aos_endow_ledger_validate lp, sp)
          else (AOS_ENDOW_LEDGER_OK,
            fold (\<lambda>e sp. snd (aos_authority_add sp (le_child_index e) (Some (le_child_name e)) (le_kind e)))
              (take (unat (el_count led)) (el_entries led)) sp))"

section \<open>Endowment validation (endowment.c, endowment_contract.h)\<close>

unbundle bit_operations_syntax

definition AOS_ENDOWMENT_VERSION :: u32 where "AOS_ENDOWMENT_VERSION = 1"
definition AOS_ENDOWMENT_MAX_CAPS :: nat where "AOS_ENDOWMENT_MAX_CAPS = 8"

record aos_endow_cap =
  ec_kind :: u32
  ec_rights :: u32
  ec_parent_slot :: u32

record aos_endowment =
  en_version :: u32
  en_count :: u32
  en_caps :: "aos_endow_cap list"

text \<open>
  The inner search over the parent's holdings: \<open>None\<close> when no holding names the requested slot and
  kind, otherwise whether the first that does covers the requested rights.
\<close>

fun holding_covers :: "aos_endow_cap \<Rightarrow> aos_endow_cap list \<Rightarrow> bool option" where
  "holding_covers rc [] = None"
| "holding_covers rc (pc # pcs) =
     (if ec_parent_slot pc \<noteq> ec_parent_slot rc \<or> ec_kind pc \<noteq> ec_kind rc then holding_covers rc pcs
      else Some (ec_rights rc AND NOT (ec_rights pc) = 0))"

definition aos_endowment_validate :: "aos_endowment option \<Rightarrow> aos_endowment option \<Rightarrow> int" where
  "aos_endowment_validate reqp parentp =
     (case (reqp, parentp) of
        (Some req, Some parent) \<Rightarrow>
          if en_version req \<noteq> AOS_ENDOWMENT_VERSION then - 1
          else if en_count req = 0 then - 1
          else if AOS_ENDOWMENT_MAX_CAPS < unat (en_count req) then - 1
          else if list_all (\<lambda>rc. holding_covers rc
                    (take (min (unat (en_count parent)) AOS_ENDOWMENT_MAX_CAPS) (en_caps parent)) = Some True)
                 (take (unat (en_count req)) (en_caps req))
          then 0 else - 1
      | _ \<Rightarrow> - 1)"

section \<open>The report text\<close>

text \<open>What the formatter is meant to print, with no buffer in sight.\<close>

definition row_text :: "aos_authority_pd \<Rightarrow> string" where
  "row_text row = ''pd='' @ c_string (take AOS_AUTHORITY_NAME_LEN (ap_name row)) @ '' index='' @
     dec (unat (ap_pd_index row)) @
     concat (map (\<lambda>k. '' '' @ kind_name k @ ''='' @ dec (unat (ap_counts row ! k))) [0..<AOS_AUTHORITY_KIND_COUNT]) @
     [CHR 0x0A]"

definition report_text :: "aos_authority_snapshot \<Rightarrow> string" where
  "report_text s = concat (map (\<lambda>i. row_text (as_pds s ! i)) [0..<unat (as_pd_count s)]) @
     ''total='' @ dec (unat (as_total_recorded s)) @ [CHR 0x0A] @
     ''truncated_adds='' @ dec (unat (as_truncated_adds s)) @ [CHR 0x0A] @
     ''saturated='' @ dec (unat (as_saturated s)) @ [CHR 0x0A]"

lemma kind_name_literal: "CHR 0x00 \<notin> set (kind_name k)"
  by (simp add: kind_name_def)

lemma emits_format_row: "emits (format_row row) (row_text row)"
proof -
  have lit: "emits (puts_raw ''pd='') ''pd=''" "emits (puts_raw '' index='') '' index=''"
    by (rule emits_puts_literal, simp)+
  have num: "emits (put_u64 (ucast v)) (dec (unat v))" for v :: u32
    using emits_u64 [of "ucast v"] by (simp add: unat_ucast_up)
  have num': "emits (put_u64 (ucast v)) (dec (unat v))" for v :: u16
    using emits_u64 [of "ucast v"] by (simp add: unat_ucast_up)
  show ?thesis
    unfolding format_row_def row_text_def
    by (intro emits_seq lit emits_puts num emits_map emits_putc num' emits_puts_literal kind_name_literal)
qed

lemma c_string_keys:
  "c_string ''total'' = ''total''" "c_string ''truncated_adds'' = ''truncated_adds''"
  "c_string ''saturated'' = ''saturated''"
  by (simp_all add: c_string_def)

lemma emits_report:
  "emits (seq (seq_list (map (\<lambda>i. format_row (as_pds s ! i)) [0..<unat (as_pd_count s)]))
     (seq (line_u64 ''total'' (ucast (as_total_recorded s)))
     (seq (line_u64 ''truncated_adds'' (ucast (as_truncated_adds s)))
          (line_u64 ''saturated'' (ucast (as_saturated s)))))) (report_text s)"
proof -
  have line: "emits (line_u64 key (ucast v)) (c_string key @ ''='' @ dec (unat v) @ [CHR 0x0A])" for key and v :: u32
    using emits_line_u64 [of key "ucast v"] by (simp add: unat_ucast_up)
  have "emits (seq (seq_list (map (\<lambda>i. format_row (as_pds s ! i)) [0..<unat (as_pd_count s)]))
     (seq (line_u64 ''total'' (ucast (as_total_recorded s)))
     (seq (line_u64 ''truncated_adds'' (ucast (as_truncated_adds s)))
          (line_u64 ''saturated'' (ucast (as_saturated s))))))
     (concat (map (\<lambda>i. row_text (as_pds s ! i)) [0..<unat (as_pd_count s)]) @
      (c_string ''total'' @ ''='' @ dec (unat (as_total_recorded s)) @ [CHR 0x0A]) @
      (c_string ''truncated_adds'' @ ''='' @ dec (unat (as_truncated_adds s)) @ [CHR 0x0A]) @
      c_string ''saturated'' @ ''='' @ dec (unat (as_saturated s)) @ [CHR 0x0A])"
    by (intro emits_seq emits_map emits_format_row line)
  then show ?thesis by (simp add: report_text_def c_string_keys)
qed

section \<open>What the counts mean\<close>

text \<open>An addition is a domain, the name given with it, and a kind.\<close>

type_synonym addition = "u32 \<times> string option \<times> u32"

definition add_all :: "addition list \<Rightarrow> aos_authority_snapshot option \<Rightarrow> aos_authority_snapshot option" where
  "add_all xs sp = fold (\<lambda>(pd, name, kind) sp. snd (aos_authority_add sp pd name kind)) xs sp"

definition firsts :: "u32 list \<Rightarrow> u32 list" where
  "firsts xs = fold (\<lambda>x acc. if x \<in> set acc then acc else acc @ [x]) xs []"

definition added :: "addition list \<Rightarrow> u32 \<Rightarrow> nat \<Rightarrow> nat" where
  "added xs pd k = length (filter (\<lambda>(pd', _, kind). pd' = pd \<and> unat (clamp_kind kind) = k) xs)"

text \<open>The domains that get a row: the first 32 distinct ones.\<close>

definition tabled :: "addition list \<Rightarrow> u32 list" where
  "tabled xs = take AOS_AUTHORITY_MAX_PDS (firsts (map fst xs))"

definition row_pds :: "aos_authority_snapshot \<Rightarrow> u32 list" where
  "row_pds s = map ap_pd_index (take (unat (as_pd_count s)) (as_pds s))"

lemma firsts_snoc:
  "firsts (xs @ [x]) = (if x \<in> set (firsts xs) then firsts xs else firsts xs @ [x])"
  by (simp add: firsts_def)

lemma distinct_firsts: "distinct (firsts xs)"
  by (induction xs rule: rev_induct) (auto simp: firsts_snoc, simp add: firsts_def)

lemma set_firsts: "set (firsts xs) = set xs"
  by (induction xs rule: rev_induct) (auto simp: firsts_snoc, auto simp: firsts_def)

lemma added_snoc:
  "added (xs @ [(pd, nm, kind)]) pd' k =
     added xs pd' k + (if pd = pd' \<and> unat (clamp_kind kind) = k then 1 else 0)"
  by (simp add: added_def)

lemma added_fresh: "pd \<notin> fst ` set xs \<Longrightarrow> added xs pd k = 0"
  by (force simp: added_def filter_empty_conv)

lemma tabled_snoc:
  "tabled (xs @ [(pd, nm, kind)]) =
     (if pd \<in> fst ` set xs \<or> length (tabled xs) = AOS_AUTHORITY_MAX_PDS then tabled xs
      else tabled xs @ [pd])"
  by (auto simp: tabled_def firsts_snoc set_firsts)

lemma tabled_small:
  "length (tabled xs) < AOS_AUTHORITY_MAX_PDS \<Longrightarrow> set (tabled xs) = fst ` set xs"
  by (simp add: tabled_def set_firsts)

lemma clamp_kind_bound: "unat (clamp_kind kind) < AOS_AUTHORITY_KIND_COUNT"
  by (simp add: clamp_kind_def authority_consts word_less_nat_alt word_le_nat_alt)

lemma row_pds_nth:
  assumes "length (as_pds s) = AOS_AUTHORITY_MAX_PDS" and "unat (as_pd_count s) \<le> AOS_AUTHORITY_MAX_PDS"
  shows "length (row_pds s) = unat (as_pd_count s)"
    and "i < unat (as_pd_count s) \<Longrightarrow> row_pds s ! i = ap_pd_index (as_pds s ! i)"
  using assms by (simp_all add: row_pds_def)

definition counts_ok :: "addition list \<Rightarrow> aos_authority_pd \<Rightarrow> bool" where
  "counts_ok xs row \<longleftrightarrow> length (ap_counts row) = AOS_AUTHORITY_KIND_COUNT \<and>
     (\<forall>k < AOS_AUTHORITY_KIND_COUNT. unat (ap_counts row ! k) = min 0xFFFF (added xs (ap_pd_index row) k))"

definition bump_row :: "aos_authority_pd \<Rightarrow> nat \<Rightarrow> aos_authority_pd" where
  "bump_row row k = (if ap_counts row ! k = 0xFFFF then row
     else row\<lparr>ap_counts := (ap_counts row)[k := ap_counts row ! k + 1]\<rparr>)"

lemma count_in_row_eq:
  "i < length (as_pds s) \<Longrightarrow> count_in_row s i k = s\<lparr>
     as_pds := (as_pds s)[i := bump_row (as_pds s ! i) (unat k)],
     as_saturated := (if ap_counts (as_pds s ! i) ! unat k = 0xFFFF then 1 else as_saturated s),
     as_total_recorded := as_total_recorded s + 1\<rparr>"
  by (simp add: count_in_row_def bump_row_def Let_def)

lemma bump_row_pd [simp]: "ap_pd_index (bump_row row k) = ap_pd_index row"
  by (simp add: bump_row_def)

lemma counts_ok_bump:
  assumes "counts_ok xs row" and "ap_pd_index row = pd"
  shows "counts_ok (xs @ [(pd, nm, kind)]) (bump_row row (unat (clamp_kind kind)))"
proof -
  let ?k = "unat (clamp_kind kind)"
  have c: "unat (ap_counts row ! k) = min 0xFFFF (added xs pd k)" if "k < AOS_AUTHORITY_KIND_COUNT" for k
    using assms that by (simp add: counts_ok_def)
  have k: "?k < AOS_AUTHORITY_KIND_COUNT" by (rule clamp_kind_bound)
  show ?thesis
  proof (cases "ap_counts row ! ?k = 0xFFFF")
    case True
    then have "0xFFFF \<le> added xs pd ?k" using c [OF k] by (simp add: min_def split: if_splits)
    then show ?thesis using assms True c by (auto simp: counts_ok_def bump_row_def added_snoc)
  next
    case False
    then have "unat (ap_counts row ! ?k) \<noteq> 0xFFFF" by (simp add: word_unat_eq_iff)
    then have "added xs pd ?k < 0xFFFF" "unat (ap_counts row ! ?k) = added xs pd ?k"
      using c [OF k] by (auto simp: min_def split: if_splits)
    then have "unat (ap_counts row ! ?k + 1) = added xs pd ?k + 1"
      by (subst unat_plus_no_overflow) simp_all
    then show ?thesis
      using assms False c \<open>added xs pd ?k < 0xFFFF\<close>
      by (auto simp: counts_ok_def bump_row_def added_snoc nth_list_update)
  qed
qed

lemma counts_ok_other:
  "counts_ok xs row \<Longrightarrow> ap_pd_index row \<noteq> pd \<Longrightarrow> counts_ok (xs @ [(pd, nm, kind)]) row"
  by (simp add: counts_ok_def added_snoc)

text \<open>
  The invariant of a snapshot with rows for \<open>rows\<close> that has seen the additions \<open>xs\<close>.
\<close>

definition snap_inv :: "u32 list \<Rightarrow> addition list \<Rightarrow> aos_authority_snapshot \<Rightarrow> bool" where
  "snap_inv rows xs s \<longleftrightarrow>
     length (as_pds s) = AOS_AUTHORITY_MAX_PDS \<and> unat (as_pd_count s) \<le> AOS_AUTHORITY_MAX_PDS \<and>
     row_pds s = rows \<and> distinct rows \<and> (\<forall>i < unat (as_pd_count s). counts_ok xs (as_pds s ! i)) \<and>
     as_total_recorded s = of_nat (length xs) \<and>
     as_truncated_adds s = of_nat (length (filter (\<lambda>x. fst x \<notin> set rows) xs)) \<and>
     (as_saturated s \<noteq> 0 \<longleftrightarrow> (\<exists>pd \<in> set rows. \<exists>k < AOS_AUTHORITY_KIND_COUNT. 0xFFFF < added xs pd k))"

lemma tabled_subset: "set (tabled xs) \<subseteq> fst ` set xs"
  using set_take_subset [of AOS_AUTHORITY_MAX_PDS "firsts (map fst xs)"] set_firsts [of "map fst xs"]
  by (simp add: tabled_def)

lemma distinct_tabled: "distinct (tabled xs)"
  by (simp add: tabled_def distinct_firsts distinct_take)

lemma saturation_snoc:
  assumes "unat (clamp_kind kind) < K"
  shows "(\<exists>p \<in> S. \<exists>k < K. N < added (xs @ [(pd, nm, kind)]) p k) \<longleftrightarrow>
    (\<exists>p \<in> S. \<exists>k < K. N < added xs p k) \<or> pd \<in> S \<and> N \<le> added xs pd (unat (clamp_kind kind))"
    (is "?new \<longleftrightarrow> ?old \<or> ?hit")
proof
  assume ?new
  then obtain p k where pk: "p \<in> S" "k < K" "N < added (xs @ [(pd, nm, kind)]) p k" by blast
  show "?old \<or> ?hit"
  proof (cases "pd = p \<and> unat (clamp_kind kind) = k")
    case True
    then show ?thesis using pk by (simp add: added_snoc)
  next
    case False
    then have "added (xs @ [(pd, nm, kind)]) p k = added xs p k" by (simp add: added_snoc)
    then show ?thesis using pk by auto
  qed
next
  have mono: "added xs p k \<le> added (xs @ [(pd, nm, kind)]) p k" for p k by (simp add: added_snoc)
  assume "?old \<or> ?hit"
  then show ?new
  proof
    assume ?old
    then show ?new using mono by (meson less_le_trans)
  next
    assume ?hit
    then have "N < added (xs @ [(pd, nm, kind)]) pd (unat (clamp_kind kind))" by (simp add: added_snoc)
    then show ?new using \<open>?hit\<close> assms by blast
  qed
qed

text \<open>Counting into an existing row.\<close>

lemma snapshot_count_row:
  assumes "snap_inv rows xs s" and "i < unat (as_pd_count s)" and "ap_pd_index (as_pds s ! i) = pd"
  shows "snap_inv rows (xs @ [(pd, nm, kind)]) (count_in_row s i (clamp_kind kind))"
proof -
  let ?xs = "xs @ [(pd, nm, kind)]" and ?k = "unat (clamp_kind kind)"
  have len: "length (as_pds s) = AOS_AUTHORITY_MAX_PDS" "unat (as_pd_count s) \<le> AOS_AUTHORITY_MAX_PDS"
    and rows: "row_pds s = rows" "distinct rows"
    and ok: "\<And>j. j < unat (as_pd_count s) \<Longrightarrow> counts_ok xs (as_pds s ! j)"
    and sat: "as_saturated s \<noteq> 0 \<longleftrightarrow> (\<exists>pd \<in> set rows. \<exists>k < AOS_AUTHORITY_KIND_COUNT. 0xFFFF < added xs pd k)"
    using assms(1) by (simp_all add: snap_inv_def)
  note nth = row_pds_nth [OF len]
  have i: "i < length (as_pds s)" using assms(2) len by simp
  have pd: "pd \<in> set rows" using assms(2,3) rows nth by (metis nth_mem)
  have uniq: "j = i" if "j < unat (as_pd_count s)" "ap_pd_index (as_pds s ! j) = pd" for j
    using that assms(2,3) nth rows by (metis nth_eq_iff_index_eq)
  have "row_pds (count_in_row s i (clamp_kind kind)) = rows"
    unfolding rows(1) [symmetric] using len i
    by (auto simp: row_pds_def count_in_row_eq intro!: nth_equalityI simp: nth_list_update)
  moreover have "counts_ok ?xs (as_pds (count_in_row s i (clamp_kind kind)) ! j)"
    if "j < unat (as_pd_count s)" for j
    using counts_ok_bump [OF ok [OF assms(2)] assms(3)] counts_ok_other [OF ok [OF that], of pd] uniq [OF that] i
    by (auto simp: count_in_row_eq nth_list_update)
  moreover have full: "ap_counts (as_pds s ! i) ! ?k = 0xFFFF \<longleftrightarrow> 0xFFFF \<le> added xs pd ?k"
  proof -
    have "unat (ap_counts (as_pds s ! i) ! ?k) = min 0xFFFF (added xs pd ?k)"
      using ok [OF assms(2)] assms(3) clamp_kind_bound by (simp add: counts_ok_def)
    then show ?thesis by (simp add: word_unat_eq_iff min_def)
  qed
  have "(if ap_counts (as_pds s ! i) ! ?k = 0xFFFF then 1 else as_saturated s) \<noteq> 0 \<longleftrightarrow>
      (\<exists>pd \<in> set rows. \<exists>k < AOS_AUTHORITY_KIND_COUNT. 0xFFFF < added ?xs pd k)"
    unfolding full saturation_snoc [OF clamp_kind_bound] using sat pd by simp
  ultimately show ?thesis
    using assms(1) i pd by (auto simp: snap_inv_def count_in_row_eq)
qed

text \<open>Opening a row for a domain not seen before changes no count.\<close>

lemma snapshot_open_row:
  assumes "snap_inv rows xs s" and "unat (as_pd_count s) < AOS_AUTHORITY_MAX_PDS" and "pd \<notin> fst ` set xs"
    and "set rows \<subseteq> fst ` set xs"
  shows "snap_inv (rows @ [pd]) xs (s\<lparr>
    as_pds := (as_pds s)[unat (as_pd_count s) := zero_authority_pd\<lparr>ap_pd_index := pd, ap_name := nm\<rparr>],
    as_pd_count := as_pd_count s + 1\<rparr>)" (is "snap_inv _ _ ?s")
proof -
  let ?n = "unat (as_pd_count s)"
  have len: "length (as_pds s) = AOS_AUTHORITY_MAX_PDS" and rows: "row_pds s = rows" "distinct rows"
    and ok: "\<And>j. j < ?n \<Longrightarrow> counts_ok xs (as_pds s ! j)"
    using assms(1) by (simp_all add: snap_inv_def)
  have cnt: "unat (as_pd_count ?s) = Suc ?n"
    using assms(2) unat_plus_no_overflow [of "as_pd_count s" 1] by (simp add: authority_consts)
  have none: "added xs pd k = 0" for k using assms(3) by (rule added_fresh)
  have "row_pds ?s = rows @ [pd]"
    unfolding rows(1) [symmetric] row_pds_def cnt using assms(2) len
    by (simp add: take_Suc_conv_app_nth)
  moreover have "counts_ok xs (as_pds ?s ! j)" if "j < Suc ?n" for j
    using that ok [of j] assms(2) len none
    by (auto simp: nth_list_update counts_ok_def zero_authority_pd_def less_Suc_eq)
  moreover have "fst x \<notin> set (rows @ [pd]) \<longleftrightarrow> fst x \<notin> set rows" if "x \<in> set xs" for x
    using that assms(3) by auto
  then have "filter (\<lambda>x. fst x \<notin> set (rows @ [pd])) xs = filter (\<lambda>x. fst x \<notin> set rows) xs"
    by (intro filter_cong) auto
  moreover have "(\<exists>p \<in> set (rows @ [pd]). \<exists>k < AOS_AUTHORITY_KIND_COUNT. 0xFFFF < added xs p k) \<longleftrightarrow>
      (\<exists>p \<in> set rows. \<exists>k < AOS_AUTHORITY_KIND_COUNT. 0xFFFF < added xs p k)"
    using none by simp
  moreover have "distinct (rows @ [pd])" using rows(2) assms(3,4) by auto
  ultimately show ?thesis
    using assms(1,2) len cnt unfolding snap_inv_def by (simp del: set_append distinct_append)
qed

lemma snapshot_add:
  assumes "snap_inv (tabled xs) xs s"
  shows "\<exists>s'. aos_authority_add (Some s) pd nm kind = (AOS_AUTHORITY_OK, Some s') \<and>
    snap_inv (tabled (xs @ [(pd, nm, kind)])) (xs @ [(pd, nm, kind)]) s'"
proof -
  let ?n = "unat (as_pd_count s)"
  have len: "length (as_pds s) = AOS_AUTHORITY_MAX_PDS" "?n \<le> AOS_AUTHORITY_MAX_PDS"
    and rows: "row_pds s = tabled xs" using assms by (simp_all add: snap_inv_def)
  note nth = row_pds_nth [OF len]
  show ?thesis
  proof (cases "find (\<lambda>i. ap_pd_index (as_pds s ! i) = pd) [0..<?n]")
    case (Some i)
    then have i: "i < ?n" "ap_pd_index (as_pds s ! i) = pd" by (auto simp: find_index_iff)
    then have "pd \<in> set (tabled xs)" using rows nth by (metis nth_mem)
    then have "tabled (xs @ [(pd, nm, kind)]) = tabled xs"
      using tabled_subset [of xs] by (auto simp: tabled_snoc)
    then show ?thesis
      using Some snapshot_count_row [OF assms i] by (simp add: aos_authority_add_def Let_def)
  next
    case None
    then have out: "pd \<notin> set (tabled xs)"
      using rows nth by (auto simp: find_index_None in_set_conv_nth)
    show ?thesis
    proof (cases "?n < AOS_AUTHORITY_MAX_PDS")
      case True
      then have fresh: "pd \<notin> fst ` set xs" and "length (tabled xs) < AOS_AUTHORITY_MAX_PDS"
        using tabled_small [of xs] rows nth(1) out by auto
      then have tab: "tabled (xs @ [(pd, nm, kind)]) = tabled xs @ [pd]" by (simp add: tabled_snoc)
      let ?s = "s\<lparr>as_pds := (as_pds s)[?n := zero_authority_pd\<lparr>ap_pd_index := pd, ap_name := copy_name nm\<rparr>],
        as_pd_count := as_pd_count s + 1\<rparr>"
      have inv: "snap_inv (tabled xs @ [pd]) xs ?s"
        using snapshot_open_row [OF assms True fresh tabled_subset] .
      moreover have "unat (as_pd_count s + 1) = Suc ?n"
        using True by (subst unat_plus_no_overflow) (simp_all add: authority_consts)
      ultimately have "snap_inv (tabled xs @ [pd]) (xs @ [(pd, nm, kind)]) (count_in_row ?s ?n (clamp_kind kind))"
        using True len by (intro snapshot_count_row) simp_all
      then show ?thesis
        using None True tab by (simp add: aos_authority_add_def Let_def)
    next
      case False
      then have "length (tabled xs) = AOS_AUTHORITY_MAX_PDS" using rows nth(1) len by simp
      then have tab: "tabled (xs @ [(pd, nm, kind)]) = tabled xs" by (simp add: tabled_snoc)
      have "counts_ok (xs @ [(pd, nm, kind)]) (as_pds s ! j)" if "j < ?n" for j
      proof (rule counts_ok_other)
        show "counts_ok xs (as_pds s ! j)" using assms that by (simp add: snap_inv_def)
        show "ap_pd_index (as_pds s ! j) \<noteq> pd" using out that rows nth by (metis nth_mem)
      qed
      moreover have "(\<exists>p \<in> set (tabled xs). \<exists>k < AOS_AUTHORITY_KIND_COUNT. 0xFFFF < added (xs @ [(pd, nm, kind)]) p k) \<longleftrightarrow>
          (\<exists>p \<in> set (tabled xs). \<exists>k < AOS_AUTHORITY_KIND_COUNT. 0xFFFF < added xs p k)"
        unfolding saturation_snoc [OF clamp_kind_bound] using out by simp
      ultimately have "snap_inv (tabled xs) (xs @ [(pd, nm, kind)])
          (s\<lparr>as_truncated_adds := as_truncated_adds s + 1, as_total_recorded := as_total_recorded s + 1\<rparr>)"
        using assms out by (simp add: snap_inv_def row_pds_def)
      then show ?thesis using None False tab by (simp add: aos_authority_add_def Let_def)
    qed
  qed
qed

lemma snap_inv_init:
  assumes "aos_authority_init (Some s0) = Some s"
  shows "snap_inv (tabled []) [] s"
  using assms by (auto simp: aos_authority_init_def snap_inv_def tabled_def firsts_def row_pds_def)

lemma add_all_snoc:
  "add_all (xs @ [(pd, nm, kind)]) sp = snd (aos_authority_add (add_all xs sp) pd nm kind)"
  by (simp add: add_all_def)

lemma snapshot_add_all:
  assumes "aos_authority_init (Some s0) = Some s"
  shows "\<exists>s'. add_all xs (Some s) = Some s' \<and> snap_inv (tabled xs) xs s'"
proof (induction xs rule: rev_induct)
  case Nil
  then show ?case using snap_inv_init [OF assms] by (simp add: add_all_def)
next
  case (snoc x xs)
  obtain pd nm kind where x: "x = (pd, nm, kind)" by (cases x) auto
  obtain s1 where s1: "add_all xs (Some s) = Some s1" "snap_inv (tabled xs) xs s1"
    using snoc by blast
  then show ?case using snapshot_add [OF s1(2), of pd nm kind] x by (auto simp: add_all_snoc)
qed

section \<open>The ledger under a rollback\<close>

text \<open>A ledger as its own operations keep it: the entries beyond the count are zero.\<close>

definition ledger_ok :: "aos_endow_ledger \<Rightarrow> bool" where
  "ledger_ok led \<longleftrightarrow> el_version led = AOS_ENDOW_LEDGER_VERSION \<and>
     length (el_entries led) = AOS_ENDOW_LEDGER_MAX_ENTRIES \<and>
     unat (el_count led) \<le> AOS_ENDOW_LEDGER_MAX_ENTRIES \<and>
     drop (unat (el_count led)) (el_entries led) =
       replicate (AOS_ENDOW_LEDGER_MAX_ENTRIES - unat (el_count led)) zero_ledger_entry"

type_synonym ledger_entry_args = "u32 \<times> string option \<times> u32 \<times> u32 \<times> u64"

definition record_all :: "ledger_entry_args list \<Rightarrow> aos_endow_ledger option \<Rightarrow> aos_endow_ledger option" where
  "record_all xs lp = fold (\<lambda>(i, nm, kind, rights, badge) lp.
     snd (aos_endow_ledger_record lp i nm kind rights badge)) xs lp"

text \<open>What recording \<open>n\<close> entries after a ledger state \<open>led\<close> can have changed.\<close>

definition ledger_grown :: "nat \<Rightarrow> aos_endow_ledger \<Rightarrow> aos_endow_ledger \<Rightarrow> bool" where
  "ledger_grown n led led' \<longleftrightarrow> ledger_ok led' \<and>
     take (unat (el_count led)) (el_entries led') = take (unat (el_count led)) (el_entries led) \<and>
     unat (el_count led) \<le> unat (el_count led') \<and>
     unat (el_dropped led) \<le> unat (el_dropped led') \<and> unat (el_dropped led') \<le> unat (el_dropped led) + n"

lemma ledger_record_ok:
  assumes "ledger_ok led" and "unat (el_dropped led) + 1 < 2 ^ 32"
    and "aos_endow_ledger_record (Some led) i nm kind rights badge = (rc, lp)"
  shows "\<exists>led'. lp = Some led' \<and> ledger_grown 1 led led'"
proof (cases "AOS_ENDOW_LEDGER_MAX_ENTRIES \<le> unat (el_count led)")
  case True
  have "unat (el_dropped led + 1) = unat (el_dropped led) + 1"
    using assms(2) by (subst unat_plus_no_overflow) simp_all
  then show ?thesis
    using True assms by (auto simp: aos_endow_ledger_record_def ledger_ok_def ledger_grown_def)
next
  case False
  let ?n = "unat (el_count led)"
  have n: "unat (el_count led + 1) = Suc ?n"
    using False by (subst unat_plus_no_overflow) (simp_all add: ledger_consts)
  have "drop (Suc ?n) (el_entries led) = drop 1 (drop ?n (el_entries led))" by simp
  also have "\<dots> = replicate (AOS_ENDOW_LEDGER_MAX_ENTRIES - Suc ?n) zero_ledger_entry"
    using assms(1) by (simp add: ledger_ok_def)
  finally have "drop (Suc ?n) (el_entries led) =
      replicate (AOS_ENDOW_LEDGER_MAX_ENTRIES - Suc ?n) zero_ledger_entry" .
  then show ?thesis
    using False n assms(1,3)
    by (auto simp: aos_endow_ledger_record_def ledger_ok_def ledger_grown_def Let_def)
qed

lemma ledger_grown_trans:
  assumes "ledger_grown m a b" and "ledger_grown n b c"
  shows "ledger_grown (m + n) a c"
proof -
  have "unat (el_count a) \<le> unat (el_count b)" using assms(1) by (simp add: ledger_grown_def)
  then have "take (unat (el_count a)) (el_entries c) = take (unat (el_count a)) (take (unat (el_count b)) (el_entries c))"
    by simp
  also have "\<dots> = take (unat (el_count a)) (el_entries b)"
    using assms \<open>unat (el_count a) \<le> _\<close> by (simp add: ledger_grown_def)
  finally show ?thesis using assms by (simp add: ledger_grown_def)
qed

lemma ledger_record_all_ok:
  assumes "ledger_ok led" and "unat (el_dropped led) + length xs < 2 ^ 32"
  shows "\<exists>led'. record_all xs (Some led) = Some led' \<and> ledger_grown (length xs) led led'"
  using assms(2)
proof (induction xs rule: rev_induct)
  case Nil
  then show ?case using assms(1) by (simp add: record_all_def ledger_grown_def)
next
  case (snoc x xs)
  obtain i nm kind rights badge where x: "x = (i, nm, kind, rights, badge)" by (cases x) auto
  obtain l1 where l1: "record_all xs (Some led) = Some l1" "ledger_grown (length xs) led l1"
    using snoc by auto
  have ok: "ledger_ok l1" and "unat (el_dropped l1) + 1 < 2 ^ 32"
    using l1(2) snoc.prems by (simp_all add: ledger_grown_def)
  then obtain l2 where l2: "snd (aos_endow_ledger_record (Some l1) i nm kind rights badge) = Some l2"
      "ledger_grown 1 l1 l2"
    using ledger_record_ok [OF ok _ prod.collapse [symmetric]] by blast
  have "record_all (xs @ [x]) (Some led) = Some l2"
    using l1(1) l2(1) x by (simp add: record_all_def)
  then show ?case using ledger_grown_trans [OF l1(2) l2(2)] by simp
qed

lemma ledger_rollback_grown:
  assumes "ledger_ok led" and "ledger_grown n led led'"
  shows "aos_endow_ledger_rollback (Some led') (aos_endow_ledger_mark (Some led)) = Some led"
proof -
  let ?a = "unat (el_count led)" and ?b = "unat (el_count led')"
  have ok': "ledger_ok led'" and ab: "?a \<le> ?b" using assms(2) by (simp_all add: ledger_grown_def)
  have "drop ?b (el_entries led') = replicate (AOS_ENDOW_LEDGER_MAX_ENTRIES - ?b) zero_ledger_entry"
    "?b \<le> AOS_ENDOW_LEDGER_MAX_ENTRIES" using ok' by (simp_all add: ledger_ok_def)
  then have "replicate (?b - ?a) zero_ledger_entry @ drop ?b (el_entries led') =
      replicate (AOS_ENDOW_LEDGER_MAX_ENTRIES - ?a) zero_ledger_entry"
    using ab by (simp flip: replicate_add)
  then have "take ?a (el_entries led') @ replicate (?b - ?a) zero_ledger_entry @ drop ?b (el_entries led') =
      take ?a (el_entries led) @ drop ?a (el_entries led)"
    using assms by (simp add: ledger_ok_def ledger_grown_def)
  moreover have "\<not> el_count led' < el_count led" "\<not> el_dropped led' < el_dropped led"
    using assms(2) by (simp_all add: ledger_grown_def word_less_nat_alt)
  ultimately show ?thesis
    using assms(1) ok' by (simp add: aos_endow_ledger_rollback_def aos_endow_ledger_mark_def ledger_ok_def)
qed

section \<open>Properties\<close>


text \<open>
  C17. The bounded formatter prints the report: for a valid snapshot and a buffer of at least one
  byte, it leaves exactly the report text and returns its length when the text and its terminator
  fit, and otherwise leaves the longest prefix that fits and reports the truncation.
\<close>

theorem authority_format_exact:
  assumes "aos_authority_validate (Some s) = AOS_AUTHORITY_OK" and "1 \<le> buflen"
  shows "aos_authority_format (Some s) (Some buflen) =
    (if length (report_text s) < buflen then (int (length (report_text s)), Some (report_text s))
     else (AOS_AUTHORITY_ERR_TRUNC, Some (take (buflen - 1) (report_text s))))"
proof -
  have "unat (as_pd_count s) \<le> AOS_AUTHORITY_MAX_PDS"
    using assms(1) by (auto simp: aos_authority_validate_def authority_consts split: if_splits)
  then have "min (unat (as_pd_count s)) AOS_AUTHORITY_MAX_PDS = unat (as_pd_count s)" by simp
  then show ?thesis
    using assms emitsD [OF emits_report, of s "buflen - 1"]
    by (auto simp: aos_authority_format_def)
qed

text \<open>
  C18. Rolling the ledger back undoes a failed spawn: whatever entries were recorded since a mark was
  taken, including those dropped because the ledger was full, rolling back to the mark restores the
  ledger to exactly what it was.
\<close>

theorem ledger_rollback_restores:
  assumes "ledger_ok led" and "unat (el_dropped led) + length xs < 2 ^ 32"
  shows "aos_endow_ledger_rollback (record_all xs (Some led)) (aos_endow_ledger_mark (Some led)) = Some led"
  using ledger_record_all_ok [OF assms] ledger_rollback_grown [OF assms(1)] by auto

lemma rights_covered_iff: "(a :: u32) AND NOT b = 0 \<longleftrightarrow> (\<forall>n. bit a n \<longrightarrow> bit b n)"
proof -
  have "a AND NOT b = 0 \<longleftrightarrow> (\<forall>n. \<not> bit (a AND NOT b) n)" 
    using bit_eq_iff [of "a AND NOT b" 0] by (auto dest: bit_imp_le_length)
  moreover have "\<not> bit (a AND NOT b) n \<longleftrightarrow> (bit a n \<longrightarrow> bit b n)" for n
    using bit_imp_le_length [of a n] by (auto simp: bit_simps)
  ultimately show ?thesis by simp
qed

lemma holding_covers_iff:
  "holding_covers rc pcs = Some True \<longleftrightarrow>
     (\<exists>pc. find (\<lambda>pc. ec_parent_slot pc = ec_parent_slot rc \<and> ec_kind pc = ec_kind rc) pcs = Some pc \<and>
        (\<forall>n. bit (ec_rights rc) n \<longrightarrow> bit (ec_rights pc) n))"
  by (induction rc pcs rule: holding_covers.induct) (auto simp: rights_covered_iff)

text \<open>
  C19. An endowment is accepted precisely when it grants no more than the parent declares: the
  version is right, it names between one and eight capabilities, and for each of them the first
  holding of the parent with the same slot and kind has every right that is asked for.
\<close>

theorem endowment_validate_exact:
  "aos_endowment_validate (Some req) (Some parent) = 0 \<longleftrightarrow>
     en_version req = AOS_ENDOWMENT_VERSION \<and> 0 < unat (en_count req) \<and>
     unat (en_count req) \<le> AOS_ENDOWMENT_MAX_CAPS \<and>
     (\<forall>rc \<in> set (take (unat (en_count req)) (en_caps req)). \<exists>pc.
        find (\<lambda>pc. ec_parent_slot pc = ec_parent_slot rc \<and> ec_kind pc = ec_kind rc)
          (take (min (unat (en_count parent)) AOS_ENDOWMENT_MAX_CAPS) (en_caps parent)) = Some pc \<and>
        (\<forall>n. bit (ec_rights rc) n \<longrightarrow> bit (ec_rights pc) n))"
  by (auto simp: aos_endowment_validate_def list_all_iff holding_covers_iff not_less)

section \<open>Witnesses\<close>

definition ex_snapshot :: aos_authority_snapshot where
  "ex_snapshot = \<lparr>as_version = 1, as_pd_count = 0, as_total_recorded = 0, as_truncated_adds = 0,
     as_saturated = 0, as_pds = replicate 32 zero_authority_pd\<rparr>"

lemma ex_snapshot_init: "aos_authority_init (Some ex_snapshot) = Some ex_snapshot"
  by (simp add: aos_authority_init_def ex_snapshot_def authority_consts)

text \<open>Domain 3 receives two frames and a capability of a kind the enumeration does not name.\<close>

definition ex_additions :: "addition list" where
  "ex_additions = [(3, Some ''ping'', 5), (3, Some ''ping'', 5), (3, None, 77)]"


theorem authority_format_exact_witness:
  "aos_authority_format (Some ex_snapshot) (Some 10) = (AOS_AUTHORITY_ERR_TRUNC, Some (''total=0'' @ [CHR 0x0A] @ ''t''))"
proof -
  have rt: "report_text ex_snapshot = ''total=0'' @ [CHR 0x0A] @ ''truncated_adds=0'' @ [CHR 0x0A] @
      ''saturated=0'' @ [CHR 0x0A]"
    by (simp add: report_text_def ex_snapshot_def numeral_text.simps [of 10 0] digit_def digit_0)
  have "aos_authority_validate (Some ex_snapshot) = AOS_AUTHORITY_OK"
    by (simp add: aos_authority_validate_def ex_snapshot_def authority_consts)
  from authority_format_exact [OF this, of 10] show ?thesis by (simp add: rt)
qed

definition ex_ledger :: aos_endow_ledger where
  "ex_ledger = \<lparr>el_version = 1, el_count = 0, el_dropped = 0, el_entries = replicate 16 zero_ledger_entry\<rparr>"

theorem ledger_rollback_restores_witness:
  "aos_endow_ledger_rollback (record_all (replicate 17 (9, Some ''child'', 5, 2, 1)) (Some ex_ledger))
     (aos_endow_ledger_mark (Some ex_ledger)) = Some ex_ledger"
proof (rule ledger_rollback_restores)
  show "ledger_ok ex_ledger" by (simp add: ledger_ok_def ex_ledger_def ledger_consts)
  show "unat (el_dropped ex_ledger) + length (replicate 17 (9 :: u32, Some ''child'', 5 :: u32, 2 :: u32, 1 :: u64)) < 2 ^ 32"
    by (simp add: ex_ledger_def)
qed

text \<open>A parent holding a readable and writable frame endows a child with a read-only one, and not more.\<close>

definition ex_endow :: "u32 \<Rightarrow> aos_endowment" where
  "ex_endow rights = \<lparr>en_version = 1, en_count = 1,
     en_caps = [\<lparr>ec_kind = 5, ec_rights = rights, ec_parent_slot = 47\<rparr>]\<rparr>"

lemma not_0xF_covered: "\<not> (\<forall>n. bit (0xF :: u32) n \<longrightarrow> bit (3 :: u32) n)"
  unfolding rights_covered_iff [symmetric] by simp

lemma read_covered: "\<forall>n. bit (2 :: u32) n \<longrightarrow> bit (3 :: u32) n"
  unfolding rights_covered_iff [symmetric] by simp

theorem endowment_validate_exact_witness:
  "aos_endowment_validate (Some (ex_endow 2)) (Some (ex_endow 3)) = 0 \<and>
   aos_endowment_validate (Some (ex_endow 0xF)) (Some (ex_endow 3)) \<noteq> 0"
  using not_0xF_covered read_covered
  unfolding endowment_validate_exact
  by (simp add: ex_endow_def AOS_ENDOWMENT_VERSION_def AOS_ENDOWMENT_MAX_CAPS_def)

end
