(* ===== verification/ChildSpawn.thy ===== *)
theory ChildSpawn
  imports Sel4Kernel Authority
begin

text \<open>
  Run-time domain creation, \<open>libs/pd-support/child_spawn.c\<close>: the scratch-slot allocator with its
  retrying page mapper, the staged construction of a child, the teardown of a failed construction,
  and the endowment by minting, over a kernel that may refuse any call.  The stages of
  \<open>aos_child_spawn\<close> are separate definitions composed in the order of the function's body; a stage
  that fails ends the body with the error code and step that the source stores before it jumps to
  the common failure exit.
\<close>

unbundle bit_operations_syntax

section \<open>Requests and results (child_spawn.h)\<close>

definition AOS_CHILD_SPAWN_OK :: int where "AOS_CHILD_SPAWN_OK = 0"
definition AOS_CHILD_SPAWN_ERR_VALIDATE :: int where "AOS_CHILD_SPAWN_ERR_VALIDATE = - 1"
definition AOS_CHILD_SPAWN_ERR_SCRATCH :: int where "AOS_CHILD_SPAWN_ERR_SCRATCH = - 2"
definition AOS_CHILD_SPAWN_ERR_RETYPE :: int where "AOS_CHILD_SPAWN_ERR_RETYPE = - 3"
definition AOS_CHILD_SPAWN_ERR_ASID :: int where "AOS_CHILD_SPAWN_ERR_ASID = - 4"
definition AOS_CHILD_SPAWN_ERR_MAP :: int where "AOS_CHILD_SPAWN_ERR_MAP = - 5"
definition AOS_CHILD_SPAWN_ERR_CONFIGURE :: int where "AOS_CHILD_SPAWN_ERR_CONFIGURE = - 6"
definition AOS_CHILD_SPAWN_ERR_ENDOW :: int where "AOS_CHILD_SPAWN_ERR_ENDOW = - 7"
definition AOS_CHILD_SPAWN_ERR_START :: int where "AOS_CHILD_SPAWN_ERR_START = - 8"
definition AOS_CHILD_SPAWN_SCRATCH_SLOTS :: u64 where "AOS_CHILD_SPAWN_SCRATCH_SLOTS = 24"
definition AOS_CHILD_SPAWN_MAX_PT_LEVELS :: nat where "AOS_CHILD_SPAWN_MAX_PT_LEVELS = 4"

lemmas spawn_codes = AOS_CHILD_SPAWN_OK_def AOS_CHILD_SPAWN_ERR_VALIDATE_def
  AOS_CHILD_SPAWN_ERR_SCRATCH_def AOS_CHILD_SPAWN_ERR_RETYPE_def AOS_CHILD_SPAWN_ERR_ASID_def
  AOS_CHILD_SPAWN_ERR_MAP_def AOS_CHILD_SPAWN_ERR_CONFIGURE_def AOS_CHILD_SPAWN_ERR_ENDOW_def
  AOS_CHILD_SPAWN_ERR_START_def

datatype spawn_step =
    STEP_NONE | STEP_CNODE | STEP_VSPACE | STEP_ASID | STEP_CONTENT_MAP | STEP_EXTRA_MAP
  | STEP_STACK_FRAME | STEP_STACK_MAP | STEP_IPC_FRAME | STEP_IPC_MAP | STEP_TCB | STEP_CONFIGURE
  | STEP_REGS | STEP_SC | STEP_SC_CONFIGURE | STEP_SCHED_PARAMS | STEP_ENDOW | STEP_START
  | STEP_FAULT_INSTALL

record aos_pt_scratch =
  sc_pool_ut :: u64
  sc_self_cnode :: u64
  sc_self_cnode_bits :: u64
  sc_base_slot :: u64
  sc_next_slot :: u64
  sc_limit_slot :: u64

record aos_child_spawn_map =
  em_frame :: u64
  em_va :: u64

record aos_child_spawn_req =
  rq_pool_ut :: u64
  rq_self_cnode :: u64
  rq_self_cnode_bits :: u8
  rq_self_tcb :: u64
  rq_asid_pool :: u64
  rq_sched_control :: u64
  rq_scratch_slot :: u64
  rq_scratch_count :: u64
  rq_content_frame :: u64
  rq_content_va :: u64
  rq_extra_maps :: "aos_child_spawn_map list option"
  rq_extra_map_count :: u64
  rq_fault_ep :: u64
  rq_fault_install_ep :: u64
  rq_fault_install_label :: u64
  rq_entry_point :: u64
  rq_stack_va_top :: u64
  rq_ipc_buf_va :: u64
  rq_arg0 :: u64
  rq_arg1 :: u64
  rq_cnode_size_bits :: u8
  rq_priority :: u8
  rq_endow :: "aos_endowment option"
  rq_parent_holdings :: "aos_endowment option"
  rq_endow_cptrs :: "u64 list option"
  rq_endow_child_base_slot :: u64
  rq_endow_badge :: u64
  rq_child_index :: u32
  rq_child_name :: "string option"

record aos_child_spawn_result =
  rs_cnode :: u64
  rs_vspace :: u64
  rs_tcb :: u64
  rs_error :: int
  rs_failed_step :: spawn_step
  rs_failed_endow_index :: u64
  rs_scratch_base :: u64
  rs_scratch_next :: u64

definition zero_spawn_result :: aos_child_spawn_result where
  "zero_spawn_result = \<lparr>rs_cnode = 0, rs_vspace = 0, rs_tcb = 0, rs_error = 0,
     rs_failed_step = STEP_NONE, rs_failed_endow_index = 0, rs_scratch_base = 0, rs_scratch_next = 0\<rparr>"

section \<open>Scratch slots and page mapping\<close>

definition aos_pt_scratch_init :: "u64 \<Rightarrow> u64 \<Rightarrow> u64 \<Rightarrow> u64 \<Rightarrow> u64 \<Rightarrow> aos_pt_scratch" where
  "aos_pt_scratch_init pool_ut self_cnode self_cnode_bits base_slot count =
     \<lparr>sc_pool_ut = pool_ut, sc_self_cnode = self_cnode, sc_self_cnode_bits = self_cnode_bits,
      sc_base_slot = base_slot, sc_next_slot = base_slot, sc_limit_slot = base_slot + count\<rparr>"

definition pt_scratch_claim :: "aos_pt_scratch \<Rightarrow> u64 \<times> aos_pt_scratch" where
  "pt_scratch_claim sc =
     (if sc_limit_slot sc \<le> sc_next_slot sc then (seL4_CapNull, sc)
      else (sc_next_slot sc, sc\<lparr>sc_next_slot := sc_next_slot sc + 1\<rparr>))"

text \<open>The allocator runs on its own state and the kernel history; \<open>Inl\<close> is an error, \<open>Inr\<close> the slot.\<close>

type_synonym pt_state = "aos_pt_scratch \<times> sel4_event list"

definition retype_one :: "sel4_kernel \<Rightarrow> pt_state \<Rightarrow> seL4_ObjectType \<Rightarrow> u64 \<Rightarrow>
    (seL4_Error + u64) \<times> pt_state" where
  "retype_one k st type size_bits =
     (case pt_scratch_claim (fst st) of (slot, sc) \<Rightarrow>
        if slot = seL4_CapNull then (Inl seL4_NotEnoughMemory, sc, snd st)
        else
          (case invoke k (snd st)
             (Untyped_Retype (sc_pool_ut sc) type size_bits (sc_self_cnode sc) 0 0 slot 1) of (err, tr) \<Rightarrow>
             if err \<noteq> seL4_NoError
             then (Inl err, sc\<lparr>sc_next_slot := sc_next_slot sc - 1\<rparr>, tr)
             else (Inr slot, sc, tr)))"

fun pt_map_loop :: "sel4_kernel \<Rightarrow> nat \<Rightarrow> pt_state \<Rightarrow> u64 \<Rightarrow> u64 \<Rightarrow> u64 \<Rightarrow> seL4_Error \<times> pt_state" where
  "pt_map_loop k 0 st frame vspace va = (seL4_FailedLookup, st)"
| "pt_map_loop k (Suc attempts_left) st frame vspace va =
     (case invoke k (snd st) (ARM_Page_Map frame vspace va seL4_AllRights) of (err, tr) \<Rightarrow>
        if err = seL4_NoError then (seL4_NoError, fst st, tr)
        else if err \<noteq> seL4_FailedLookup \<or> attempts_left = 0 then (err, fst st, tr)
        else
          (case retype_one k (fst st, tr) seL4_ARM_PageTableObject 0 of
             (Inl rt, st') \<Rightarrow> (rt, st')
           | (Inr pt, sc, tr') \<Rightarrow>
               (case invoke k tr' (ARM_PageTable_Map pt vspace va) of (mt, tr'') \<Rightarrow>
                  if mt \<noteq> seL4_NoError then (mt, sc, tr'')
                  else pt_map_loop k attempts_left (sc, tr'') frame vspace va)))"

definition aos_pt_map_retrying :: "sel4_kernel \<Rightarrow> pt_state \<Rightarrow> u64 \<Rightarrow> u64 \<Rightarrow> u64 \<Rightarrow> seL4_Error \<times> pt_state" where
  "aos_pt_map_retrying k st frame vspace va =
     pt_map_loop k AOS_CHILD_SPAWN_MAX_PT_LEVELS st frame vspace va"

section \<open>Teardown\<close>

function staging_teardown :: "sel4_kernel \<Rightarrow> aos_pt_scratch \<Rightarrow> sel4_event list \<Rightarrow> aos_pt_scratch \<times> sel4_event list" where
  "staging_teardown k sc tr =
     (if sc_base_slot sc < sc_next_slot sc then
        let sc' = sc\<lparr>sc_next_slot := sc_next_slot sc - 1\<rparr> in
        staging_teardown k sc'
          (snd (invoke k tr (CNode_Delete (sc_self_cnode sc') (sc_next_slot sc') (ucast (sc_self_cnode_bits sc')))))
      else (sc, tr))"
  by pat_completeness auto
termination
proof (relation "measure (\<lambda>(k, sc, tr). unat (sc_next_slot sc))")
  show "wf (measure (\<lambda>(k, sc, tr). unat (sc_next_slot sc)))" by simp
  fix k :: sel4_kernel and sc sc' :: aos_pt_scratch and tr
  assume "sc_base_slot sc < sc_next_slot sc" and "sc' = sc\<lparr>sc_next_slot := sc_next_slot sc - 1\<rparr>"
  moreover from this have "sc_next_slot sc \<noteq> 0" by auto
  ultimately show "((k, sc', snd (invoke k tr (CNode_Delete (sc_self_cnode sc') (sc_next_slot sc')
      (ucast (sc_self_cnode_bits sc'))))), k, sc, tr) \<in> measure (\<lambda>(k, sc, tr). unat (sc_next_slot sc))"
    by (simp add: unat_minus_one)
qed

declare staging_teardown.simps [simp del]

fun unmap_extra :: "sel4_kernel \<Rightarrow> aos_child_spawn_map list \<Rightarrow> nat \<Rightarrow> sel4_event list \<Rightarrow> sel4_event list" where
  "unmap_extra k maps 0 tr = tr"
| "unmap_extra k maps (Suc i) tr =
     unmap_extra k maps i (snd (invoke k tr (ARM_Page_Unmap (em_frame (maps ! i)))))"

definition fail_teardown :: "sel4_kernel \<Rightarrow> aos_pt_scratch \<Rightarrow> sel4_event list \<Rightarrow> bool \<Rightarrow> u64 \<Rightarrow>
    aos_child_spawn_map list \<Rightarrow> u64 \<Rightarrow> aos_pt_scratch \<times> sel4_event list" where
  "fail_teardown k sc tr content_mapped content_frame extra_maps extra_mapped =
     (let tr1 = unmap_extra k extra_maps (unat extra_mapped) tr;
          tr2 = (if content_mapped then snd (invoke k tr1 (ARM_Page_Unmap content_frame)) else tr1)
      in staging_teardown k sc tr2)"

definition unpack_rights :: "u32 \<Rightarrow> seL4_CapRights" where
  "unpack_rights bits = \<lparr>
     capAllowGrantReply = (bits AND push_bit 3 1 \<noteq> 0), capAllowGrant = (bits AND push_bit 2 1 \<noteq> 0),
     capAllowRead = (bits AND push_bit 1 1 \<noteq> 0), capAllowWrite = (bits AND push_bit 0 1 \<noteq> 0)\<rparr>"

section \<open>The stages of aos_child_spawn\<close>

record spawn_state =
  sp_sc :: aos_pt_scratch
  sp_trace :: "sel4_event list"
  sp_content_mapped :: bool
  sp_extra_mapped :: u64
  sp_ledger :: "aos_endow_ledger option"

text \<open>A failing stage carries what the source stores: error, failed step and failed endowment index.\<close>

type_synonym spawn_fail = "int \<times> spawn_step \<times> u64"
type_synonym 'a spawn = "spawn_state \<Rightarrow> (spawn_fail + 'a) \<times> spawn_state"

definition sp_return :: "'a \<Rightarrow> 'a spawn" where
  "sp_return x s = (Inr x, s)"

definition sp_bind :: "'a spawn \<Rightarrow> ('a \<Rightarrow> 'b spawn) \<Rightarrow> 'b spawn" where
  "sp_bind f g s = (case f s of (Inl e, s') \<Rightarrow> (Inl e, s') | (Inr x, s') \<Rightarrow> g x s')"

definition sp_retype :: "sel4_kernel \<Rightarrow> seL4_ObjectType \<Rightarrow> u64 \<Rightarrow> spawn_step \<Rightarrow> u64 spawn" where
  "sp_retype k type size_bits step s =
     (case retype_one k (sp_sc s, sp_trace s) type size_bits of (r, sc, tr) \<Rightarrow>
        (case r of Inl _ \<Rightarrow> Inl (AOS_CHILD_SPAWN_ERR_RETYPE, step, 0) | Inr slot \<Rightarrow> Inr slot,
         s\<lparr>sp_sc := sc, sp_trace := tr\<rparr>))"

definition sp_map :: "sel4_kernel \<Rightarrow> u64 \<Rightarrow> u64 \<Rightarrow> u64 \<Rightarrow> spawn_step \<Rightarrow> unit spawn" where
  "sp_map k frame vspace va step s =
     (case aos_pt_map_retrying k (sp_sc s, sp_trace s) frame vspace va of (err, sc, tr) \<Rightarrow>
        (if err \<noteq> seL4_NoError then Inl (AOS_CHILD_SPAWN_ERR_MAP, step, 0) else Inr (),
         s\<lparr>sp_sc := sc, sp_trace := tr\<rparr>))"

definition sp_invoke :: "sel4_kernel \<Rightarrow> sel4_call \<Rightarrow> int \<Rightarrow> spawn_step \<Rightarrow> unit spawn" where
  "sp_invoke k c code step s =
     (case invoke k (sp_trace s) c of (err, tr) \<Rightarrow>
        (if err \<noteq> seL4_NoError then Inl (code, step, 0) else Inr (), s\<lparr>sp_trace := tr\<rparr>))"

definition spawn_objects :: "sel4_kernel \<Rightarrow> aos_child_spawn_req \<Rightarrow> (u64 \<times> u64) spawn" where
  "spawn_objects k req =
     sp_bind (sp_retype k seL4_CapTableObject (ucast (rq_cnode_size_bits req)) STEP_CNODE) (\<lambda>child_cnode.
     sp_bind (sp_retype k seL4_ARM_VSpaceObject 0 STEP_VSPACE) (\<lambda>child_vspace.
     sp_bind (sp_invoke k (ARM_ASIDPool_Assign (rq_asid_pool req) child_vspace)
                AOS_CHILD_SPAWN_ERR_ASID STEP_ASID) (\<lambda>_.
     sp_return (child_cnode, child_vspace))))"

definition spawn_map_content :: "sel4_kernel \<Rightarrow> aos_child_spawn_req \<Rightarrow> u64 \<Rightarrow> unit spawn" where
  "spawn_map_content k req child_vspace =
     sp_bind (sp_map k (rq_content_frame req) child_vspace (rq_content_va req) STEP_CONTENT_MAP) (\<lambda>_ s.
     (Inr (), s\<lparr>sp_content_mapped := True\<rparr>))"

fun spawn_map_extra :: "sel4_kernel \<Rightarrow> u64 \<Rightarrow> aos_child_spawn_map list \<Rightarrow> unit spawn" where
  "spawn_map_extra k child_vspace [] = sp_return ()"
| "spawn_map_extra k child_vspace (m # ms) =
     sp_bind (sp_map k (em_frame m) child_vspace (em_va m) STEP_EXTRA_MAP) (\<lambda>_ s.
     spawn_map_extra k child_vspace ms (s\<lparr>sp_extra_mapped := sp_extra_mapped s + 1\<rparr>))"

definition spawn_pages :: "sel4_kernel \<Rightarrow> aos_child_spawn_req \<Rightarrow> u64 \<Rightarrow> u64 spawn" where
  "spawn_pages k req child_vspace =
     sp_bind (sp_retype k seL4_ARM_SmallPageObject 0 STEP_STACK_FRAME) (\<lambda>stack_frame.
     sp_bind (sp_map k stack_frame child_vspace (rq_stack_va_top req - 0x1000) STEP_STACK_MAP) (\<lambda>_.
     sp_bind (sp_retype k seL4_ARM_SmallPageObject 0 STEP_IPC_FRAME) (\<lambda>ipc_frame.
     sp_bind (sp_map k ipc_frame child_vspace (rq_ipc_buf_va req) STEP_IPC_MAP) (\<lambda>_.
     sp_return ipc_frame))))"

definition spawn_regs :: "aos_child_spawn_req \<Rightarrow> user_context" where
  "spawn_regs req = \<lparr>ctx_pc = rq_entry_point req, ctx_sp = rq_stack_va_top req,
     ctx_arg0 = rq_arg0 req, ctx_arg1 = rq_arg1 req\<rparr>"

definition spawn_tcb :: "sel4_kernel \<Rightarrow> aos_child_spawn_req \<Rightarrow> u64 \<Rightarrow> u64 \<Rightarrow> u64 \<Rightarrow> u64 spawn" where
  "spawn_tcb k req child_cnode child_vspace ipc_frame =
     sp_bind (sp_retype k seL4_TCBObject 0 STEP_TCB) (\<lambda>child_tcb.
     sp_bind (sp_invoke k (TCB_Configure child_tcb child_cnode
                (64 - ucast (rq_cnode_size_bits req)) child_vspace 0 (rq_ipc_buf_va req) ipc_frame)
                AOS_CHILD_SPAWN_ERR_CONFIGURE STEP_CONFIGURE) (\<lambda>_.
     sp_bind (sp_invoke k (TCB_WriteRegisters child_tcb False (spawn_regs req))
                AOS_CHILD_SPAWN_ERR_CONFIGURE STEP_REGS) (\<lambda>_.
     sp_return child_tcb)))"

definition spawn_fault_install :: "sel4_kernel \<Rightarrow> aos_child_spawn_req \<Rightarrow> u64 \<Rightarrow> unit spawn" where
  "spawn_fault_install k req child_tcb s =
     (if rq_fault_install_ep req \<noteq> seL4_CapNull then
        (case ipc_call k (sp_trace s) (rq_fault_install_ep req)
                (rq_fault_install_label req AND 0xfffffffffffff) [child_tcb] of (label, tr) \<Rightarrow>
           (if label \<noteq> 0 then Inl (AOS_CHILD_SPAWN_ERR_CONFIGURE, STEP_FAULT_INSTALL, 0) else Inr (),
            s\<lparr>sp_trace := tr\<rparr>))
      else (Inr (), s))"

definition spawn_sched :: "sel4_kernel \<Rightarrow> aos_child_spawn_req \<Rightarrow> u64 \<Rightarrow> unit spawn" where
  "spawn_sched k req child_tcb =
     sp_bind (sp_retype k seL4_SchedContextObject (k_min_sc_bits k) STEP_SC) (\<lambda>sc.
     sp_bind (sp_invoke k (SchedControl_ConfigureFlags (rq_sched_control req) sc 10000 1000000 0 0 0)
                AOS_CHILD_SPAWN_ERR_CONFIGURE STEP_SC_CONFIGURE) (\<lambda>_.
     if rq_fault_install_ep req \<noteq> seL4_CapNull
     then sp_invoke k (SchedContext_Bind sc child_tcb) AOS_CHILD_SPAWN_ERR_CONFIGURE STEP_SCHED_PARAMS
     else sp_invoke k (TCB_SetSchedParams child_tcb (rq_self_tcb req) 255 (ucast (rq_priority req)) sc
            (rq_fault_ep req)) AOS_CHILD_SPAWN_ERR_CONFIGURE STEP_SCHED_PARAMS))"

text \<open>The mint for endowment entry \<open>i\<close>, and the loop over the entries that are left.\<close>

definition endow_mint :: "aos_child_spawn_req \<Rightarrow> u64 \<Rightarrow> nat \<Rightarrow> sel4_call" where
  "endow_mint req child_cnode i =
     CNode_Mint child_cnode (rq_endow_child_base_slot req + of_nat i) (rq_cnode_size_bits req)
       (rq_self_cnode req) (the (rq_endow_cptrs req) ! i) (rq_self_cnode_bits req)
       (unpack_rights (ec_rights (en_caps (the (rq_endow req)) ! i))) (rq_endow_badge req)"

fun spawn_endow :: "sel4_kernel \<Rightarrow> aos_child_spawn_req \<Rightarrow> u64 \<Rightarrow> nat \<Rightarrow> nat \<Rightarrow> unit spawn" where
  "spawn_endow k req child_cnode i 0 s = (Inr (), s)"
| "spawn_endow k req child_cnode i (Suc todo) s =
     (case invoke k (sp_trace s) (endow_mint req child_cnode i) of (mint_err, tr) \<Rightarrow>
        if mint_err \<noteq> seL4_NoError
        then (Inl (AOS_CHILD_SPAWN_ERR_ENDOW, STEP_ENDOW, of_nat i), s\<lparr>sp_trace := tr\<rparr>)
        else
          let c = en_caps (the (rq_endow req)) ! i in
          spawn_endow k req child_cnode (Suc i) todo (s\<lparr>sp_trace := tr,
            sp_ledger := snd (aos_endow_ledger_record (sp_ledger s) (rq_child_index req) (rq_child_name req)
                                (ec_kind c) (ec_rights c) (rq_endow_badge req))\<rparr>))"

text \<open>Everything before the child is started, in the order of the source.\<close>

definition spawn_build :: "sel4_kernel \<Rightarrow> aos_child_spawn_req \<Rightarrow> (u64 \<times> u64 \<times> u64) spawn" where
  "spawn_build k req =
     sp_bind (spawn_objects k req) (\<lambda>(child_cnode, child_vspace).
     sp_bind (spawn_map_content k req child_vspace) (\<lambda>_.
     sp_bind (spawn_map_extra k child_vspace
                (take (unat (rq_extra_map_count req)) (case rq_extra_maps req of None \<Rightarrow> [] | Some ms \<Rightarrow> ms))) (\<lambda>_.
     sp_bind (spawn_pages k req child_vspace) (\<lambda>ipc_frame.
     sp_bind (spawn_tcb k req child_cnode child_vspace ipc_frame) (\<lambda>child_tcb.
     sp_bind (spawn_fault_install k req child_tcb) (\<lambda>_.
     sp_bind (spawn_sched k req child_tcb) (\<lambda>_.
     sp_return (child_cnode, child_vspace, child_tcb))))))))"

definition spawn_stages :: "sel4_kernel \<Rightarrow> aos_child_spawn_req \<Rightarrow> (u64 \<times> u64 \<times> u64) spawn" where
  "spawn_stages k req =
     sp_bind (spawn_build k req) (\<lambda>(cnode, vspace, tcb).
     sp_bind (spawn_endow k req cnode 0 (unat (en_count (the (rq_endow req))))) (\<lambda>_.
     sp_return (cnode, vspace, tcb)))"

definition spawn_init :: "aos_child_spawn_req \<Rightarrow> aos_endow_ledger option \<Rightarrow> sel4_event list \<Rightarrow> spawn_state" where
  "spawn_init req led tr0 =
     \<lparr>sp_sc = aos_pt_scratch_init (rq_pool_ut req) (rq_self_cnode req)
        (ucast (rq_self_cnode_bits req)) (rq_scratch_slot req) (rq_scratch_count req),
      sp_trace = tr0, sp_content_mapped = False, sp_extra_mapped = 0, sp_ledger = led\<rparr>"

definition aos_child_spawn :: "sel4_kernel \<Rightarrow> aos_child_spawn_req option \<Rightarrow> aos_endow_ledger option \<Rightarrow>
    sel4_event list \<Rightarrow> aos_child_spawn_result \<times> aos_endow_ledger option \<times> sel4_event list" where
  "aos_child_spawn k reqp led tr0 =
     (case reqp of
        None \<Rightarrow> (zero_spawn_result\<lparr>rs_error := AOS_CHILD_SPAWN_ERR_VALIDATE\<rparr>, led, tr0)
      | Some req \<Rightarrow>
          if aos_endowment_validate (rq_endow req) (rq_parent_holdings req) \<noteq> 0
          then (zero_spawn_result\<lparr>rs_error := AOS_CHILD_SPAWN_ERR_VALIDATE\<rparr>, led, tr0)
          else if rq_endow_cptrs req = None \<and> en_count (the (rq_endow req)) \<noteq> 0
          then (zero_spawn_result\<lparr>rs_error := AOS_CHILD_SPAWN_ERR_VALIDATE\<rparr>, led, tr0)
          else if rq_scratch_count req < AOS_CHILD_SPAWN_SCRATCH_SLOTS
          then (zero_spawn_result\<lparr>rs_error := AOS_CHILD_SPAWN_ERR_SCRATCH\<rparr>, led, tr0)
          else if rq_extra_map_count req \<noteq> 0 \<and> rq_extra_maps req = None
          then (zero_spawn_result\<lparr>rs_error := AOS_CHILD_SPAWN_ERR_VALIDATE\<rparr>, led, tr0)
          else
            let mark = aos_endow_ledger_mark led in
            (case spawn_stages k req (spawn_init req led tr0) of
               (Inl (err, step, idx), s) \<Rightarrow>
                 (case fail_teardown k (sp_sc s) (sp_trace s) (sp_content_mapped s) (rq_content_frame req)
                         (case rq_extra_maps req of None \<Rightarrow> [] | Some ms \<Rightarrow> ms) (sp_extra_mapped s) of (sc, tr) \<Rightarrow>
                    (zero_spawn_result\<lparr>rs_error := err, rs_failed_step := step, rs_failed_endow_index := idx,
                       rs_scratch_base := sc_base_slot sc, rs_scratch_next := sc_base_slot sc\<rparr>,
                     aos_endow_ledger_rollback (sp_ledger s) mark, tr))
             | (Inr (cnode, vspace, tcb), s) \<Rightarrow>
                 (case invoke k (sp_trace s) (TCB_WriteRegisters tcb True (spawn_regs req)) of (err, tr) \<Rightarrow>
                    if err \<noteq> seL4_NoError then
                      (zero_spawn_result\<lparr>rs_cnode := cnode, rs_vspace := vspace, rs_tcb := tcb,
                         rs_error := AOS_CHILD_SPAWN_ERR_START, rs_failed_step := STEP_START,
                         rs_scratch_base := sc_base_slot (sp_sc s), rs_scratch_next := sc_next_slot (sp_sc s)\<rparr>,
                       aos_endow_ledger_rollback (sp_ledger s) mark, tr)
                    else
                      (zero_spawn_result\<lparr>rs_cnode := cnode, rs_vspace := vspace, rs_tcb := tcb,
                         rs_error := AOS_CHILD_SPAWN_OK, rs_scratch_base := sc_base_slot (sp_sc s),
                         rs_scratch_next := sc_next_slot (sp_sc s)\<rparr>, sp_ledger s, tr))))"

section \<open>What the construction may do\<close>

abbreviation all_maps :: "aos_child_spawn_req \<Rightarrow> aos_child_spawn_map list" where
  "all_maps req \<equiv> (case rq_extra_maps req of None \<Rightarrow> [] | Some ms \<Rightarrow> ms)"

abbreviation extras :: "aos_child_spawn_req \<Rightarrow> aos_child_spawn_map list" where
  "extras req \<equiv> take (unat (rq_extra_map_count req)) (all_maps req)"

definition in_scratch :: "aos_child_spawn_req \<Rightarrow> u64 \<Rightarrow> bool" where
  "in_scratch req x \<longleftrightarrow> rq_scratch_slot req \<le> x \<and> x < rq_scratch_slot req + rq_scratch_count req"

definition caller_frame :: "aos_child_spawn_req \<Rightarrow> u64 \<Rightarrow> bool" where
  "caller_frame req f \<longleftrightarrow> f = rq_content_frame req \<or> f \<in> em_frame ` set (extras req)"

text \<open>
  The calls of the construction: objects come from the parent's pool and land in the scratch range
  of the parent's own CNode, everything configured or mapped is such an object or one of the frames
  of the request, and no thread is resumed.
\<close>

fun build_call :: "aos_child_spawn_req \<Rightarrow> sel4_call \<Rightarrow> bool" where
  "build_call req (Untyped_Retype ut ty bits root ni nd off n) \<longleftrightarrow>
     ut = rq_pool_ut req \<and> root = rq_self_cnode req \<and> ni = 0 \<and> nd = 0 \<and> n = 1 \<and> in_scratch req off"
| "build_call req (ARM_Page_Map f vs va r) \<longleftrightarrow> (caller_frame req f \<or> in_scratch req f) \<and> in_scratch req vs"
| "build_call req (ARM_PageTable_Map pt vs va) \<longleftrightarrow> in_scratch req pt \<and> in_scratch req vs"
| "build_call req (ARM_ASIDPool_Assign p vs) \<longleftrightarrow> p = rq_asid_pool req \<and> in_scratch req vs"
| "build_call req (TCB_Configure t cn d vs x b f) \<longleftrightarrow>
     in_scratch req t \<and> in_scratch req cn \<and> in_scratch req vs \<and> in_scratch req f"
| "build_call req (TCB_WriteRegisters t resume regs) \<longleftrightarrow> in_scratch req t \<and> \<not> resume"
| "build_call req (TCB_SetSchedParams t a m p sc ep) \<longleftrightarrow> in_scratch req t \<and> in_scratch req sc"
| "build_call req (SchedControl_ConfigureFlags ct sc b p r g fl) \<longleftrightarrow> ct = rq_sched_control req \<and> in_scratch req sc"
| "build_call req (SchedContext_Bind sc t) \<longleftrightarrow> in_scratch req sc \<and> in_scratch req t"
| "build_call req _ \<longleftrightarrow> False"

text \<open>An accepted retype lies below the next free slot; an accepted mapping is known to the state.\<close>

fun accounted :: "aos_child_spawn_req \<Rightarrow> (u64 \<Rightarrow> bool) \<Rightarrow> u64 \<Rightarrow> sel4_call \<Rightarrow> bool" where
  "accounted req M nxt (Untyped_Retype ut ty bits root ni nd off n) \<longleftrightarrow> off < nxt"
| "accounted req M nxt (ARM_Page_Map f vs va r) \<longleftrightarrow> M f \<or> in_scratch req f"
| "accounted req M nxt _ \<longleftrightarrow> True"

lemma accounted_mono:
  "accounted req M nxt c \<Longrightarrow> nxt \<le> nxt' \<Longrightarrow> (\<And>f. M f \<Longrightarrow> M' f) \<Longrightarrow> accounted req M' nxt' c"
  by (cases c) auto

definition pinv :: "aos_child_spawn_req \<Rightarrow> sel4_event list \<Rightarrow> (u64 \<Rightarrow> bool) \<Rightarrow> pt_state \<Rightarrow> bool" where
  "pinv req tr0 M st \<longleftrightarrow> (case st of (sc, tr) \<Rightarrow>
     sc = (aos_pt_scratch_init (rq_pool_ut req) (rq_self_cnode req) (ucast (rq_self_cnode_bits req))
             (rq_scratch_slot req) (rq_scratch_count req))\<lparr>sc_next_slot := sc_next_slot sc\<rparr> \<and>
     rq_scratch_slot req \<le> sc_next_slot sc \<and>
     (sc_next_slot sc = rq_scratch_slot req \<or> sc_next_slot sc \<le> rq_scratch_slot req + rq_scratch_count req) \<and>
     (\<exists>evs. tr = tr0 @ evs \<and> list_all (build_call req) (invoked evs) \<and>
        list_all (accounted req M (sc_next_slot sc)) (accepted evs)))"

lemma pinv_sc:
  assumes "pinv req tr0 M (sc, tr)"
  shows "sc_pool_ut sc = rq_pool_ut req" "sc_self_cnode sc = rq_self_cnode req"
    "sc_self_cnode_bits sc = ucast (rq_self_cnode_bits req)" "sc_base_slot sc = rq_scratch_slot req"
    "sc_limit_slot sc = rq_scratch_slot req + rq_scratch_count req" "rq_scratch_slot req \<le> sc_next_slot sc"
proof -
  obtain n where sc: "sc = (aos_pt_scratch_init (rq_pool_ut req) (rq_self_cnode req)
      (ucast (rq_self_cnode_bits req)) (rq_scratch_slot req) (rq_scratch_count req))\<lparr>sc_next_slot := n\<rparr>"
    and n: "rq_scratch_slot req \<le> sc_next_slot sc" using assms by (auto simp: pinv_def)
  show "sc_pool_ut sc = rq_pool_ut req" "sc_self_cnode sc = rq_self_cnode req"
    "sc_self_cnode_bits sc = ucast (rq_self_cnode_bits req)" "sc_base_slot sc = rq_scratch_slot req"
    "sc_limit_slot sc = rq_scratch_slot req + rq_scratch_count req" "rq_scratch_slot req \<le> sc_next_slot sc"
    using n by (simp_all add: sc aos_pt_scratch_init_def)
qed

text \<open>The history grows by one answered call; the allocator may have moved on.\<close>

lemma pinv_invoke:
  assumes "pinv req tr0 M (sc, tr)" and "build_call req c" and "\<And>f. M f \<Longrightarrow> M' f"
    and "sc_next_slot sc \<le> n" and "n = sc_next_slot sc \<or> n \<le> rq_scratch_slot req + rq_scratch_count req"
    and "k_invoke k tr c = seL4_NoError \<Longrightarrow> accounted req M' n c"
  shows "pinv req tr0 M' (sc\<lparr>sc_next_slot := n\<rparr>, snd (invoke k tr c))"
proof -
  obtain evs where tr: "tr = tr0 @ evs" "list_all (build_call req) (invoked evs)"
    "list_all (accounted req M (sc_next_slot sc)) (accepted evs)" using assms(1) by (auto simp: pinv_def)
  have "list_all (accounted req M' n) (accepted evs)"
    using tr(3) accounted_mono [OF _ assms(4) assms(3)] by (auto simp: list_all_iff)
  moreover obtain a where "sc = (aos_pt_scratch_init (rq_pool_ut req) (rq_self_cnode req)
      (ucast (rq_self_cnode_bits req)) (rq_scratch_slot req) (rq_scratch_count req))\<lparr>sc_next_slot := a\<rparr>"
    using assms(1) by (auto simp: pinv_def)
  ultimately show ?thesis
    using assms(1,2,4,5,6) pinv_sc(6) [OF assms(1)] tr(1,2) unfolding pinv_def prod.case
    by (intro conjI exI [of _ "evs @ [Inv c (k_invoke k tr c)]"]) (auto simp: invoke_def)
qed

lemma pinv_step:
  assumes "pinv req tr0 M (sc, tr)" and "build_call req c" and "accounted req M (sc_next_slot sc) c"
  shows "pinv req tr0 M (sc, snd (invoke k tr c))"
  using pinv_invoke [OF assms(1,2), of M "sc_next_slot sc" k] assms(3) by simp

lemma slot_below_limit:
  assumes "pinv req tr0 M (sc, tr)" and "sc_next_slot sc < sc_limit_slot sc"
  shows "in_scratch req (sc_next_slot sc)" and "sc_next_slot sc < sc_next_slot sc + 1"
    and "sc_next_slot sc + 1 \<le> rq_scratch_slot req + rq_scratch_count req"
proof -
  show "in_scratch req (sc_next_slot sc)"
    using assms(2) pinv_sc(5,6) [OF assms(1)] by (simp add: in_scratch_def)
  have "unat (sc_next_slot sc + 1) = Suc (unat (sc_next_slot sc))"
    using unat_succ_no_overflow [OF assms(2)] .
  then show "sc_next_slot sc < sc_next_slot sc + 1"
    and "sc_next_slot sc + 1 \<le> rq_scratch_slot req + rq_scratch_count req"
    using assms(2) pinv_sc(5) [OF assms(1)] by (simp_all add: word_less_nat_alt word_le_nat_alt)
qed

lemma pinv_claim_null:
  assumes "pinv req tr0 M (sc, tr)" and "sc_next_slot sc \<le> n"
    and "n \<le> rq_scratch_slot req + rq_scratch_count req"
  shows "pinv req tr0 M (sc\<lparr>sc_next_slot := n\<rparr>, tr)"
proof -
  obtain evs where tr: "tr = tr0 @ evs" "list_all (build_call req) (invoked evs)"
    "list_all (accounted req M (sc_next_slot sc)) (accepted evs)" using assms(1) by (auto simp: pinv_def)
  moreover have "list_all (accounted req M n) (accepted evs)"
    using tr(3) accounted_mono [OF _ assms(2), of req M] by (auto simp: list_all_iff)
  moreover obtain a where "sc = (aos_pt_scratch_init (rq_pool_ut req) (rq_self_cnode req)
      (ucast (rq_self_cnode_bits req)) (rq_scratch_slot req) (rq_scratch_count req))\<lparr>sc_next_slot := a\<rparr>"
    using assms(1) by (auto simp: pinv_def)
  ultimately show ?thesis
    using assms(2,3) pinv_sc(6) [OF assms(1)] unfolding pinv_def by auto
qed

lemma pinv_retype:
  assumes "pinv req tr0 M st" and "retype_one k st ty bits = (r, st')"
  shows "pinv req tr0 M st'" and "r = Inr slot \<Longrightarrow> in_scratch req slot"
proof -
  obtain sc tr where st: "st = (sc, tr)" by (cases st)
  note inv = assms(1) [unfolded st]
  have "pinv req tr0 M st' \<and> (r = Inr slot \<longrightarrow> in_scratch req slot)"
  proof (cases "sc_limit_slot sc \<le> sc_next_slot sc")
    case True
    then have "r = Inl seL4_NotEnoughMemory" "st' = (sc, tr)"
      using assms(2) st by (auto simp: retype_one_def pt_scratch_claim_def)
    then show ?thesis using inv by simp
  next
    case False
    then have less: "sc_next_slot sc < sc_limit_slot sc" by simp
    note slot = slot_below_limit [OF inv less]
    let ?n = "sc_next_slot sc"
    let ?c = "Untyped_Retype (sc_pool_ut sc) ty bits (sc_self_cnode sc) 0 0 ?n 1"
    have claim: "pt_scratch_claim sc = (?n, sc\<lparr>sc_next_slot := ?n + 1\<rparr>)"
      using False by (simp add: pt_scratch_claim_def)
    have build: "build_call req ?c" using slot(1) pinv_sc(1,2) [OF inv] by simp
    consider "?n = 0" | "?n \<noteq> 0" "k_invoke k tr ?c = seL4_NoError" | "?n \<noteq> 0" "k_invoke k tr ?c \<noteq> seL4_NoError"
      by blast
    then show ?thesis
    proof cases
      case 1
      then have "r = Inl seL4_NotEnoughMemory" "st' = (sc\<lparr>sc_next_slot := ?n + 1\<rparr>, tr)"
        using assms(2) st claim by (auto simp: retype_one_def)
      then show ?thesis using pinv_claim_null [OF inv, of "?n + 1"] slot(2,3) by simp
    next
      case 2
      then have "r = Inr ?n" "st' = (sc\<lparr>sc_next_slot := ?n + 1\<rparr>, snd (invoke k tr ?c))"
        using assms(2) st claim by (auto simp: retype_one_def invoke_def)
      then show ?thesis using pinv_invoke [OF inv build, of M "?n + 1" k] slot by auto
    next
      case 3
      then have "r = Inl (k_invoke k tr ?c)" "st' = (sc, snd (invoke k tr ?c))"
        using assms(2) st claim by (auto simp: retype_one_def invoke_def)
      then show ?thesis using pinv_invoke [OF inv build, of M ?n k] 3 by simp
    qed
  qed
  then show "pinv req tr0 M st'" "r = Inr slot \<Longrightarrow> in_scratch req slot" by auto
qed

lemma pinv_map_loop:
  assumes "pinv req tr0 M st" and "in_scratch req vs" and "caller_frame req f \<or> in_scratch req f"
    and "pt_map_loop k n st f vs va = (err, st')"
  shows "pinv req tr0 (if err = seL4_NoError then (\<lambda>x. x = f \<or> M x) else M) st'"
  using assms(1,4)
proof (induction n arbitrary: st)
  case (Suc n)
  obtain sc tr where st: "st = (sc, tr)" by (cases st)
  let ?c = "ARM_Page_Map f vs va seL4_AllRights"
  have build: "build_call req ?c" using assms(2,3) by simp
  note inv = Suc.prems(1) [unfolded st]
  show ?case
  proof (cases "k_invoke k tr ?c = seL4_NoError")
    case True
    then have "err = seL4_NoError" "st' = (sc, snd (invoke k tr ?c))"
      using Suc.prems(2) st by (auto simp: invoke_def)
    then show ?thesis
      using pinv_invoke [OF inv build, of "\<lambda>x. x = f \<or> M x" "sc_next_slot sc" k] by simp
  next
    case False
    have inv1: "pinv req tr0 M (sc, snd (invoke k tr ?c))"
      using pinv_invoke [OF inv build, of M "sc_next_slot sc" k] False by simp
    obtain r st1 where rt: "retype_one k (sc, snd (invoke k tr ?c)) seL4_ARM_PageTableObject 0 = (r, st1)"
      by (cases "retype_one k (sc, snd (invoke k tr ?c)) seL4_ARM_PageTableObject 0")
    note inv2 = pinv_retype [OF inv1 rt]
    show ?thesis
    proof (cases "k_invoke k tr ?c \<noteq> seL4_FailedLookup \<or> n = 0 \<or> (\<exists>e. r = Inl e)")
      case True
      then have "st' = (sc, snd (invoke k tr ?c)) \<and> err \<noteq> seL4_NoError \<or> st' = st1 \<and> r = Inl err"
        using Suc.prems(2) st False rt by (auto simp: invoke_def split: if_splits)
      moreover have "err \<noteq> seL4_NoError" if "r = Inl err"
        using rt that by (auto simp: retype_one_def split: prod.splits if_splits)
      ultimately show ?thesis using inv1 inv2(1) by auto
    next
      case False': False
      then obtain pt sc1 tr1 where r: "r = Inr pt" "st1 = (sc1, tr1)" by (cases r; cases st1) auto
      let ?m = "ARM_PageTable_Map pt vs va"
      have inv3: "pinv req tr0 M (sc1, snd (invoke k tr1 ?m))"
        using inv2 r assms(2) by (intro pinv_step) simp_all
      show ?thesis
      proof (cases "k_invoke k tr1 ?m = seL4_NoError")
        case True
        then have "pt_map_loop k n (sc1, snd (invoke k tr1 ?m)) f vs va = (err, st')"
          using Suc.prems(2) st False False' rt r by (auto simp: invoke_def)
        then show ?thesis using Suc.IH [OF inv3] by simp
      next
        case F: False
        then have "err \<noteq> seL4_NoError" "st' = (sc1, snd (invoke k tr1 ?m))"
          using Suc.prems(2) st False False' rt r by (auto simp: invoke_def)
        then show ?thesis using inv3 by simp
      qed
    qed
  qed
qed auto

lemma pinv_weaken:
  assumes "pinv req tr0 M st" and "\<And>f. M f \<Longrightarrow> M' f \<or> in_scratch req f"
  shows "pinv req tr0 M' st"
proof -
  have "accounted req M' n c" if "accounted req M n c" for n c using that assms(2) by (cases c) auto
  then show ?thesis using assms(1) by (auto simp: pinv_def list_all_iff)
qed

section \<open>The stages keep the construction accounted for\<close>

definition caller_mapped :: "aos_child_spawn_req \<Rightarrow> spawn_state \<Rightarrow> u64 \<Rightarrow> bool" where
  "caller_mapped req s f \<longleftrightarrow> sp_content_mapped s \<and> f = rq_content_frame req \<or>
     f \<in> em_frame ` set (take (unat (sp_extra_mapped s)) (extras req))"

lemma caller_mapped_update [simp]:
  "caller_mapped req (s\<lparr>sp_sc := sc\<rparr>) = caller_mapped req s"
  "caller_mapped req (s\<lparr>sp_trace := tr\<rparr>) = caller_mapped req s"
  by (simp_all add: caller_mapped_def [abs_def])

definition binv :: "aos_child_spawn_req \<Rightarrow> sel4_event list \<Rightarrow> spawn_state \<Rightarrow> bool" where
  "binv req tr0 s \<longleftrightarrow> pinv req tr0 (caller_mapped req s) (sp_sc s, sp_trace s) \<and>
     unat (sp_extra_mapped s) \<le> length (extras req)"

definition build_errors :: "int set" where
  "build_errors = {AOS_CHILD_SPAWN_ERR_RETYPE, AOS_CHILD_SPAWN_ERR_ASID, AOS_CHILD_SPAWN_ERR_MAP,
     AOS_CHILD_SPAWN_ERR_CONFIGURE}"

text \<open>
  The contract of a stage entered with \<open>m\<close> extra frames mapped: whether it fails or not, the history
  stays accounted for and the ledger is untouched; when it succeeds, \<open>m'\<close> extra frames are mapped and
  its value satisfies \<open>Q\<close>.
\<close>

definition stage :: "aos_child_spawn_req \<Rightarrow> sel4_event list \<Rightarrow> nat \<Rightarrow> 'a spawn \<Rightarrow> nat \<Rightarrow> ('a \<Rightarrow> bool) \<Rightarrow> bool" where
  "stage req tr0 m f m' Q \<longleftrightarrow> (\<forall>s r s'. binv req tr0 s \<longrightarrow> unat (sp_extra_mapped s) = m \<longrightarrow> f s = (r, s') \<longrightarrow>
     binv req tr0 s' \<and> sp_ledger s' = sp_ledger s \<and>
     (\<forall>x. r = Inr x \<longrightarrow> Q x \<and> unat (sp_extra_mapped s') = m') \<and>
     (\<forall>e. r = Inl e \<longrightarrow> fst e \<in> build_errors))"

lemma stageI:
  assumes "\<And>s r s'. binv req tr0 s \<Longrightarrow> unat (sp_extra_mapped s) = m \<Longrightarrow> f s = (r, s') \<Longrightarrow>
     binv req tr0 s' \<and> sp_ledger s' = sp_ledger s \<and>
     (\<forall>x. r = Inr x \<longrightarrow> Q x \<and> unat (sp_extra_mapped s') = m') \<and>
     (\<forall>e. r = Inl e \<longrightarrow> fst e \<in> build_errors)"
  shows "stage req tr0 m f m' Q"
  using assms unfolding stage_def by blast

lemma stageD:
  assumes "stage req tr0 m f m' Q" "binv req tr0 s" "unat (sp_extra_mapped s) = m" "f s = (r, s')"
  shows "binv req tr0 s'" "sp_ledger s' = sp_ledger s" "r = Inr x \<Longrightarrow> Q x"
    "r = Inr x \<Longrightarrow> unat (sp_extra_mapped s') = m'" "r = Inl e \<Longrightarrow> fst e \<in> build_errors"
  using assms unfolding stage_def by blast+

lemma stage_return: "Q x \<Longrightarrow> stage req tr0 m (sp_return x) m Q"
  by (rule stageI) (auto simp: sp_return_def)

lemma stage_bind:
  assumes f: "stage req tr0 m f m1 Q" and g: "\<And>x. Q x \<Longrightarrow> stage req tr0 m1 (g x) m' R"
  shows "stage req tr0 m (sp_bind f g) m' R"
proof (rule stageI)
  fix s r s' assume s: "binv req tr0 s" "unat (sp_extra_mapped s) = m" and run: "sp_bind f g s = (r, s')"
  obtain r1 s1 where f1: "f s = (r1, s1)" by (cases "f s")
  note d = stageD [OF f s f1]
  show "binv req tr0 s' \<and> sp_ledger s' = sp_ledger s \<and>
     (\<forall>x. r = Inr x \<longrightarrow> R x \<and> unat (sp_extra_mapped s') = m') \<and> (\<forall>e. r = Inl e \<longrightarrow> fst e \<in> build_errors)"
  proof (cases r1)
    case (Inl e)
    then show ?thesis using run f1 d(1,2,5) by (auto simp: sp_bind_def)
  next
    case (Inr x)
    have g1: "g x s1 = (r, s')" using run f1 Inr by (simp add: sp_bind_def)
    note d' = stageD [OF g [OF d(3) [OF Inr]] d(1) d(4) [OF Inr] g1]
    show ?thesis using d(2) d' by auto
  qed
qed

lemma stage_retype: "stage req tr0 m (sp_retype k ty bits step) m (in_scratch req)"
proof (rule stageI)
  fix s r s' assume s: "binv req tr0 s" "unat (sp_extra_mapped s) = m" and run: "sp_retype k ty bits step s = (r, s')"
  obtain r1 sc tr where rt: "retype_one k (sp_sc s, sp_trace s) ty bits = (r1, sc, tr)"
    by (metis surj_pair)
  have inv: "pinv req tr0 (caller_mapped req s) (sp_sc s, sp_trace s)" using s(1) by (simp add: binv_def)
  note p = pinv_retype [OF inv rt]
  have s': "s' = s\<lparr>sp_sc := sc, sp_trace := tr\<rparr>"
    and r: "r = (case r1 of Inl _ \<Rightarrow> Inl (AOS_CHILD_SPAWN_ERR_RETYPE, step, 0) | Inr slot \<Rightarrow> Inr slot)"
    using run rt by (auto simp: sp_retype_def)
  show "binv req tr0 s' \<and> sp_ledger s' = sp_ledger s \<and>
     (\<forall>x. r = Inr x \<longrightarrow> in_scratch req x \<and> unat (sp_extra_mapped s') = m) \<and> (\<forall>e. r = Inl e \<longrightarrow> fst e \<in> build_errors)"
    using s p r by (cases r1) (auto simp: s' binv_def build_errors_def)
qed

text \<open>A mapping: the frame is of the parent's scratch range, or the state will record it as mapped.\<close>

lemma map_outcome:
  assumes "binv req tr0 s" and "in_scratch req vs" and "caller_frame req f \<or> in_scratch req f"
    and "sp_map k f vs va step s = (r, s')"
  obtains sc tr where "s' = s\<lparr>sp_sc := sc, sp_trace := tr\<rparr>"
    and "r = Inl (AOS_CHILD_SPAWN_ERR_MAP, step, 0) \<and> binv req tr0 s' \<or>
         r = Inr () \<and> pinv req tr0 (\<lambda>x. x = f \<or> caller_mapped req s x) (sc, tr)"
proof -
  obtain err sc tr where mp: "pt_map_loop k AOS_CHILD_SPAWN_MAX_PT_LEVELS (sp_sc s, sp_trace s) f vs va = (err, sc, tr)"
    by (metis surj_pair)
  have s': "s' = s\<lparr>sp_sc := sc, sp_trace := tr\<rparr>"
    and r: "r = (if err \<noteq> seL4_NoError then Inl (AOS_CHILD_SPAWN_ERR_MAP, step, 0) else Inr ())"
    using assms(4) mp by (auto simp: sp_map_def aos_pt_map_retrying_def)
  have inv: "pinv req tr0 (caller_mapped req s) (sp_sc s, sp_trace s)" using assms(1) by (simp add: binv_def)
  show thesis
    using that [OF s'] pinv_map_loop [OF inv assms(2,3) mp] r assms(1)
    by (cases "err = seL4_NoError") (auto simp: s' binv_def)
qed

lemma stage_map:
  assumes "in_scratch req vs" and "in_scratch req f"
  shows "stage req tr0 m (sp_map k f vs va step) m (\<lambda>_. True)"
proof (rule stageI)
  fix s r s' assume s: "binv req tr0 s" "unat (sp_extra_mapped s) = m" and run: "sp_map k f vs va step s = (r, s')"
  obtain sc tr where s': "s' = s\<lparr>sp_sc := sc, sp_trace := tr\<rparr>"
    and o1: "r = Inl (AOS_CHILD_SPAWN_ERR_MAP, step, 0) \<and> binv req tr0 s' \<or>
         r = Inr () \<and> pinv req tr0 (\<lambda>x. x = f \<or> caller_mapped req s x) (sc, tr)"
    using map_outcome [OF s(1) assms(1) disjI2 [OF assms(2)] run] by blast
  have "binv req tr0 s'" if "pinv req tr0 (\<lambda>x. x = f \<or> caller_mapped req s x) (sc, tr)"
    using pinv_weaken [OF that, of "caller_mapped req s"] assms(2) s(1)
    by (auto simp: s' binv_def)
  then show "binv req tr0 s' \<and> sp_ledger s' = sp_ledger s \<and>
     (\<forall>x. r = Inr x \<longrightarrow> True \<and> unat (sp_extra_mapped s') = m) \<and> (\<forall>e. r = Inl e \<longrightarrow> fst e \<in> build_errors)"
    using o1 s(2) by (auto simp: s' build_errors_def)
qed

lemma stage_invoke:
  assumes "build_call req c" and "\<And>M n. accounted req M n c" and "code \<in> build_errors"
  shows "stage req tr0 m (sp_invoke k c code step) m (\<lambda>_. True)"
proof (rule stageI)
  fix s r s' assume s: "binv req tr0 s" "unat (sp_extra_mapped s) = m" and run: "sp_invoke k c code step s = (r, s')"
  have s': "s' = s\<lparr>sp_trace := snd (invoke k (sp_trace s) c)\<rparr>" and r: "r = Inl (code, step, 0) \<or> r = Inr ()"
    using run by (auto simp: sp_invoke_def invoke_def split: if_splits)
  have "pinv req tr0 (caller_mapped req s) (sp_sc s, snd (invoke k (sp_trace s) c))"
    using s(1) assms(1,2) by (intro pinv_step) (auto simp: binv_def)
  then show "binv req tr0 s' \<and> sp_ledger s' = sp_ledger s \<and>
     (\<forall>x. r = Inr x \<longrightarrow> True \<and> unat (sp_extra_mapped s') = m) \<and> (\<forall>e. r = Inl e \<longrightarrow> fst e \<in> build_errors)"
    using s r assms(3) by (auto simp: s' binv_def)
qed

lemma build_errors_simps [simp]:
  "AOS_CHILD_SPAWN_ERR_ASID \<in> build_errors" "AOS_CHILD_SPAWN_ERR_CONFIGURE \<in> build_errors"
  by (simp_all add: build_errors_def)

lemma stage_objects:
  "stage req tr0 m (spawn_objects k req) m (\<lambda>(cn, vs). in_scratch req cn \<and> in_scratch req vs)"
  unfolding spawn_objects_def
  by (auto intro!: stage_bind [OF stage_retype] stage_bind [OF stage_invoke] stage_return)

lemma stage_map_content:
  assumes "in_scratch req vs"
  shows "stage req tr0 m (spawn_map_content k req vs) m (\<lambda>_. True)"
proof (rule stageI)
  fix s r s' assume s: "binv req tr0 s" "unat (sp_extra_mapped s) = m" and run: "spawn_map_content k req vs s = (r, s')"
  obtain r1 s1 where m1: "sp_map k (rq_content_frame req) vs (rq_content_va req) STEP_CONTENT_MAP s = (r1, s1)"
    by (cases "sp_map k (rq_content_frame req) vs (rq_content_va req) STEP_CONTENT_MAP s")
  have cf: "caller_frame req (rq_content_frame req) \<or> in_scratch req (rq_content_frame req)"
    by (simp add: caller_frame_def)
  obtain sc tr where s1: "s1 = s\<lparr>sp_sc := sc, sp_trace := tr\<rparr>"
    and o1: "r1 = Inl (AOS_CHILD_SPAWN_ERR_MAP, STEP_CONTENT_MAP, 0) \<and> binv req tr0 s1 \<or>
       r1 = Inr () \<and> pinv req tr0 (\<lambda>x. x = rq_content_frame req \<or> caller_mapped req s x) (sc, tr)"
    using map_outcome [OF s(1) assms cf m1] by blast
  have "binv req tr0 (s1\<lparr>sp_content_mapped := True\<rparr>)"
    if "pinv req tr0 (\<lambda>x. x = rq_content_frame req \<or> caller_mapped req s x) (sc, tr)"
    using pinv_weaken [OF that, of "caller_mapped req (s1\<lparr>sp_content_mapped := True\<rparr>)"] s(1)
    by (auto simp: s1 binv_def caller_mapped_def)
  then show "binv req tr0 s' \<and> sp_ledger s' = sp_ledger s \<and>
     (\<forall>x. r = Inr x \<longrightarrow> True \<and> unat (sp_extra_mapped s') = m) \<and> (\<forall>e. r = Inl e \<longrightarrow> fst e \<in> build_errors)"
    using o1 s(2) m1 run by (auto simp: spawn_map_content_def sp_bind_def s1 build_errors_def)
qed

lemma stage_map_extra:
  assumes "in_scratch req vs" and "extras req = done @ ms"
  shows "stage req tr0 (length done) (spawn_map_extra k vs ms) (length (extras req)) (\<lambda>_. True)"
  using assms(2)
proof (induction ms arbitrary: "done")
  case Nil
  then show ?case using stage_return [of "\<lambda>_. True"] by simp
next
  case (Cons e ms)
  have IH: "stage req tr0 (Suc (length done)) (spawn_map_extra k vs ms) (length (extras req)) (\<lambda>_. True)"
    using Cons.IH [of "done @ [e]"] Cons.prems by simp
  have e_in: "e \<in> set (extras req)" and len: "Suc (length done) \<le> length (extras req)"
    by (simp_all add: Cons.prems)
  have cf: "caller_frame req (em_frame e) \<or> in_scratch req (em_frame e)"
    using e_in by (auto simp: caller_frame_def)
  show ?case
  proof (rule stageI)
    fix s r s' assume s: "binv req tr0 s" "unat (sp_extra_mapped s) = length done"
      and run: "spawn_map_extra k vs (e # ms) s = (r, s')"
    obtain r1 s1 where m1: "sp_map k (em_frame e) vs (em_va e) STEP_EXTRA_MAP s = (r1, s1)"
      by (cases "sp_map k (em_frame e) vs (em_va e) STEP_EXTRA_MAP s")
    obtain sc tr where s1: "s1 = s\<lparr>sp_sc := sc, sp_trace := tr\<rparr>"
      and o1: "r1 = Inl (AOS_CHILD_SPAWN_ERR_MAP, STEP_EXTRA_MAP, 0) \<and> binv req tr0 s1 \<or>
         r1 = Inr () \<and> pinv req tr0 (\<lambda>x. x = em_frame e \<or> caller_mapped req s x) (sc, tr)"
      using map_outcome [OF s(1) assms(1) cf m1] by blast
    let ?s2 = "s1\<lparr>sp_extra_mapped := sp_extra_mapped s1 + 1\<rparr>"
    have n: "unat (sp_extra_mapped s + 1) = Suc (length done)"
      using len s(2) unat_succ_no_overflow [of "sp_extra_mapped s" "rq_extra_map_count req"]
      by (simp add: word_less_nat_alt)
    have "binv req tr0 ?s2" if "pinv req tr0 (\<lambda>x. x = em_frame e \<or> caller_mapped req s x) (sc, tr)"
    proof -
      have "pinv req tr0 (caller_mapped req ?s2) (sc, tr)"
        by (rule pinv_weaken [OF that])
          (auto simp: s1 caller_mapped_def n s(2) Cons.prems)
      then show ?thesis using len n by (simp add: s1 binv_def)
    qed
    then show "binv req tr0 s' \<and> sp_ledger s' = sp_ledger s \<and>
       (\<forall>x. r = Inr x \<longrightarrow> True \<and> unat (sp_extra_mapped s') = length (extras req)) \<and>
       (\<forall>e. r = Inl e \<longrightarrow> fst e \<in> build_errors)"
      using o1 stageD [OF IH, of ?s2 r s'] n m1 run
      by (elim disjE) (auto simp: sp_bind_def s1 build_errors_def)
  qed
qed

lemma stage_pages:
  assumes "in_scratch req vs"
  shows "stage req tr0 m (spawn_pages k req vs) m (in_scratch req)"
  unfolding spawn_pages_def using assms
  by (auto intro!: stage_bind [OF stage_retype] stage_bind [OF stage_map] stage_return)

lemma stage_tcb:
  assumes "in_scratch req cn" "in_scratch req vs" "in_scratch req ipc"
  shows "stage req tr0 m (spawn_tcb k req cn vs ipc) m (in_scratch req)"
  unfolding spawn_tcb_def using assms
  by (auto intro!: stage_bind [OF stage_retype] stage_bind [OF stage_invoke] stage_return)

lemma stage_fault_install:
  "stage req tr0 m (spawn_fault_install k req tcb) m (\<lambda>_. True)"
proof (rule stageI)
  fix s r s' assume s: "binv req tr0 s" "unat (sp_extra_mapped s) = m" and run: "spawn_fault_install k req tcb s = (r, s')"
  have ipc: "pinv req tr0 M (sc, tr @ [Ipc_Call a b c d])" if "pinv req tr0 M (sc, tr)" for M sc tr a b c d
    using that by (force simp: pinv_def)
  show "binv req tr0 s' \<and> sp_ledger s' = sp_ledger s \<and>
     (\<forall>x. r = Inr x \<longrightarrow> True \<and> unat (sp_extra_mapped s') = m) \<and> (\<forall>e. r = Inl e \<longrightarrow> fst e \<in> build_errors)"
    using s run ipc
    by (auto simp: spawn_fault_install_def ipc_call_def binv_def split: if_splits)
qed

lemma stage_sched:
  assumes "in_scratch req tcb"
  shows "stage req tr0 m (spawn_sched k req tcb) m (\<lambda>_. True)"
  unfolding spawn_sched_def using assms
  by (intro stage_bind [OF stage_retype] stage_bind [OF stage_invoke])
     (auto intro!: stage_invoke)

theorem stage_build:
  "stage req tr0 0 (spawn_build k req) (length (extras req))
     (\<lambda>(cn, vs, tcb). in_scratch req cn \<and> in_scratch req vs \<and> in_scratch req tcb)"
  unfolding spawn_build_def
  by (rule stage_bind [OF stage_objects], clarify)
     (auto intro!: stage_bind [OF stage_map_content] stage_bind [OF stage_map_extra [of _ _ "[]", simplified]]
        stage_bind [OF stage_pages] stage_bind [OF stage_tcb] stage_bind [OF stage_fault_install]
        stage_bind [OF stage_sched] stage_return)

section \<open>Endowment and teardown\<close>

abbreviation minted :: "aos_child_spawn_req \<Rightarrow> u64 \<Rightarrow> nat \<Rightarrow> nat \<Rightarrow> sel4_event list" where
  "minted req cn i j \<equiv> map (\<lambda>n. Inv (endow_mint req cn n) seL4_NoError) [i..<j]"

definition endow_entry :: "aos_child_spawn_req \<Rightarrow> nat \<Rightarrow> ledger_entry_args" where
  "endow_entry req i = (let c = en_caps (the (rq_endow req)) ! i in
     (rq_child_index req, rq_child_name req, ec_kind c, ec_rights c, rq_endow_badge req))"

lemma record_all_Cons: "record_all (endow_entry req i # xs) lp =
    record_all xs (snd (aos_endow_ledger_record lp (rq_child_index req) (rq_child_name req)
      (ec_kind (en_caps (the (rq_endow req)) ! i)) (ec_rights (en_caps (the (rq_endow req)) ! i)) (rq_endow_badge req)))"
  by (simp add: record_all_def endow_entry_def Let_def)

lemma endow_outcome:
  assumes "spawn_endow k req cn i todo s = (r, s')"
  shows "\<exists>j. i \<le> j \<and> s' = s\<lparr>sp_trace := sp_trace s', sp_ledger := record_all (map (endow_entry req) [i..<j]) (sp_ledger s)\<rparr> \<and>
    (r = Inr () \<and> j = i + todo \<and> sp_trace s' = sp_trace s @ minted req cn i j \<or>
     (\<exists>e. e \<noteq> seL4_NoError \<and> j < i + todo \<and> r = Inl (AOS_CHILD_SPAWN_ERR_ENDOW, STEP_ENDOW, of_nat j) \<and>
        sp_trace s' = sp_trace s @ minted req cn i j @ [Inv (endow_mint req cn j) e]))"
  using assms
proof (induction todo arbitrary: i s)
  case 0
  then show ?case by (auto simp: record_all_def)
next
  case (Suc todo)
  let ?c = "endow_mint req cn i"
  let ?e = "k_invoke k (sp_trace s) ?c"
  let ?led = "snd (aos_endow_ledger_record (sp_ledger s) (rq_child_index req) (rq_child_name req)
      (ec_kind (en_caps (the (rq_endow req)) ! i)) (ec_rights (en_caps (the (rq_endow req)) ! i)) (rq_endow_badge req))"
  let ?s1 = "s\<lparr>sp_trace := sp_trace s @ [Inv ?c ?e], sp_ledger := ?led\<rparr>"
  show ?case
  proof (cases "?e = seL4_NoError")
    case False
    then have "r = Inl (AOS_CHILD_SPAWN_ERR_ENDOW, STEP_ENDOW, of_nat i)"
      "s' = s\<lparr>sp_trace := sp_trace s @ [Inv ?c ?e]\<rparr>" using Suc.prems by (auto simp: invoke_def)
    then show ?thesis using False by (intro exI [of _ i]) (simp add: record_all_def)
  next
    case True
    then have "spawn_endow k req cn (Suc i) todo ?s1 = (r, s')" using Suc.prems by (simp add: invoke_def Let_def)
    from Suc.IH [OF this] obtain j where j: "Suc i \<le> j"
      "s' = ?s1\<lparr>sp_trace := sp_trace s', sp_ledger := record_all (map (endow_entry req) [Suc i..<j]) ?led\<rparr>"
      "r = Inr () \<and> j = Suc i + todo \<and> sp_trace s' = sp_trace ?s1 @ minted req cn (Suc i) j \<or>
       (\<exists>e. e \<noteq> seL4_NoError \<and> j < Suc i + todo \<and> r = Inl (AOS_CHILD_SPAWN_ERR_ENDOW, STEP_ENDOW, of_nat j) \<and>
        sp_trace s' = sp_trace ?s1 @ minted req cn (Suc i) j @ [Inv (endow_mint req cn j) e])" by auto
    have "[i..<j] = i # [Suc i..<j]" using j(1) by (simp add: upt_conv_Cons)
    then show ?thesis using j True by (intro exI [of _ j]) (auto simp: record_all_Cons)
  qed
qed

lemma teardown_outcome:
  assumes "sc_base_slot sc \<le> sc_next_slot sc"
  shows "\<exists>evs. staging_teardown k sc tr = (sc\<lparr>sc_next_slot := sc_base_slot sc\<rparr>, tr @ evs) \<and>
    invoked evs = map (\<lambda>n. CNode_Delete (sc_self_cnode sc) (of_nat n) (ucast (sc_self_cnode_bits sc)))
      (rev [unat (sc_base_slot sc)..<unat (sc_next_slot sc)])"
  using assms
proof (induction k sc tr rule: staging_teardown.induct)
  case (1 k sc tr)
  show ?case
  proof (cases "sc_base_slot sc < sc_next_slot sc")
    case False
    then have eq: "sc_next_slot sc = sc_base_slot sc" using "1.prems" by simp
    then have "sc\<lparr>sc_next_slot := sc_base_slot sc\<rparr> = sc" by (metis aos_pt_scratch.surjective aos_pt_scratch.update_convs(5))
    then show ?thesis using False eq by (intro exI [of _ "[]"]) (simp add: staging_teardown.simps [of k sc])
  next
    case True
    let ?sc = "sc\<lparr>sc_next_slot := sc_next_slot sc - 1\<rparr>"
    let ?d = "CNode_Delete (sc_self_cnode sc) (sc_next_slot sc - 1) (ucast (sc_self_cnode_bits sc))"
    have "sc_next_slot sc \<noteq> 0" using True by auto
    then have nz: "unat (sc_next_slot sc - 1) = unat (sc_next_slot sc) - 1" "0 < unat (sc_next_slot sc)"
      by (simp_all add: unat_minus_one)
    have "sc_base_slot ?sc \<le> sc_next_slot ?sc"
      using True nz by (simp add: word_le_nat_alt word_less_nat_alt)
    then obtain evs where evs: "staging_teardown k ?sc (snd (invoke k tr ?d)) =
        (?sc\<lparr>sc_next_slot := sc_base_slot ?sc\<rparr>, snd (invoke k tr ?d) @ evs)"
      "invoked evs = map (\<lambda>n. CNode_Delete (sc_self_cnode sc) (of_nat n) (ucast (sc_self_cnode_bits sc)))
        (rev [unat (sc_base_slot sc)..<unat (sc_next_slot sc) - 1])"
      using "1.IH" [OF True refl] nz(1) by auto
    have "staging_teardown k sc tr = (sc\<lparr>sc_next_slot := sc_base_slot sc\<rparr>,
        tr @ Inv ?d (k_invoke k tr ?d) # evs)"
      using True evs(1) by (simp add: staging_teardown.simps [of k sc] invoke_def)
    moreover have "rev [unat (sc_base_slot sc)..<unat (sc_next_slot sc)] =
        (unat (sc_next_slot sc) - 1) # rev [unat (sc_base_slot sc)..<unat (sc_next_slot sc) - 1]"
      using True nz(2) by (cases "unat (sc_next_slot sc)") (auto simp: word_less_nat_alt)
    moreover have "of_nat (unat (sc_next_slot sc) - 1) = sc_next_slot sc - 1"
      unfolding nz(1) [symmetric] by simp
    ultimately show ?thesis using evs(2) by (intro exI [of _ "Inv ?d (k_invoke k tr ?d) # evs"]) simp
  qed
qed

lemma unmap_outcome:
  "\<exists>evs. unmap_extra k maps n tr = tr @ evs \<and>
     invoked evs = map (\<lambda>i. ARM_Page_Unmap (em_frame (maps ! i))) (rev [0..<n])"
proof (induction n arbitrary: tr)
  case (Suc n)
  let ?c = "ARM_Page_Unmap (em_frame (maps ! n))"
  obtain evs where "unmap_extra k maps n (snd (invoke k tr ?c)) = snd (invoke k tr ?c) @ evs"
    "invoked evs = map (\<lambda>i. ARM_Page_Unmap (em_frame (maps ! i))) (rev [0..<n])" using Suc by blast
  then show ?case by (intro exI [of _ "Inv ?c (k_invoke k tr ?c) # evs"]) (simp add: invoke_def)
qed simp

section \<open>The outcome of a spawn\<close>

abbreviation admitted :: "aos_child_spawn_req \<Rightarrow> bool" where
  "admitted req \<equiv> aos_endowment_validate (rq_endow req) (rq_parent_holdings req) = 0 \<and>
     rq_endow_cptrs req \<noteq> None \<and> AOS_CHILD_SPAWN_SCRATCH_SLOTS \<le> rq_scratch_count req \<and>
     (rq_extra_map_count req = 0 \<or> rq_extra_maps req \<noteq> None)"

abbreviation endow_n :: "aos_child_spawn_req \<Rightarrow> nat" where
  "endow_n req \<equiv> unat (en_count (the (rq_endow req)))"

lemma validate_some:
  assumes "aos_endowment_validate e p = 0"
  obtains e' p' where "e = Some e'" "p = Some p'"
  using assms by (auto simp: aos_endowment_validate_def split: option.splits)

lemma spawn_rejected:
  assumes "\<not> admitted req"
  shows "\<exists>err \<in> {AOS_CHILD_SPAWN_ERR_VALIDATE, AOS_CHILD_SPAWN_ERR_SCRATCH}.
    aos_child_spawn k (Some req) led tr0 = (zero_spawn_result\<lparr>rs_error := err\<rparr>, led, tr0)"
proof -
  have "en_count (the (rq_endow req)) \<noteq> 0" if "aos_endowment_validate (rq_endow req) (rq_parent_holdings req) = 0"
    using that by (auto simp: aos_endowment_validate_def split: option.splits if_splits)
  then show ?thesis using assms by (auto simp: aos_child_spawn_def not_le)
qed

lemma binv_init: "binv req tr0 (spawn_init req led tr0)" "unat (sp_extra_mapped (spawn_init req led tr0)) = 0"
    "sp_ledger (spawn_init req led tr0) = led"
  by (auto simp: binv_def pinv_def spawn_init_def aos_pt_scratch_init_def)

text \<open>
  The construction either fails in a stage of its own, or at a mint, or completes; in each case the
  state \<open>s\<close> that the construction reached is accounted for, and the mints are the only calls after it.
\<close>

lemma stages_outcome:
  assumes "spawn_stages k req (spawn_init req led tr0) = (r, s')"
  obtains (build) e s where "r = Inl e" "fst e \<in> build_errors" "s' = s" "binv req tr0 s" "sp_ledger s = led"
  | (mint) s cn j err where "binv req tr0 s" "in_scratch req cn" "err \<noteq> seL4_NoError" "j < endow_n req"
      "r = Inl (AOS_CHILD_SPAWN_ERR_ENDOW, STEP_ENDOW, of_nat j)"
      "s' = s\<lparr>sp_trace := sp_trace s @ minted req cn 0 j @ [Inv (endow_mint req cn j) err],
          sp_ledger := record_all (map (endow_entry req) [0..<j]) led\<rparr>"
  | (built) s cn vs tcb where "binv req tr0 s" "in_scratch req cn" "in_scratch req vs" "in_scratch req tcb"
      "r = Inr (cn, vs, tcb)"
      "s' = s\<lparr>sp_trace := sp_trace s @ minted req cn 0 (endow_n req),
          sp_ledger := record_all (map (endow_entry req) [0..<endow_n req]) led\<rparr>"
proof -
  obtain r1 s where b: "spawn_build k req (spawn_init req led tr0) = (r1, s)"
    by (cases "spawn_build k req (spawn_init req led tr0)")
  note d = stageD [OF stage_build binv_init(1,2) b, unfolded binv_init(3)]
  show thesis
  proof (cases r1)
    case (Inl e)
    then have "r = Inl e" "s' = s" using assms b by (simp_all add: spawn_stages_def sp_bind_def)
    then show thesis by (rule build [OF _ d(5) [OF Inl] _ d(1,2)])
  next
    case (Inr x)
    obtain cn vs tcb where x: "x = (cn, vs, tcb)" by (cases x)
    obtain r2 s2 where e: "spawn_endow k req cn 0 (endow_n req) s = (r2, s2)"
      by (cases "spawn_endow k req cn 0 (endow_n req) s")
    have rs: "r = (case r2 of Inl e \<Rightarrow> Inl e | Inr _ \<Rightarrow> Inr (cn, vs, tcb))" "s' = s2"
      using assms b e Inr x by (auto simp: spawn_stages_def sp_bind_def sp_return_def split: sum.splits)
    have q: "in_scratch req cn" "in_scratch req vs" "in_scratch req tcb" using d(3) [OF Inr] x by auto
    from endow_outcome [OF e] obtain j where
      s2: "s2 = s\<lparr>sp_trace := sp_trace s2, sp_ledger := record_all (map (endow_entry req) [0..<j]) led\<rparr>"
      and cs: "r2 = Inr () \<and> j = endow_n req \<and> sp_trace s2 = sp_trace s @ minted req cn 0 j \<or>
       (\<exists>e. e \<noteq> seL4_NoError \<and> j < endow_n req \<and> r2 = Inl (AOS_CHILD_SPAWN_ERR_ENDOW, STEP_ENDOW, of_nat j) \<and>
        sp_trace s2 = sp_trace s @ minted req cn 0 j @ [Inv (endow_mint req cn j) e])"
      unfolding d(2) by auto
    from cs show thesis
    proof (elim disjE exE conjE)
      assume "r2 = Inr ()" "j = endow_n req" "sp_trace s2 = sp_trace s @ minted req cn 0 j"
      then show thesis using built [OF d(1) q] s2 rs by simp
    next
      fix e assume "e \<noteq> seL4_NoError" "j < endow_n req" "r2 = Inl (AOS_CHILD_SPAWN_ERR_ENDOW, STEP_ENDOW, of_nat j)"
        "sp_trace s2 = sp_trace s @ minted req cn 0 j @ [Inv (endow_mint req cn j) e]"
      then show thesis using mint [OF d(1) q(1)] s2 rs by simp
    qed
  qed
qed

text \<open>The calls that undo a construction that reached \<open>s\<close>, in order.\<close>

definition undo_calls :: "aos_child_spawn_req \<Rightarrow> spawn_state \<Rightarrow> sel4_call list" where
  "undo_calls req s =
     map (\<lambda>i. ARM_Page_Unmap (em_frame (all_maps req ! i))) (rev [0..<unat (sp_extra_mapped s)]) @
     (if sp_content_mapped s then [ARM_Page_Unmap (rq_content_frame req)] else []) @
     map (\<lambda>n. CNode_Delete (rq_self_cnode req) (of_nat n) (rq_self_cnode_bits req))
       (rev [unat (rq_scratch_slot req)..<unat (sc_next_slot (sp_sc s))])"

lemma fail_teardown_outcome:
  assumes "binv req tr0 s"
  shows "\<exists>undo. fail_teardown k (sp_sc s) tr (sp_content_mapped s) (rq_content_frame req) (all_maps req) (sp_extra_mapped s)
      = ((sp_sc s)\<lparr>sc_next_slot := rq_scratch_slot req\<rparr>, tr @ undo) \<and> invoked undo = undo_calls req s"
proof -
  obtain u1 where u1: "unmap_extra k (all_maps req) (unat (sp_extra_mapped s)) tr = tr @ u1"
    "invoked u1 = map (\<lambda>i. ARM_Page_Unmap (em_frame (all_maps req ! i))) (rev [0..<unat (sp_extra_mapped s)])"
    using unmap_outcome by blast
  let ?c = "ARM_Page_Unmap (rq_content_frame req)"
  let ?u2 = "if sp_content_mapped s then [Inv ?c (k_invoke k (tr @ u1) ?c)] else []"
  have p: "pinv req tr0 (caller_mapped req s) (sp_sc s, sp_trace s)" using assms by (simp add: binv_def)
  obtain u3 where u3: "staging_teardown k (sp_sc s) (tr @ u1 @ ?u2) =
      ((sp_sc s)\<lparr>sc_next_slot := rq_scratch_slot req\<rparr>, (tr @ u1 @ ?u2) @ u3)"
    "invoked u3 = map (\<lambda>n. CNode_Delete (rq_self_cnode req) (of_nat n) (ucast (ucast (rq_self_cnode_bits req) :: u64)))
      (rev [unat (rq_scratch_slot req)..<unat (sc_next_slot (sp_sc s))])"
    using teardown_outcome [of "sp_sc s" k "tr @ u1 @ ?u2"] pinv_sc [OF p] by auto
  have "fail_teardown k (sp_sc s) tr (sp_content_mapped s) (rq_content_frame req) (all_maps req) (sp_extra_mapped s)
      = ((sp_sc s)\<lparr>sc_next_slot := rq_scratch_slot req\<rparr>, tr @ u1 @ ?u2 @ u3)"
    using u3(1) by (simp add: fail_teardown_def u1(1) invoke_def Let_def split: if_splits)
  moreover have "ucast (ucast (rq_self_cnode_bits req) :: u64) = rq_self_cnode_bits req"
    by (rule bit_word_eqI) (simp add: bit_ucast_iff)
  ultimately show ?thesis
    using u1(2) u3(2) by (intro exI [of _ "u1 @ ?u2 @ u3"]) (simp add: undo_calls_def)
qed

lemma admitted_conds:
  assumes "admitted req"
  shows "\<not> rq_scratch_count req < AOS_CHILD_SPAWN_SCRATCH_SLOTS"
    "\<not> (rq_endow_cptrs req = None \<and> en_count (the (rq_endow req)) \<noteq> 0)"
    "\<not> (rq_extra_map_count req \<noteq> 0 \<and> rq_extra_maps req = None)"
    "\<not> aos_endowment_validate (rq_endow req) (rq_parent_holdings req) \<noteq> 0"
  using assms by (auto simp: not_less)

lemma spawn_run_failed:
  assumes "admitted req" and "spawn_stages k req (spawn_init req led tr0) = (Inl (err, step, idx), s)"
    and "fail_teardown k (sp_sc s) (sp_trace s) (sp_content_mapped s) (rq_content_frame req) (all_maps req)
      (sp_extra_mapped s) = (sc, tr)"
  shows "aos_child_spawn k (Some req) led tr0 =
    (zero_spawn_result\<lparr>rs_error := err, rs_failed_step := step, rs_failed_endow_index := idx,
       rs_scratch_base := sc_base_slot sc, rs_scratch_next := sc_base_slot sc\<rparr>,
     aos_endow_ledger_rollback (sp_ledger s) (aos_endow_ledger_mark led), tr)"
  unfolding aos_child_spawn_def option.case admitted_conds [OF assms(1), THEN if_not_P] Let_def
    assms(2,3) prod.case sum.case ..

lemma spawn_run_started:
  assumes "admitted req" and "spawn_stages k req (spawn_init req led tr0) = (Inr (cn, vs, tcb), s)"
    and "err = k_invoke k (sp_trace s) (TCB_WriteRegisters tcb True (spawn_regs req))"
  shows "aos_child_spawn k (Some req) led tr0 =
    (zero_spawn_result\<lparr>rs_cnode := cn, rs_vspace := vs, rs_tcb := tcb,
       rs_error := (if err = seL4_NoError then AOS_CHILD_SPAWN_OK else AOS_CHILD_SPAWN_ERR_START),
       rs_failed_step := (if err = seL4_NoError then STEP_NONE else STEP_START),
       rs_scratch_base := sc_base_slot (sp_sc s), rs_scratch_next := sc_next_slot (sp_sc s)\<rparr>,
     (if err = seL4_NoError then sp_ledger s
      else aos_endow_ledger_rollback (sp_ledger s) (aos_endow_ledger_mark led)),
     sp_trace s @ [Inv (TCB_WriteRegisters tcb True (spawn_regs req)) err])"
  unfolding aos_child_spawn_def option.case admitted_conds [OF assms(1), THEN if_not_P] Let_def
    assms(2) prod.case sum.case invoke_def
  by (simp add: assms(3) zero_spawn_result_def)

lemma spawn_outcome:
  assumes "aos_child_spawn k (Some req) led tr0 = (res, led', tr)"
  obtains (rejected) "\<not> admitted req" "tr = tr0" "led' = led"
      "rs_error res \<in> {AOS_CHILD_SPAWN_ERR_VALIDATE, AOS_CHILD_SPAWN_ERR_SCRATCH}"
  | (failed) s mid undo cn j where "admitted req" "binv req tr0 s" "tr = sp_trace s @ mid @ undo"
      "invoked undo = undo_calls req s" "rs_error res \<in> insert AOS_CHILD_SPAWN_ERR_ENDOW build_errors"
      "mid = [] \<or> in_scratch req cn \<and> j < endow_n req \<and>
         (\<exists>err. err \<noteq> seL4_NoError \<and> mid = minted req cn 0 j @ [Inv (endow_mint req cn j) err])"
      "j \<le> endow_n req"
      "led' = aos_endow_ledger_rollback (record_all (map (endow_entry req) [0..<j]) led) (aos_endow_ledger_mark led)"
  | (started) s err where "admitted req" "binv req tr0 s"
      "in_scratch req (rs_cnode res)" "in_scratch req (rs_vspace res)" "in_scratch req (rs_tcb res)"
      "tr = sp_trace s @ minted req (rs_cnode res) 0 (endow_n req) @
         [Inv (TCB_WriteRegisters (rs_tcb res) True (spawn_regs req)) err]"
      "rs_error res = (if err = seL4_NoError then AOS_CHILD_SPAWN_OK else AOS_CHILD_SPAWN_ERR_START)"
      "led' = (let l = record_all (map (endow_entry req) [0..<endow_n req]) led in
         if err = seL4_NoError then l else aos_endow_ledger_rollback l (aos_endow_ledger_mark led))"
proof (cases "admitted req")
  case False
  then show thesis using rejected spawn_rejected [OF False, of k led tr0] assms by auto
next
  case adm: True
  obtain r s' where st: "spawn_stages k req (spawn_init req led tr0) = (r, s')"
    by (cases "spawn_stages k req (spawn_init req led tr0)")
  from st show thesis
  proof (cases rule: stages_outcome)
    case (build e s)
    obtain a b c where e: "e = (a, b, c)" by (cases e)
    obtain undo where u: "fail_teardown k (sp_sc s) (sp_trace s) (sp_content_mapped s) (rq_content_frame req)
        (all_maps req) (sp_extra_mapped s) = ((sp_sc s)\<lparr>sc_next_slot := rq_scratch_slot req\<rparr>, sp_trace s @ undo)"
      "invoked undo = undo_calls req s" using fail_teardown_outcome [OF build(4)] by blast
    have "spawn_stages k req (spawn_init req led tr0) = (Inl (a, b, c), s)" using st build(1,3) e by simp
    note run = assms [unfolded spawn_run_failed [OF adm this u(1)]]
    show thesis
      using adm run build e u(2) by (intro failed [of s "[]" undo 0 0]) (auto simp: record_all_def)
  next
    case (mint s cn j err)
    obtain undo where u: "fail_teardown k (sp_sc s) (sp_trace s') (sp_content_mapped s) (rq_content_frame req)
        (all_maps req) (sp_extra_mapped s) = ((sp_sc s)\<lparr>sc_next_slot := rq_scratch_slot req\<rparr>, sp_trace s' @ undo)"
      "invoked undo = undo_calls req s" using fail_teardown_outcome [OF mint(1)] by blast
    have e: "spawn_stages k req (spawn_init req led tr0) =
        (Inl (AOS_CHILD_SPAWN_ERR_ENDOW, STEP_ENDOW, of_nat j), s')" using st mint(5) by simp
    have "fail_teardown k (sp_sc s') (sp_trace s') (sp_content_mapped s') (rq_content_frame req)
        (all_maps req) (sp_extra_mapped s') = ((sp_sc s)\<lparr>sc_next_slot := rq_scratch_slot req\<rparr>, sp_trace s' @ undo)"
      using u(1) by (simp add: mint(6))
    note run = assms [unfolded spawn_run_failed [OF adm e this]]
    show thesis
      using adm run mint u(2)
      by (intro failed [of s "minted req cn 0 j @ [Inv (endow_mint req cn j) err]" undo cn j]) auto
  next
    case (built s cn vs tcb)
    have "spawn_stages k req (spawn_init req led tr0) = (Inr (cn, vs, tcb), s')" using st built(5) by simp
    note run = assms [unfolded spawn_run_started [OF adm this refl]]
    show thesis
      using adm run built
      by (intro started [of s "k_invoke k (sp_trace s') (TCB_WriteRegisters tcb True (spawn_regs req))"])
        (auto simp: Let_def)
  qed
qed

section \<open>Properties\<close>

fun resumes :: "sel4_call \<Rightarrow> bool" where
  "resumes (TCB_WriteRegisters t resume regs) \<longleftrightarrow> resume"
| "resumes _ \<longleftrightarrow> False"

lemma build_call_not_resumes: "build_call req c \<Longrightarrow> \<not> resumes c"
  by (cases c) auto

lemma binv_trace:
  assumes "binv req tr0 s"
  obtains work where "sp_trace s = tr0 @ work" "list_all (build_call req) (invoked work)"
    "list_all (accounted req (caller_mapped req s) (sc_next_slot (sp_sc s))) (accepted work)"
  using assms by (auto simp: binv_def pinv_def)

lemma endow_mint_not_resumes [simp]: "\<not> resumes (endow_mint req cn i)"
  by (simp add: endow_mint_def)

lemma invoked_minted [simp]: "invoked (minted req cn i j) = map (endow_mint req cn) [i..<j]"
  by (induction j) auto

lemma accepted_minted [simp]: "accepted (minted req cn i j) = map (endow_mint req cn) [i..<j]"
  by (induction j) auto

lemma undo_not_resumes: "c \<in> set (undo_calls req s) \<Longrightarrow> \<not> resumes c"
  by (auto simp: undo_calls_def split: if_splits)

text \<open>
  C20. A child is set running only as the very last act of a spawn and only fully endowed.  A spawn
  issues a resuming register write exactly when it reports success or a failed start; its calls are
  then construction calls, followed by the mints of all endowment entries in order, each accepted by
  the kernel, followed by that one register write of the new thread, and the spawn reports success
  exactly when the kernel accepted it.
\<close>

theorem child_runs_only_endowed:
  assumes "aos_child_spawn k (Some req) led tr0 = (res, led', tr)"
  shows "\<exists>evs. tr = tr0 @ evs \<and>
    (list_ex resumes (invoked evs) \<longleftrightarrow> rs_error res \<in> {AOS_CHILD_SPAWN_OK, AOS_CHILD_SPAWN_ERR_START}) \<and>
    (rs_error res \<in> {AOS_CHILD_SPAWN_OK, AOS_CHILD_SPAWN_ERR_START} \<longrightarrow>
      (\<exists>build err. list_all (build_call req) (invoked build) \<and> evs = build @
         map (\<lambda>n. Inv (endow_mint req (rs_cnode res) n) seL4_NoError) [0..<unat (en_count (the (rq_endow req)))] @
         [Inv (TCB_WriteRegisters (rs_tcb res) True (spawn_regs req)) err] \<and>
         (rs_error res = AOS_CHILD_SPAWN_OK \<longleftrightarrow> err = seL4_NoError)))"
  using assms
proof (cases rule: spawn_outcome)
  case rejected
  then show ?thesis by (auto simp: spawn_codes)
next
  case (failed s mid undo cn j)
  obtain work where w: "sp_trace s = tr0 @ work" "list_all (build_call req) (invoked work)"
    using binv_trace [OF failed(2)] by blast
  have "\<not> list_ex resumes (invoked (work @ mid @ undo))"
    using w(2) failed(4,6) by (auto simp: list_ex_iff list_all_iff dest: build_call_not_resumes undo_not_resumes)
  moreover have "rs_error res \<notin> {AOS_CHILD_SPAWN_OK, AOS_CHILD_SPAWN_ERR_START}"
    using failed(5) by (auto simp: build_errors_def spawn_codes)
  ultimately show ?thesis using failed(3) w(1) by (intro exI [of _ "work @ mid @ undo"]) simp
next
  case (started s err)
  obtain work where w: "sp_trace s = tr0 @ work" "list_all (build_call req) (invoked work)"
    using binv_trace [OF started(2)] by blast
  then show ?thesis
    using started(6,7)
    by (intro exI [of _ "work @ minted req (rs_cnode res) 0 (endow_n req) @
        [Inv (TCB_WriteRegisters (rs_tcb res) True (spawn_regs req)) err]"])
      (auto simp: spawn_codes intro!: exI [of _ work])
qed

lemma undo_calls_split:
  assumes "binv req tr0 s"
  obtains fs xs where "undo_calls req s = map ARM_Page_Unmap fs @
      map (\<lambda>x. CNode_Delete (rq_self_cnode req) x (rq_self_cnode_bits req)) xs"
    and "\<forall>f. f \<in> set fs \<longleftrightarrow> caller_mapped req s f"
    and "\<forall>x. x \<in> set xs \<longleftrightarrow> rq_scratch_slot req \<le> x \<and> x < sc_next_slot (sp_sc s)"
proof
  let ?m = "unat (sp_extra_mapped s)"
  let ?fs = "map (\<lambda>i. em_frame (all_maps req ! i)) (rev [0..<?m]) @
      (if sp_content_mapped s then [rq_content_frame req] else [])"
  let ?xs = "map of_nat (rev [unat (rq_scratch_slot req)..<unat (sc_next_slot (sp_sc s))]) :: u64 list"
  show "undo_calls req s = map ARM_Page_Unmap ?fs @
      map (\<lambda>x. CNode_Delete (rq_self_cnode req) x (rq_self_cnode_bits req)) ?xs"
    by (simp add: undo_calls_def comp_def)
  have m: "?m \<le> length (extras req)" using assms by (simp add: binv_def)
  have "map (\<lambda>i. em_frame (all_maps req ! i)) [0..<?m] = map em_frame (take ?m (extras req))"
    using m by (intro nth_equalityI) auto
  then have "set (map (\<lambda>i. em_frame (all_maps req ! i)) [0..<?m]) = em_frame ` set (take ?m (extras req))"
    by (metis set_map)
  then show "\<forall>f. f \<in> set ?fs \<longleftrightarrow> caller_mapped req s f"
    by (auto simp: caller_mapped_def)
  show "\<forall>x. x \<in> set ?xs \<longleftrightarrow> rq_scratch_slot req \<le> x \<and> x < sc_next_slot (sp_sc s)"
  proof
    fix x :: u64
    have "x = of_nat (unat x)" by simp
    moreover have "unat (of_nat n :: u64) = n" if "n < unat (sc_next_slot (sp_sc s))" for n
      using that unsigned_less [of "sc_next_slot (sp_sc s)", where ?'a = nat] by (simp add: unat_of_nat)
    ultimately show "x \<in> set ?xs \<longleftrightarrow> rq_scratch_slot req \<le> x \<and> x < sc_next_slot (sp_sc s)"
      by (force simp: word_le_nat_alt word_less_nat_alt)
  qed
qed

lemma caller_mapped_frame: "caller_mapped req s f \<Longrightarrow> caller_frame req f"
  unfolding caller_mapped_def caller_frame_def by (blast dest: in_set_takeD)

lemma undone_in_scratch:
  assumes "binv req tr0 s" and "rq_scratch_slot req \<le> x" and "x < sc_next_slot (sp_sc s)"
  shows "in_scratch req x"
proof -
  have "pinv req tr0 (caller_mapped req s) (sp_sc s, sp_trace s)" using assms(1) by (simp add: binv_def)
  then have "sc_next_slot (sp_sc s) = rq_scratch_slot req \<or>
      sc_next_slot (sp_sc s) \<le> rq_scratch_slot req + rq_scratch_count req"
    unfolding pinv_def prod.case by (elim conjE)
  then show ?thesis using assms(2,3) unfolding in_scratch_def by (metis leD order_less_le_trans)
qed

lemma undo_confined:
  assumes "binv req tr0 s" and "c \<in> set (undo_calls req s)"
  shows "(\<exists>f. caller_frame req f \<and> c = ARM_Page_Unmap f) \<or>
    (\<exists>x. in_scratch req x \<and> c = CNode_Delete (rq_self_cnode req) x (rq_self_cnode_bits req))"
proof -
  obtain fs xs where u: "undo_calls req s = map ARM_Page_Unmap fs @
      map (\<lambda>x. CNode_Delete (rq_self_cnode req) x (rq_self_cnode_bits req)) xs"
    and fs: "\<forall>f. f \<in> set fs \<longleftrightarrow> caller_mapped req s f"
    and xs: "\<forall>x. x \<in> set xs \<longleftrightarrow> rq_scratch_slot req \<le> x \<and> x < sc_next_slot (sp_sc s)"
    using undo_calls_split [OF assms(1)] by blast
  consider f where "f \<in> set fs" "c = ARM_Page_Unmap f"
    | x where "x \<in> set xs" "c = CNode_Delete (rq_self_cnode req) x (rq_self_cnode_bits req)"
    using assms(2) u by auto
  then show ?thesis
    using fs xs caller_mapped_frame undone_in_scratch [OF assms(1)] by cases blast+
qed

lemma accounted_undone:
  assumes "accounted req M nxt c" and "build_call req c"
  shows "(\<forall>ut ty bits root ni nd off n. c = Untyped_Retype ut ty bits root ni nd off n \<longrightarrow>
            rq_scratch_slot req \<le> off \<and> off < nxt) \<and>
         (\<forall>f vs va r. c = ARM_Page_Map f vs va r \<longrightarrow> M f \<or> in_scratch req f)"
  using assms by (cases c) (auto simp: in_scratch_def)

text \<open>
  C21. A spawn that fails before it starts the child leaves nothing of the child behind.  Its history
  is what it built followed by an undo in which it unmaps frames of the caller and then deletes slots
  of its scratch range; every object the kernel had created is deleted, every page of the caller the
  kernel had mapped is unmapped, and nothing but the scratch range and the caller's frames is touched.
\<close>

theorem failed_spawn_undone:
  assumes "aos_child_spawn k (Some req) led tr0 = (res, led', tr)"
    and "rs_error res \<notin> {AOS_CHILD_SPAWN_OK, AOS_CHILD_SPAWN_ERR_START}"
  shows "\<exists>work undo fs xs. tr = tr0 @ work @ undo \<and>
    invoked undo = map ARM_Page_Unmap fs @
      map (\<lambda>x. CNode_Delete (rq_self_cnode req) x (rq_self_cnode_bits req)) xs \<and>
    (\<forall>f \<in> set fs. caller_frame req f) \<and> (\<forall>x \<in> set xs. in_scratch req x) \<and>
    (\<forall>ut ty bits root ni nd off n.
       Untyped_Retype ut ty bits root ni nd off n \<in> set (accepted work) \<longrightarrow> off \<in> set xs) \<and>
    (\<forall>f vs va r. ARM_Page_Map f vs va r \<in> set (accepted work) \<longrightarrow> f \<in> set fs \<or> in_scratch req f)"
  using assms(1)
proof (cases rule: spawn_outcome)
  case rejected
  then show ?thesis by (intro exI [of _ "[]"]) auto
next
  case (started s err)
  then show ?thesis using assms(2) by (auto split: if_splits)
next
  case (failed s mid undo cn j)
  obtain work where w: "sp_trace s = tr0 @ work" "list_all (build_call req) (invoked work)"
    "list_all (accounted req (caller_mapped req s) (sc_next_slot (sp_sc s))) (accepted work)"
    using binv_trace [OF failed(2)] by blast
  obtain fs xs where u: "undo_calls req s = map ARM_Page_Unmap fs @
      map (\<lambda>x. CNode_Delete (rq_self_cnode req) x (rq_self_cnode_bits req)) xs"
    "\<forall>f. f \<in> set fs \<longleftrightarrow> caller_mapped req s f"
    "\<forall>x. x \<in> set xs \<longleftrightarrow> rq_scratch_slot req \<le> x \<and> x < sc_next_slot (sp_sc s)"
    using undo_calls_split [OF failed(2)] by blast
  have "accounted req (caller_mapped req s) (sc_next_slot (sp_sc s)) c \<and> build_call req c"
    if "c \<in> set (accepted work)" for c
    using that w(2,3) accepted_subset_invoked [of work] by (auto simp: list_all_iff)
  note acc = accounted_undone [OF conjunct1 [OF this] conjunct2 [OF this]]
  have "accepted mid = [] \<or> (\<exists>n. accepted mid = map (endow_mint req cn) [0..<n])"
    using failed(6) by auto
  then have mid: "c \<in> set (accepted work)" if "c \<in> set (accepted (work @ mid))" "\<nexists>i. c = endow_mint req cn i" for c
    using that by auto
  have xs: "in_scratch req x" if "x \<in> set xs" for x
    using undone_in_scratch [OF failed(2)] u(3) that by blast
  show ?thesis
  proof (intro exI conjI ballI allI impI)
    show "tr = tr0 @ (work @ mid) @ undo" by (simp add: failed(3) w(1))
    show "invoked undo = map ARM_Page_Unmap fs @
      map (\<lambda>x. CNode_Delete (rq_self_cnode req) x (rq_self_cnode_bits req)) xs" by (simp only: failed(4) u(1))
    show "caller_frame req f" if "f \<in> set fs" for f using u(2) that caller_mapped_frame by blast
    show "in_scratch req x" if "x \<in> set xs" for x by (rule xs [OF that])
    show "off \<in> set xs" if "Untyped_Retype ut ty bits root ni nd off n \<in> set (accepted (work @ mid))"
      for ut ty bits root ni nd off n
      using acc [OF mid [OF that] mid [OF that]] u(3) by (simp add: endow_mint_def)
    show "f \<in> set fs \<or> in_scratch req f" if "ARM_Page_Map f vs va r \<in> set (accepted (work @ mid))" for f vs va r
      using acc [OF mid [OF that] mid [OF that]] u(2) by (simp add: endow_mint_def)
  qed
qed

text \<open>
  C22. The endowment ledger records a child exactly when it runs: after a successful spawn the ledger
  has one entry for each capability of the endowment, in order, and after every other outcome it is
  the ledger from before the call, entry for entry and drop count included.
\<close>

theorem spawn_ledger_exact:
  assumes "aos_child_spawn k (Some req) led tr0 = (res, led', tr)"
    and "case led of None \<Rightarrow> True | Some l \<Rightarrow>
      ledger_ok l \<and> unat (el_dropped l) + unat (en_count (the (rq_endow req))) < 2 ^ 32"
  shows "led' = (if rs_error res = AOS_CHILD_SPAWN_OK
     then record_all (map (\<lambda>c. (rq_child_index req, rq_child_name req, ec_kind c, ec_rights c, rq_endow_badge req))
       (map ((!) (en_caps (the (rq_endow req)))) [0..<unat (en_count (the (rq_endow req)))])) led
     else led)"
proof -
  have none: "record_all xs None = None" for xs
    by (induction xs) (auto simp: record_all_def aos_endow_ledger_record_def)
  have roll: "aos_endow_ledger_rollback (record_all (map (endow_entry req) [0..<j]) led) (aos_endow_ledger_mark led) = led"
    if "j \<le> endow_n req" for j
  proof (cases led)
    case None
    then show ?thesis by (simp add: none aos_endow_ledger_rollback_def)
  next
    case (Some l)
    have "ledger_ok l" "unat (el_dropped l) + length (map (endow_entry req) [0..<j]) < 2 ^ 32"
      using assms(2) Some that by auto
    then obtain l' where "record_all (map (endow_entry req) [0..<j]) (Some l) = Some l'"
      "ledger_grown (length (map (endow_entry req) [0..<j])) l l'" using ledger_record_all_ok by blast
    then show ?thesis using ledger_rollback_grown [OF \<open>ledger_ok l\<close>] Some by simp
  qed
  have eq: "map (\<lambda>c. (rq_child_index req, rq_child_name req, ec_kind c, ec_rights c, rq_endow_badge req))
       (map ((!) (en_caps (the (rq_endow req)))) [0..<endow_n req]) = map (endow_entry req) [0..<endow_n req]"
    by (simp add: endow_entry_def [abs_def] Let_def)
  show ?thesis unfolding eq using assms(1)
  proof (cases rule: spawn_outcome)
    case rejected
    then show "led' = (if rs_error res = AOS_CHILD_SPAWN_OK then record_all (map (endow_entry req) [0..<endow_n req]) led else led)"
      by (auto simp: spawn_codes)
  next
    case (failed s mid undo cn j)
    then show "led' = (if rs_error res = AOS_CHILD_SPAWN_OK then record_all (map (endow_entry req) [0..<endow_n req]) led else led)"
      using roll [OF failed(7)] by (auto simp: spawn_codes build_errors_def)
  next
    case (started s err)
    then show "led' = (if rs_error res = AOS_CHILD_SPAWN_OK then record_all (map (endow_entry req) [0..<endow_n req]) led else led)"
      using roll [of "endow_n req"] by (auto simp: spawn_codes Let_def)
  qed
qed

section \<open>Confinement\<close>

text \<open>
  A mint that stays within what the parent declares: from one of the parent's listed capabilities
  into the child's CNode, with rights that a declared holding of the same slot and kind has.
\<close>

definition covered_mint :: "aos_child_spawn_req \<Rightarrow> sel4_call \<Rightarrow> bool" where
  "covered_mint req c \<longleftrightarrow> (\<exists>i < unat (en_count (the (rq_endow req))). \<exists>cn pc.
     in_scratch req cn \<and> c = endow_mint req cn i \<and>
     pc \<in> set (en_caps (the (rq_parent_holdings req))) \<and>
     ec_parent_slot pc = ec_parent_slot (en_caps (the (rq_endow req)) ! i) \<and>
     ec_kind pc = ec_kind (en_caps (the (rq_endow req)) ! i) \<and>
     (capAllowWrite (mt_rights c) \<longrightarrow> capAllowWrite (unpack_rights (ec_rights pc))) \<and>
     (capAllowRead (mt_rights c) \<longrightarrow> capAllowRead (unpack_rights (ec_rights pc))) \<and>
     (capAllowGrant (mt_rights c) \<longrightarrow> capAllowGrant (unpack_rights (ec_rights pc))) \<and>
     (capAllowGrantReply (mt_rights c) \<longrightarrow> capAllowGrantReply (unpack_rights (ec_rights pc))))"

lemma and_push_bit_iff: "(x :: u32) AND push_bit n 1 \<noteq> 0 \<longleftrightarrow> bit x n"
  by (metis and_exp_eq_0_iff_not_bit mult_1 push_bit_eq_mult push_bit_of_1)

lemma unpack_rights_bits: "unpack_rights b = \<lparr>capAllowGrantReply = bit b 3, capAllowGrant = bit b 2,
    capAllowRead = bit b 1, capAllowWrite = bit b 0\<rparr>"
  unfolding unpack_rights_def and_push_bit_iff ..

lemma endow_mint_covered:
  assumes "aos_endowment_validate (rq_endow req) (rq_parent_holdings req) = 0"
    and "length (en_caps (the (rq_endow req))) = AOS_ENDOWMENT_MAX_CAPS" and "i < endow_n req" and "in_scratch req cn"
  shows "covered_mint req (endow_mint req cn i)"
proof -
  obtain e p where ep: "rq_endow req = Some e" "rq_parent_holdings req = Some p"
    using validate_some [OF assms(1)] by blast
  let ?rc = "en_caps e ! i"
  let ?held = "take (min (unat (en_count p)) AOS_ENDOWMENT_MAX_CAPS) (en_caps p)"
  have "unat (en_count e) \<le> AOS_ENDOWMENT_MAX_CAPS"
    and all: "\<forall>rc \<in> set (take (unat (en_count e)) (en_caps e)). holding_covers rc ?held = Some True"
    using assms(1) ep by (auto simp: aos_endowment_validate_def list_all_iff not_less split: if_splits)
  then have "?rc \<in> set (take (unat (en_count e)) (en_caps e))"
    using assms(2,3) ep by (auto simp: in_set_conv_nth)
  then obtain pc where f: "find (\<lambda>pc. ec_parent_slot pc = ec_parent_slot ?rc \<and> ec_kind pc = ec_kind ?rc) ?held = Some pc"
    and r: "\<forall>n. bit (ec_rights ?rc) n \<longrightarrow> bit (ec_rights pc) n"
    using all by (auto simp: holding_covers_iff)
  have "pc \<in> set (en_caps p)" "ec_parent_slot pc = ec_parent_slot ?rc" "ec_kind pc = ec_kind ?rc"
    using f by (auto simp: find_Some_iff in_set_conv_nth)
  then show ?thesis unfolding covered_mint_def using assms(3,4) r ep
    by (intro exI [of _ i] conjI exI [of _ cn] exI [of _ pc])
      (simp_all add: endow_mint_def unpack_rights_bits)
qed


section \<open>Witnesses\<close>

text \<open>A request with two extra frames that lends one of three declared frame rights.\<close>

definition ex_spawn_endow :: "u32 \<Rightarrow> aos_endowment" where
  "ex_spawn_endow rights = \<lparr>en_version = AOS_ENDOWMENT_VERSION, en_count = 1,
     en_caps = replicate 8 \<lparr>ec_kind = 5, ec_rights = rights, ec_parent_slot = 47\<rparr>\<rparr>"

definition ex_spawn_req :: aos_child_spawn_req where
  "ex_spawn_req = \<lparr>rq_pool_ut = 10, rq_self_cnode = 2, rq_self_cnode_bits = 12, rq_self_tcb = 1,
     rq_asid_pool = 11, rq_sched_control = 12, rq_scratch_slot = 100, rq_scratch_count = 24,
     rq_content_frame = 20, rq_content_va = 0x400000,
     rq_extra_maps = Some [\<lparr>em_frame = 21, em_va = 0x500000\<rparr>, \<lparr>em_frame = 22, em_va = 0x501000\<rparr>],
     rq_extra_map_count = 2, rq_fault_ep = 13, rq_fault_install_ep = 0, rq_fault_install_label = 0,
     rq_entry_point = 0x400000, rq_stack_va_top = 0x800000, rq_ipc_buf_va = 0x900000, rq_arg0 = 0, rq_arg1 = 0,
     rq_cnode_size_bits = 6, rq_priority = 100, rq_endow = Some (ex_spawn_endow 2),
     rq_parent_holdings = Some (ex_spawn_endow 3), rq_endow_cptrs = Some [47], rq_endow_child_base_slot = 4,
     rq_endow_badge = 9, rq_child_index = 1, rq_child_name = Some ''c''\<rparr>"

text \<open>A kernel that accepts everything but mints.\<close>

definition kernel_no_mint :: sel4_kernel where
  "kernel_no_mint = kernel_ok\<lparr>k_invoke := (\<lambda>_ c. case c of CNode_Mint _ _ _ _ _ _ _ _ \<Rightarrow> seL4_NotEnoughMemory | _ \<Rightarrow> seL4_NoError)\<rparr>"

lemma ex_spawn_ok:
  "rs_error (fst (aos_child_spawn kernel_ok (Some ex_spawn_req) None [])) = AOS_CHILD_SPAWN_OK"
  "fst (snd (aos_child_spawn kernel_ok (Some ex_spawn_req) None [])) = None"
  by code_simp+

lemma ex_spawn_no_mint:
  "rs_error (fst (aos_child_spawn kernel_no_mint (Some ex_spawn_req) None [])) = AOS_CHILD_SPAWN_ERR_ENDOW"
  "fst (snd (aos_child_spawn kernel_no_mint (Some ex_spawn_req) None [])) = None"
  by code_simp+

text \<open>The accepting kernel starts the child after its one mint.\<close>

theorem child_runs_only_endowed_witness:
  "\<exists>res tr build. aos_child_spawn kernel_ok (Some ex_spawn_req) None [] = (res, None, tr) \<and>
     rs_error res = AOS_CHILD_SPAWN_OK \<and> list_all (build_call ex_spawn_req) (invoked build) \<and>
     tr = build @ [Inv (endow_mint ex_spawn_req (rs_cnode res) 0) seL4_NoError,
            Inv (TCB_WriteRegisters (rs_tcb res) True (spawn_regs ex_spawn_req)) seL4_NoError]"
proof -
  obtain res led tr where run: "aos_child_spawn kernel_ok (Some ex_spawn_req) None [] = (res, led, tr)"
    by (metis surj_pair)
  have ok: "rs_error res = AOS_CHILD_SPAWN_OK" using ex_spawn_ok run by simp
  have "led = None" using run ex_spawn_ok by simp
  moreover have "unat (en_count (the (rq_endow ex_spawn_req))) = 1" by code_simp
  ultimately show ?thesis using child_runs_only_endowed [OF run] ok run by auto
qed

text \<open>A refused mint leaves the child's objects deleted and the caller's three frames unmapped.\<close>

theorem failed_spawn_undone_witness:
  "\<exists>res tr work undo fs xs. aos_child_spawn kernel_no_mint (Some ex_spawn_req) None [] = (res, None, tr) \<and>
     rs_error res = AOS_CHILD_SPAWN_ERR_ENDOW \<and> tr = work @ undo \<and>
     invoked undo = map ARM_Page_Unmap fs @ map (\<lambda>x. CNode_Delete 2 x 12) xs \<and>
     (\<forall>f \<in> set fs. caller_frame ex_spawn_req f) \<and> (\<forall>x \<in> set xs. in_scratch ex_spawn_req x)"
proof -
  obtain res led tr where run: "aos_child_spawn kernel_no_mint (Some ex_spawn_req) None [] = (res, led, tr)"
    by (metis surj_pair)
  have err: "rs_error res = AOS_CHILD_SPAWN_ERR_ENDOW" "led = None"
    using ex_spawn_no_mint run by auto
  have "rs_error res \<notin> {AOS_CHILD_SPAWN_OK, AOS_CHILD_SPAWN_ERR_START}" using err by (simp add: spawn_codes)
  moreover have [simp]: "rq_self_cnode ex_spawn_req = 2" "rq_self_cnode_bits ex_spawn_req = 12"
    by (simp_all add: ex_spawn_req_def)
  ultimately obtain work undo fs xs where "tr = work @ undo"
    "invoked undo = map ARM_Page_Unmap fs @ map (\<lambda>x. CNode_Delete 2 x 12) xs"
    "\<forall>f \<in> set fs. caller_frame ex_spawn_req f" "\<forall>x \<in> set xs. in_scratch ex_spawn_req x"
    using failed_spawn_undone [OF run] by auto
  then show ?thesis using err run by blast
qed

definition ex_spawn_ledger_before :: aos_endow_ledger where
  "ex_spawn_ledger_before = \<lparr>el_version = AOS_ENDOW_LEDGER_VERSION, el_count = 0, el_dropped = 0,
     el_entries = replicate AOS_ENDOW_LEDGER_MAX_ENTRIES zero_ledger_entry\<rparr>"

lemma ex_spawn_recorded:
  "rs_error (fst (aos_child_spawn kernel_no_mint (Some ex_spawn_req) (Some ex_spawn_ledger_before) [])) = AOS_CHILD_SPAWN_ERR_ENDOW"
  "rs_error (fst (aos_child_spawn kernel_ok (Some ex_spawn_req) (Some ex_spawn_ledger_before) [])) = AOS_CHILD_SPAWN_OK"
  by code_simp+

theorem spawn_ledger_exact_witness:
  "fst (snd (aos_child_spawn kernel_no_mint (Some ex_spawn_req) (Some ex_spawn_ledger_before) [])) =
     Some ex_spawn_ledger_before \<and>
   fst (snd (aos_child_spawn kernel_ok (Some ex_spawn_req) (Some ex_spawn_ledger_before) [])) =
     record_all [(1, Some ''c'', 5, 2, 9)] (Some ex_spawn_ledger_before)"
proof -
  obtain res led tr res' led' tr' where
    run: "aos_child_spawn kernel_no_mint (Some ex_spawn_req) (Some ex_spawn_ledger_before) [] = (res, led, tr)"
    and run': "aos_child_spawn kernel_ok (Some ex_spawn_req) (Some ex_spawn_ledger_before) [] = (res', led', tr')"
    by (metis surj_pair)
  have rs: "rs_error res = AOS_CHILD_SPAWN_ERR_ENDOW" "rs_error res' = AOS_CHILD_SPAWN_OK"
    using ex_spawn_recorded run run' by auto
  have ok: "ledger_ok ex_spawn_ledger_before" by (simp add: ledger_ok_def ex_spawn_ledger_before_def ledger_consts)
  have n: "unat (en_count (the (rq_endow ex_spawn_req))) = 1" by code_simp
  have "unat (el_dropped ex_spawn_ledger_before) + 1 < 2 ^ 32" by (simp add: ex_spawn_ledger_before_def)
  then have "led = Some ex_spawn_ledger_before" "led' = record_all [(1, Some ''c'', 5, 2, 9)] (Some ex_spawn_ledger_before)"
    using spawn_ledger_exact [OF run] spawn_ledger_exact [OF run'] rs ok n
    by (simp_all add: spawn_codes) (simp add: ex_spawn_req_def ex_spawn_endow_def)
  then show ?thesis using run run' by simp
qed


end
