(* ===== verification/UtAlloc.thy ===== *)
theory UtAlloc
  imports Sel4Kernel
begin

text \<open>
  The untyped-memory allocator of the root task, \<open>kernel/agentos-root-task/src/ut_alloc.c\<close>: the two
  tables of untyped capabilities built from BootInfo, the free-slot cursor, round-robin allocation
  with fall-over to the next untyped, and allocation of a frame at a given physical address by
  advancing an untyped's watermark.  The arrays \<open>g_ut\<close> and \<open>g_dev_ut\<close> with their counts are the lists
  of the entries in use; the capacity \<open>UT_MAX_CAPS\<close> is the length of BootInfo's descriptor array.
  Object sizes that come from the kernel's headers are a parameter.  The AArch64 configuration is
  modelled.
\<close>

unbundle bit_operations_syntax

section \<open>State\<close>

record ut_entry =
  ue_cap :: u64
  ue_paddr :: u64
  ue_pages_used :: u64
  ue_size_bits :: u8

record ut_state =
  g_ut :: "ut_entry list"
  g_ut_next :: u32
  g_dev_ut :: "ut_entry list"
  g_slot_base :: u64
  g_slot_cur :: u64
  g_slot_end :: u64

record seL4_UntypedDesc =
  ud_paddr :: u64
  ud_sizeBits :: u8
  ud_isDevice :: bool

record seL4_BootInfo =
  bi_empty_start :: u64
  bi_empty_end :: u64
  bi_untyped_start :: u64
  bi_untyped_end :: u64
  bi_untypedList :: "seL4_UntypedDesc list"

record sel4_sizes =
  seL4_TCBBits :: u8
  seL4_EndpointBits :: u8
  seL4_NotificationBits :: u8
  seL4_ReplyBits :: u8
  seL4_ARM_VCPUBits :: u8
  seL4_PageTableBits :: u8

definition seL4_CapInitThreadCNode :: u64 where "seL4_CapInitThreadCNode = 2"
definition seL4_ARCH_LargePageBits :: u8 where "seL4_ARCH_LargePageBits = 21"

type_synonym ut_world = "ut_state \<times> sel4_event list"

section \<open>Initialisation and slots\<close>

definition ut_zero :: ut_state where
  "ut_zero = \<lparr>g_ut = [], g_ut_next = 0, g_dev_ut = [], g_slot_base = 0, g_slot_cur = 0, g_slot_end = 0\<rparr>"

fun ut_init_loop :: "nat \<Rightarrow> u64 \<Rightarrow> u64 \<Rightarrow> seL4_UntypedDesc list \<Rightarrow> ut_state \<Rightarrow> ut_state" where
  "ut_init_loop max_caps start i [] s = s"
| "ut_init_loop max_caps start i (d # ds) s =
     (let e = \<lparr>ue_cap = start + i, ue_paddr = ud_paddr d, ue_pages_used = 0, ue_size_bits = ud_sizeBits d\<rparr> in
      if ud_isDevice d then
        ut_init_loop max_caps start (i + 1) ds
          (if length (g_dev_ut s) < max_caps then s\<lparr>g_dev_ut := g_dev_ut s @ [e]\<rparr> else s)
      else
        let s' = s\<lparr>g_ut := g_ut s @ [e]\<rparr> in
        if max_caps \<le> length (g_ut s') then s' else ut_init_loop max_caps start (i + 1) ds s')"

definition ut_alloc_init :: "seL4_BootInfo option \<Rightarrow> ut_state" where
  "ut_alloc_init bip =
     (case bip of
        None \<Rightarrow> ut_zero
      | Some bi \<Rightarrow>
          let max_caps = length (bi_untypedList bi);
              n = unat (ucast (bi_untyped_end bi - bi_untyped_start bi) :: u32)
          in ut_init_loop max_caps (bi_untyped_start bi) 0
               (take (if max_caps < n then max_caps else n) (bi_untypedList bi))
               (ut_zero\<lparr>g_slot_base := bi_empty_start bi, g_slot_cur := bi_empty_start bi, g_slot_end := bi_empty_end bi\<rparr>))"

definition ut_alloc_observe :: "ut_state \<Rightarrow> u64 \<times> u64" where
  "ut_alloc_observe s =
     fold (\<lambda>e (total, accounted). (total + push_bit (unat (ue_size_bits e)) 1, accounted + push_bit 12 (ue_pages_used e)))
       (g_ut s) (0, 0)"

definition ut_free_slot_base :: "ut_state \<Rightarrow> u64" where
  "ut_free_slot_base s = g_slot_base s"

definition ut_advance_slot_cursor :: "u64 \<Rightarrow> ut_state \<Rightarrow> ut_state" where
  "ut_advance_slot_cursor n_slots s =
     (let cur = g_slot_cur s + n_slots in
      s\<lparr>g_slot_cur := (if g_slot_end s < cur then g_slot_end s else cur)\<rparr>)"

definition ut_alloc_slot :: "ut_state \<Rightarrow> u64 \<times> ut_state" where
  "ut_alloc_slot s =
     (if g_slot_end s \<le> g_slot_cur s then (seL4_CapNull, s)
      else (g_slot_cur s, s\<lparr>g_slot_cur := g_slot_cur s + 1\<rparr>))"

section \<open>Allocation from the pool\<close>

definition ut_object_bits :: "sel4_sizes \<Rightarrow> seL4_ObjectType \<Rightarrow> u32 \<Rightarrow> u8" where
  "ut_object_bits z type size_bits =
     (if size_bits \<noteq> 0 then ucast size_bits
      else case type of
          seL4_TCBObject \<Rightarrow> seL4_TCBBits z
        | seL4_EndpointObject \<Rightarrow> seL4_EndpointBits z
        | seL4_NotificationObject \<Rightarrow> seL4_NotificationBits z
        | seL4_ReplyObject \<Rightarrow> seL4_ReplyBits z
        | seL4_ARM_VCPUObject \<Rightarrow> seL4_ARM_VCPUBits z
        | seL4_ARM_SmallPageObject \<Rightarrow> 12
        | seL4_ARM_LargePageObject \<Rightarrow> seL4_ARCH_LargePageBits
        | seL4_ARM_PageTableObject \<Rightarrow> seL4_PageTableBits z
        | seL4_ARM_VSpaceObject \<Rightarrow> seL4_PageTableBits z
        | _ \<Rightarrow> 0)"

definition use_pages :: "nat \<Rightarrow> u64 \<Rightarrow> ut_entry list \<Rightarrow> ut_entry list" where
  "use_pages i pages es = es[i := (es ! i)\<lparr>ue_pages_used := ue_pages_used (es ! i) + pages\<rparr>]"

fun ut_alloc_loop :: "sel4_kernel \<Rightarrow> sel4_sizes \<Rightarrow> seL4_ObjectType \<Rightarrow> u32 \<Rightarrow> u64 \<Rightarrow> u64 \<Rightarrow> u32 \<Rightarrow> u32 \<Rightarrow> nat \<Rightarrow>
    ut_world \<Rightarrow> seL4_Error \<times> ut_world" where
  "ut_alloc_loop k z type size_bits dest_cnode dest_index start i 0 w = (seL4_NotEnoughMemory, w)"
| "ut_alloc_loop k z type size_bits dest_cnode dest_index start i (Suc todo) (s, tr) =
     (let count = of_nat (length (g_ut s)) :: u32;
          idx = (start + i) mod count
      in case invoke k tr (Untyped_Retype (ue_cap (g_ut s ! unat idx)) type (ucast size_bits) dest_cnode 0 0 dest_index 1) of
           (err, tr') \<Rightarrow>
         if err = seL4_NoError then
           let bits = ut_object_bits z type size_bits in
           (seL4_NoError,
            (if 12 \<le> bits then s\<lparr>g_ut := use_pages (unat idx) (drop_bit 12 (push_bit (unat bits) 1)) (g_ut s)\<rparr> else s), tr')
         else if err = seL4_NotEnoughMemory \<or> err = seL4_InvalidArgument then
           ut_alloc_loop k z type size_bits dest_cnode dest_index start (i + 1) todo
             (s\<lparr>g_ut_next := (idx + 1) mod count\<rparr>, tr')
         else (err, s, tr'))"

definition ut_alloc :: "sel4_kernel \<Rightarrow> sel4_sizes \<Rightarrow> seL4_ObjectType \<Rightarrow> u32 \<Rightarrow> u64 \<Rightarrow> u64 \<Rightarrow>
    ut_world \<Rightarrow> seL4_Error \<times> ut_world" where
  "ut_alloc k z type size_bits dest_cnode dest_index w =
     (if g_ut (fst w) = [] then (seL4_NotEnoughMemory, w)
      else ut_alloc_loop k z type size_bits dest_cnode dest_index (g_ut_next (fst w)) 0 (length (g_ut (fst w))) w)"

text \<open>The out-parameter \<open>cap_out\<close> is the second component of a result.\<close>

definition ut_alloc_cap :: "sel4_kernel \<Rightarrow> sel4_sizes \<Rightarrow> seL4_ObjectType \<Rightarrow> u32 \<Rightarrow> ut_world \<Rightarrow>
    (seL4_Error \<times> u64) \<times> ut_world" where
  "ut_alloc_cap k z type size_bits w =
     (case ut_alloc_slot (fst w) of (slot, s) \<Rightarrow>
        if slot = seL4_CapNull then ((seL4_NotEnoughMemory, seL4_CapNull), s, snd w)
        else
          (case ut_alloc k z type size_bits seL4_CapInitThreadCNode slot (s, snd w) of (err, w') \<Rightarrow>
             if err \<noteq> seL4_NoError then ((err, seL4_CapNull), w') else ((seL4_NoError, slot), w')))"

section \<open>Frames at a physical address\<close>

definition frame_request_ok :: "u64 \<Rightarrow> u8 \<Rightarrow> bool" where
  "frame_request_ok paddr page_bits \<longleftrightarrow>
     \<not> (page_bits < 12 \<or> 64 \<le> page_bits) \<and> paddr AND (push_bit (unat page_bits) 1 - 1) = 0"

definition ut_covers :: "u64 \<Rightarrow> u64 \<Rightarrow> ut_entry \<Rightarrow> bool" where
  "ut_covers paddr object_bytes e \<longleftrightarrow>
     \<not> (paddr < ue_paddr e \<or> ue_paddr e + push_bit (unat (ue_size_bits e)) 1 < paddr + object_bytes)"

definition ut_contains :: "u64 \<Rightarrow> ut_entry \<Rightarrow> bool" where
  "ut_contains paddr e \<longleftrightarrow>
     \<not> (paddr < ue_paddr e \<or> ue_paddr e + push_bit (unat (ue_size_bits e)) 1 \<le> paddr)"

text \<open>
  Skipping RAM pages one small frame at a time, up to the target page.  The loops that advance an
  entry work on the entry itself; the caller stores it back.
\<close>

function phys_skip :: "sel4_kernel \<Rightarrow> u64 \<Rightarrow> ut_entry \<Rightarrow> ut_state \<Rightarrow> sel4_event list \<Rightarrow>
    seL4_Error \<times> ut_entry \<times> ut_world" where
  "phys_skip k target_page e s tr =
     (if ue_pages_used e < target_page then
        (case ut_alloc_slot s of (dummy, s1) \<Rightarrow>
           if dummy = seL4_CapNull then (seL4_NotEnoughMemory, e, s1, tr)
           else
             (case invoke k tr (Untyped_Retype (ue_cap e) seL4_ARM_SmallPageObject 0
                     seL4_CapInitThreadCNode 0 0 dummy 1) of (skip_err, tr') \<Rightarrow>
                if skip_err \<noteq> seL4_NoError then (skip_err, e, s1, tr')
                else phys_skip k target_page (e\<lparr>ue_pages_used := ue_pages_used e + 1\<rparr>) s1 tr'))
      else (seL4_NoError, e, s, tr))"
  by pat_completeness auto
termination
proof (relation "measure (\<lambda>(k, target, e, s, tr). unat target - unat (ue_pages_used e))")
  show "wf (measure (\<lambda>(k :: sel4_kernel, target :: u64, e :: ut_entry, s :: ut_state, tr :: sel4_event list).
      unat target - unat (ue_pages_used e)))" by simp
  fix k :: sel4_kernel and target s tr and e :: ut_entry and s1 :: ut_state and tr' :: "sel4_event list"
  assume less: "ue_pages_used e < target"
  have "unat (ue_pages_used e) < unat target" using less by (simp add: word_less_nat_alt)
  then show "((k, target, e\<lparr>ue_pages_used := ue_pages_used e + 1\<rparr>, s1, tr'), k, target, e, s, tr) \<in>
      measure (\<lambda>(k, target, e, s, tr). unat target - unat (ue_pages_used e))"
    using unat_succ_no_overflow [OF less] by simp
qed

declare phys_skip.simps [simp del]

definition ut_alloc_phys_cap_typed :: "sel4_kernel \<Rightarrow> u64 \<Rightarrow> seL4_ObjectType \<Rightarrow> u8 \<Rightarrow> ut_world \<Rightarrow>
    (seL4_Error \<times> u64) \<times> ut_world" where
  "ut_alloc_phys_cap_typed k paddr object_type page_bits w =
     (if \<not> frame_request_ok paddr page_bits then ((seL4_InvalidArgument, seL4_CapNull), w)
      else
        let object_bytes = push_bit (unat page_bits) 1; object_pages = drop_bit 12 object_bytes; s = fst w in
        case find (\<lambda>i. ut_covers paddr object_bytes (g_ut s ! i)) [0..<length (g_ut s)] of
          None \<Rightarrow> ((seL4_InvalidArgument, seL4_CapNull), w)
        | Some i \<Rightarrow>
            let e = g_ut s ! i; target_page = drop_bit 12 (paddr - ue_paddr e) in
            if target_page < ue_pages_used e then ((seL4_InvalidArgument, seL4_CapNull), w)
            else
              case phys_skip k target_page e s (snd w) of (skip_err, e1, s1, tr1) \<Rightarrow>
                let s2 = s1\<lparr>g_ut := (g_ut s1)[i := e1]\<rparr> in
                if skip_err \<noteq> seL4_NoError then ((skip_err, seL4_CapNull), s2, tr1)
                else if ue_pages_used e1 AND (object_pages - 1) \<noteq> 0
                then ((seL4_InvalidArgument, seL4_CapNull), s2, tr1)
                else
                  case ut_alloc_slot s2 of (slot, s3) \<Rightarrow>
                    if slot = seL4_CapNull then ((seL4_NotEnoughMemory, seL4_CapNull), s3, tr1)
                    else
                      case invoke k tr1 (Untyped_Retype (ue_cap e1) object_type 0
                              seL4_CapInitThreadCNode 0 0 slot 1) of (err, tr2) \<Rightarrow>
                        if err \<noteq> seL4_NoError then ((err, seL4_CapNull), s3, tr2)
                        else ((seL4_NoError, slot), s3\<lparr>g_ut := use_pages i object_pages (g_ut s3)\<rparr>, tr2))"

section \<open>Device frames\<close>

definition ut_alloc_device_frame :: "sel4_kernel \<Rightarrow> u64 \<Rightarrow> u64 \<Rightarrow> u64 \<Rightarrow> ut_world \<Rightarrow> seL4_Error \<times> ut_world" where
  "ut_alloc_device_frame k paddr pd_cnode target_slot w =
     (case find (\<lambda>i. ut_contains paddr (g_dev_ut (fst w) ! i)) [0..<length (g_dev_ut (fst w))] of
        None \<Rightarrow> (seL4_InvalidArgument, w)
      | Some i \<Rightarrow>
          (case invoke k (snd w) (Untyped_Retype (ue_cap (g_dev_ut (fst w) ! i)) seL4_ARM_SmallPageObject 0
                  seL4_CapInitThreadCNode pd_cnode 64 target_slot 1) of (err, tr) \<Rightarrow> (err, fst w, tr)))"

text \<open>
  The largest naturally aligned power-of-two block that starts at the watermark and does not pass the
  target: the inner loop of \<open>device_advance\<close>, and the outer loop that retains one such block after
  another.  Both are written as the source has them, so not returning is the value \<open>None\<close>.
\<close>

partial_function (option) advance_chunk :: "u64 \<Rightarrow> u64 \<Rightarrow> u64 \<Rightarrow> u32 \<Rightarrow> (u64 \<times> u32) option" where
  "advance_chunk used remaining pages bits =
     (if pages \<le> remaining div 2 \<and> used AND (push_bit 1 pages - 1) = 0
      then advance_chunk used remaining (push_bit 1 pages) (bits + 1)
      else Some (pages, bits))"

partial_function (option) advance_loop :: "sel4_kernel \<Rightarrow> u64 \<Rightarrow> ut_entry \<Rightarrow> ut_state \<Rightarrow> sel4_event list \<Rightarrow>
    (seL4_Error \<times> ut_entry \<times> ut_world) option" where
  "advance_loop k target_page e s tr =
     (if ue_pages_used e < target_page then
        Option.bind (advance_chunk (ue_pages_used e) (target_page - ue_pages_used e) 1 12) (\<lambda>(pages, bits).
          case ut_alloc_slot s of (slot, s1) \<Rightarrow>
            if slot = seL4_CapNull then Some (seL4_NotEnoughMemory, e, s1, tr)
            else
              (case invoke k tr (Untyped_Retype (ue_cap e) seL4_UntypedObject (ucast bits)
                      seL4_CapInitThreadCNode 0 0 slot 1) of (err, tr') \<Rightarrow>
                 if err \<noteq> seL4_NoError then Some (err, e, s1, tr')
                 else advance_loop k target_page (e\<lparr>ue_pages_used := ue_pages_used e + pages\<rparr>) s1 tr'))
      else Some (seL4_NoError, e, s, tr))"

definition device_advance :: "sel4_kernel \<Rightarrow> u64 \<Rightarrow> ut_entry \<Rightarrow> ut_state \<Rightarrow> sel4_event list \<Rightarrow>
    (seL4_Error \<times> ut_entry \<times> ut_world) option" where
  "device_advance k target_page e s tr =
     (if target_page < ue_pages_used e then Some (seL4_InvalidArgument, e, s, tr)
      else advance_loop k target_page e s tr)"

definition ut_alloc_device_cap_typed :: "sel4_kernel \<Rightarrow> u64 \<Rightarrow> seL4_ObjectType \<Rightarrow> u8 \<Rightarrow> ut_world \<Rightarrow>
    ((seL4_Error \<times> u64) \<times> ut_world) option" where
  "ut_alloc_device_cap_typed k paddr object_type page_bits w =
     (if \<not> frame_request_ok paddr page_bits then Some ((seL4_InvalidArgument, seL4_CapNull), w)
      else
        let object_bytes = push_bit (unat page_bits) 1; object_pages = drop_bit 12 object_bytes; s = fst w in
        case find (\<lambda>i. ut_covers paddr object_bytes (g_dev_ut s ! i)) [0..<length (g_dev_ut s)] of
          None \<Rightarrow> Some ((seL4_InvalidArgument, seL4_CapNull), w)
        | Some i \<Rightarrow>
            let e = g_dev_ut s ! i; target_page = drop_bit 12 (paddr - ue_paddr e) in
            if target_page < ue_pages_used e then Some ((seL4_InvalidArgument, seL4_CapNull), w)
            else
              Option.bind (device_advance k target_page e s (snd w)) (\<lambda>(skip_err, e1, s1, tr1).
                let s2 = s1\<lparr>g_dev_ut := (g_dev_ut s1)[i := e1]\<rparr> in
                if skip_err \<noteq> seL4_NoError then Some ((skip_err, seL4_CapNull), s2, tr1)
                else if ue_pages_used e1 AND (object_pages - 1) \<noteq> 0
                then Some ((seL4_InvalidArgument, seL4_CapNull), s2, tr1)
                else
                  case ut_alloc_slot s2 of (slot, s3) \<Rightarrow>
                    if slot = seL4_CapNull then Some ((seL4_NotEnoughMemory, seL4_CapNull), s3, tr1)
                    else
                      case invoke k tr1 (Untyped_Retype (ue_cap e1) object_type 0
                              seL4_CapInitThreadCNode 0 0 slot 1) of (err, tr2) \<Rightarrow>
                        if err \<noteq> seL4_NoError then Some ((err, seL4_CapNull), s3, tr2)
                        else Some ((seL4_NoError, slot),
                               s3\<lparr>g_dev_ut := use_pages i object_pages (g_dev_ut s3)\<rparr>, tr2)))"

definition ut_alloc_device_cap :: "sel4_kernel \<Rightarrow> u64 \<Rightarrow> ut_world \<Rightarrow> ((seL4_Error \<times> u64) \<times> ut_world) option" where
  "ut_alloc_device_cap k paddr w =
     (case ut_alloc_slot (fst w) of (slot, s) \<Rightarrow>
        if slot = seL4_CapNull then Some ((seL4_NotEnoughMemory, seL4_CapNull), s, snd w)
        else
          case find (\<lambda>i. ut_contains paddr (g_dev_ut s ! i)) [0..<length (g_dev_ut s)] of
            None \<Rightarrow> Some ((seL4_InvalidArgument, seL4_CapNull), s, snd w)
          | Some i \<Rightarrow>
              let e = g_dev_ut s ! i; target_page = drop_bit 12 (paddr - ue_paddr e) in
              if target_page < ue_pages_used e then Some ((seL4_InvalidArgument, seL4_CapNull), s, snd w)
              else
                Option.bind (device_advance k target_page e s (snd w)) (\<lambda>(skip_err, e1, s1, tr1).
                  let s2 = s1\<lparr>g_dev_ut := (g_dev_ut s1)[i := e1]\<rparr> in
                  if skip_err \<noteq> seL4_NoError then Some ((skip_err, seL4_CapNull), s2, tr1)
                  else
                    case invoke k tr1 (Untyped_Retype (ue_cap e1) seL4_ARM_SmallPageObject 0
                            seL4_CapInitThreadCNode 0 0 slot 1) of (err, tr2) \<Rightarrow>
                      if err \<noteq> seL4_NoError then Some ((err, seL4_CapNull), s2, tr2)
                      else Some ((seL4_NoError, slot), s2\<lparr>g_dev_ut := use_pages i 1 (g_dev_ut s2)\<rparr>, tr2)))"

section \<open>Word facts\<close>

lemma unat_pow2 [simp]:
  assumes "n < 64"
  shows "unat (2 ^ n :: u64) = 2 ^ n"
proof -
  have "(2 :: nat) ^ n < 2 ^ 64" using assms by (rule power_strict_increasing) simp
  then have "unat (of_nat (2 ^ n) :: u64) = 2 ^ n" by (simp only: unat_of_nat) simp
  then show ?thesis by simp
qed

lemma and_pow2_minus_1: "x AND (2 ^ n - 1) = take_bit n (x :: u64)"
  by (simp add: take_bit_eq_mask mask_eq_exp_minus_1)

lemma aligned_iff: "x AND (2 ^ n - 1) = 0 \<longleftrightarrow> 2 ^ n dvd unat (x :: u64)"
proof -
  have "take_bit n x = 0 \<longleftrightarrow> unat (take_bit n x) = 0" by simp
  also have "unat (take_bit n x) = unat x mod 2 ^ n" by (simp add: unsigned_take_bit_eq take_bit_nat_def)
  finally show ?thesis by (simp add: and_pow2_minus_1 dvd_eq_mod_eq_0)
qed

lemma unat_drop12: "unat (drop_bit 12 (x :: u64)) = unat x div 4096"
  using unsigned_less [of x, where ?'a = nat]
  by (simp add: unsigned_drop_bit_eq drop_bit_nat_def take_bit_nat_def)

section \<open>The inner loop picks the largest aligned block\<close>

declare advance_chunk.simps [code] and advance_loop.simps [code]

lemma advance_chunk_step:
  assumes "j < 64"
  shows "advance_chunk used remaining (2 ^ j) bits =
    (if 2 ^ Suc j \<le> unat remaining \<and> 2 ^ Suc j dvd unat used
     then advance_chunk used remaining (2 ^ Suc j) (bits + 1) else Some (2 ^ j, bits))"
proof -
  have "2 ^ j \<le> remaining div 2 \<longleftrightarrow> 2 ^ j \<le> unat remaining div 2"
    using assms by (simp add: word_le_nat_alt unat_div)
  also have "\<dots> \<longleftrightarrow> 2 ^ Suc j \<le> unat remaining" by (simp add: less_eq_div_iff_mult_less_eq mult.commute)
  finally have le: "2 ^ j \<le> remaining div 2 \<longleftrightarrow> 2 ^ Suc j \<le> unat remaining" .
  have two: "push_bit 1 (2 ^ j :: u64) = 2 ^ Suc j" by (simp add: push_bit_eq_mult)
  show ?thesis
    by (subst advance_chunk.simps) (simp only: le two aligned_iff)
qed

lemma advance_chunk_spec:
  assumes "j < 64" and "2 ^ j \<le> unat remaining" and "2 ^ j dvd unat used"
  shows "\<exists>m < 64. advance_chunk used remaining (2 ^ j) (12 + of_nat j) = Some (2 ^ m, 12 + of_nat m) \<and>
    2 ^ m \<le> unat remaining \<and> 2 ^ m dvd unat used \<and> \<not> (2 ^ Suc m \<le> unat remaining \<and> 2 ^ Suc m dvd unat used)"
  using assms
proof (induction "64 - j" arbitrary: j)
  case (Suc d)
  show ?case
  proof (cases "2 ^ Suc j \<le> unat remaining \<and> 2 ^ Suc j dvd unat used")
    case True
    have "(2 :: nat) ^ Suc j < 2 ^ 64" using True unsigned_less [of remaining, where ?'a = nat] by simp
    then have "Suc j < 64" using power_less_imp_less_exp [of "2 :: nat" "Suc j" 64] by simp
    then show ?thesis
      using Suc.hyps(1) [of "Suc j"] Suc.hyps(2) True advance_chunk_step [OF Suc.prems(1)]
      by (simp add: add.assoc add.commute [of 1])
  next
    case False
    then show ?thesis
      using Suc.prems advance_chunk_step [OF Suc.prems(1)] by (intro exI [of _ j]) auto
  qed
qed simp

section \<open>Where the kernel puts an object\<close>

text \<open>
  The physical layout of an untyped is the kernel's: a retype takes the next address at or above the
  watermark that is a multiple of the object's size, and moves the watermark behind the object.  The
  watermark of an untyped is therefore a function of the accepted retypes of it.  The sizes of
  objects and the address at which an accepted call placed its object are parameters, \<open>ob\<close> and
  \<open>place\<close>; \<open>bump_kernel\<close> is the documented behaviour of \<open>seL4_Untyped_Retype\<close>.
\<close>

type_synonym obj_size = "seL4_ObjectType \<Rightarrow> u64 \<Rightarrow> nat"

definition align_up :: "nat \<Rightarrow> nat \<Rightarrow> nat" where
  "align_up n b = (n + (2 ^ b - 1)) div 2 ^ b * 2 ^ b"

lemma align_up_dvd: "2 ^ b dvd n \<Longrightarrow> align_up n b = n"
proof -
  assume "2 ^ b dvd n"
  then obtain q where n: "n = 2 ^ b * q" by (elim dvdE)
  have "((2 ^ b - 1) + 2 ^ b * q) div 2 ^ b = q + (2 ^ b - 1) div 2 ^ b" by (rule div_mult_self2) simp
  also have "(2 ^ b - 1) div 2 ^ b = (0 :: nat)" by (rule div_less) simp
  finally show ?thesis unfolding align_up_def n by (simp add: add.commute mult.commute)
qed

fun bump_step :: "obj_size \<Rightarrow> u64 \<Rightarrow> sel4_call \<Rightarrow> nat \<Rightarrow> nat" where
  "bump_step ob u (Untyped_Retype ut ty sb root ni nd off n) mark =
     (if ut = u then align_up mark (ob ty sb) + unat n * 2 ^ ob ty sb else mark)"
| "bump_step ob u _ mark = mark"

definition watermark :: "obj_size \<Rightarrow> u64 \<Rightarrow> sel4_event list \<Rightarrow> nat" where
  "watermark ob u tr = fold (bump_step ob u) (accepted tr) 0"

definition bump_kernel :: "obj_size \<Rightarrow> (sel4_event list \<Rightarrow> sel4_call \<Rightarrow> nat) \<Rightarrow> (u64 \<Rightarrow> nat) \<Rightarrow> bool" where
  "bump_kernel ob place base \<longleftrightarrow> (\<forall>tr ut ty sb root ni nd off n.
     place tr (Untyped_Retype ut ty sb root ni nd off n) = base ut + align_up (watermark ob ut tr) (ob ty sb))"

definition sizes_ok :: "obj_size \<Rightarrow> bool" where
  "sizes_ok ob \<longleftrightarrow> (\<forall>sb. ob seL4_UntypedObject sb = unat sb) \<and> (\<forall>sb. ob seL4_ARM_SmallPageObject sb = 12)"

lemma watermark_event [simp]:
  "watermark ob u (tr @ [Inv c err]) =
     (if err = seL4_NoError then bump_step ob u c (watermark ob u tr) else watermark ob u tr)"
  by (simp add: watermark_def)

text \<open>A retype at a watermark that is a multiple of the object's size is placed right there.\<close>

lemma bump_step_aligned:
  assumes "2 ^ ob ty sb dvd mark"
  shows "bump_step ob u (Untyped_Retype u ty sb root ni nd off 1) mark = mark + 2 ^ ob ty sb"
  using align_up_dvd [OF assms] by simp

section \<open>Advancing a device untyped\<close>

lemma ut_alloc_slot_state:
  assumes "ut_alloc_slot s = (slot, s')"
  shows "s' = s\<lparr>g_slot_cur := g_slot_cur s'\<rparr>"
  using assms by (auto simp: ut_alloc_slot_def split: if_splits)

lemma ut_alloc_slot_obtain:
  assumes "ut_alloc_slot s = (slot, s')"
  obtains cur where "s' = s\<lparr>g_slot_cur := cur\<rparr>"
  using ut_alloc_slot_state [OF assms] by blast

lemma dvd_next_pow:
  assumes "(2 :: nat) ^ m dvd p" and "\<not> 2 ^ Suc m dvd p"
  shows "2 ^ Suc m dvd p + 2 ^ m"
proof -
  obtain q where q: "p = 2 ^ m * q" using assms(1) by (elim dvdE)
  then have "odd q" using assms(2) by (auto simp: mult.commute elim!: evenE)
  then have "even (q + 1)" by simp
  then have "2 ^ m * 2 dvd 2 ^ m * (q + 1)" by (intro mult_dvd_mono) simp_all
  then show ?thesis using q by (simp add: algebra_simps)
qed

text \<open>
  The number of blocks a run still needs: below \<open>2 ^ a\<close> pages from a multiple of \<open>2 ^ a\<close>, at most \<open>a\<close>;
  otherwise at most twice the word width less \<open>a\<close>.
\<close>

definition blocks_bound :: "nat \<Rightarrow> nat \<Rightarrow> nat" where
  "blocks_bound a r = (if r < 2 ^ a then a else 128 - a)"

lemma blocks_bound_step:
  fixes p :: nat
  assumes "2 ^ a dvd p" "a \<le> 64" "r < 2 ^ 64" "2 ^ m \<le> r" "2 ^ m dvd p" "\<not> (2 ^ Suc m \<le> r \<and> 2 ^ Suc m dvd p)"
  shows "\<exists>b \<le> 64. 2 ^ b dvd p + 2 ^ m \<and> blocks_bound b (r - 2 ^ m) < blocks_bound a r"
proof -
  have m: "m < 64" using le_less_trans [OF assms(4,3)] power_less_imp_less_exp [of "2 :: nat" m 64] by simp
  show ?thesis
  proof (cases "2 ^ Suc m \<le> r")
    case False
    have "m < a" if "r < 2 ^ a"
      using le_less_trans [OF assms(4) that] by (simp add: power_less_imp_less_exp)
    then have "blocks_bound m (r - 2 ^ m) < blocks_bound a r"
      using False assms(2) m by (auto simp: blocks_bound_def)
    then show ?thesis using assms(5) m by (intro exI [of _ m]) auto
  next
    case True
    then have nd: "\<not> 2 ^ Suc m dvd p" using assms(6) by simp
    have "\<not> Suc m \<le> a" using nd assms(1) by (meson dvd_trans le_imp_power_dvd)
    moreover have "Suc m < 64"
      using le_less_trans [OF True assms(3)] power_less_imp_less_exp [of "2 :: nat" "Suc m" 64] by simp
    moreover have "\<not> r < 2 ^ a"
      using \<open>\<not> Suc m \<le> a\<close> True power_increasing [of a "Suc m" "2 :: nat"] by simp
    ultimately have "blocks_bound (Suc m) (r - 2 ^ m) < blocks_bound a r"
      using assms(2) by (auto simp: blocks_bound_def)
    then show ?thesis using dvd_next_pow [OF assms(5) nd] \<open>Suc m < 64\<close> by (intro exI [of _ "Suc m"]) auto
  qed
qed

text \<open>What advancing an entry towards a target page does to the entry, the slots and the watermarks.\<close>

definition advanced :: "obj_size \<Rightarrow> u64 \<Rightarrow> ut_entry \<Rightarrow> ut_state \<Rightarrow> sel4_event list \<Rightarrow> seL4_Error \<Rightarrow> ut_entry \<Rightarrow>
    ut_state \<Rightarrow> sel4_event list \<Rightarrow> bool" where
  "advanced ob t e s tr err e' s' tr' \<longleftrightarrow>
     e' = e\<lparr>ue_pages_used := ue_pages_used e'\<rparr> \<and> s' = s\<lparr>g_slot_cur := g_slot_cur s'\<rparr> \<and>
     ue_pages_used e' \<le> t \<and> (err = seL4_NoError \<longrightarrow> ue_pages_used e' = t) \<and>
     (\<forall>u. u \<noteq> ue_cap e \<longrightarrow> watermark ob u tr' = watermark ob u tr) \<and>
     (sizes_ok ob \<and> watermark ob (ue_cap e) tr = 4096 * unat (ue_pages_used e) \<longrightarrow>
        watermark ob (ue_cap e) tr' = 4096 * unat (ue_pages_used e'))"

lemma advanced_trans:
  assumes "advanced ob t e s tr err1 e1 s1 tr1" and "advanced ob t e1 s1 tr1 err e' s' tr'"
  shows "advanced ob t e s tr err e' s' tr'"
proof -
  obtain p1 c1 where e1: "e1 = e\<lparr>ue_pages_used := p1\<rparr>" "s1 = s\<lparr>g_slot_cur := c1\<rparr>"
    using assms(1) by (auto simp: advanced_def)
  obtain p2 c2 where e2: "e' = e1\<lparr>ue_pages_used := p2\<rparr>" "s' = s1\<lparr>g_slot_cur := c2\<rparr>"
    using assms(2) by (auto simp: advanced_def)
  have cap: "ue_cap e1 = ue_cap e" using e1 by simp
  show ?thesis
    unfolding advanced_def
  proof (intro conjI)
    show "e' = e\<lparr>ue_pages_used := ue_pages_used e'\<rparr>" "s' = s\<lparr>g_slot_cur := g_slot_cur s'\<rparr>"
      using e1 e2 by simp_all
  qed (use assms cap in \<open>auto simp: advanced_def\<close>)
qed

lemma unat_block_bits: "m < 64 \<Longrightarrow> unat (ucast (12 + of_nat m :: u32) :: u64) = 12 + m"
  by (simp add: unat_ucast_up unat_word_ariths unat_of_nat)

lemma advance_block:
  assumes "m < 64" "2 ^ m dvd unat (ue_pages_used e)" "2 ^ m \<le> unat (t - ue_pages_used e)" "ue_pages_used e \<le> t"
    and "ut_alloc_slot s = (slot, s1)"
    and "c = Untyped_Retype (ue_cap e) seL4_UntypedObject (ucast (12 + of_nat m :: u32)) seL4_CapInitThreadCNode 0 0 slot 1"
  shows "unat (ue_pages_used e + 2 ^ m) = unat (ue_pages_used e) + 2 ^ m"
    and "advanced ob t e s tr seL4_NotEnoughMemory (e\<lparr>ue_pages_used := ue_pages_used e + 2 ^ m\<rparr>) s1 (tr @ [Inv c seL4_NoError])"
proof -
  have "unat (ue_pages_used e) + 2 ^ m \<le> unat t"
    using assms(3,4) by (simp add: unat_sub_le word_le_nat_alt)
  then show p: "unat (ue_pages_used e + 2 ^ m) = unat (ue_pages_used e) + 2 ^ m"
    using assms(1) unsigned_less [of t, where ?'a = nat] by (subst unat_plus_no_overflow) simp_all
  have "2 ^ (12 + m) dvd 4096 * unat (ue_pages_used e)"
    using mult_dvd_mono [of "4096 :: nat" 4096 "2 ^ m"] assms(2) by (simp add: power_add)
  then have "bump_step ob (ue_cap e) c (4096 * unat (ue_pages_used e)) = 4096 * (unat (ue_pages_used e) + 2 ^ m)"
    if "sizes_ok ob"
    using that bump_step_aligned [of ob seL4_UntypedObject "ucast (12 + of_nat m :: u32)"] assms(1)
    by (simp add: assms(6) sizes_ok_def unat_block_bits power_add)
  then show "advanced ob t e s tr seL4_NotEnoughMemory (e\<lparr>ue_pages_used := ue_pages_used e + 2 ^ m\<rparr>) s1 (tr @ [Inv c seL4_NoError])"
    using ut_alloc_slot_state [OF assms(5)] \<open>unat (ue_pages_used e) + 2 ^ m \<le> unat t\<close>
    unfolding advanced_def by (auto simp: assms(6) p word_le_nat_alt)
qed

lemma advanced_refused:
  assumes "ut_alloc_slot s = (slot, s1)" and "ue_pages_used e \<le> t" "err \<noteq> seL4_NoError"
  shows "advanced ob t e s tr err e s1 (tr @ [Inv c err])" and "advanced ob t e s tr err e s1 tr"
  using assms ut_alloc_slot_state [OF assms(1)] by (simp_all add: advanced_def)

lemma advance_loop_ok:
  assumes "ue_pages_used e \<le> t" and "2 ^ a dvd unat (ue_pages_used e)" and "a \<le> 64"
  shows "\<exists>err e' s' evs. advance_loop k t e s tr = Some (err, e', s', tr @ evs) \<and>
     length evs \<le> blocks_bound a (unat t - unat (ue_pages_used e)) \<and> advanced ob t e s tr err e' s' (tr @ evs)"
  using assms
proof (induction "unat t - unat (ue_pages_used e)" arbitrary: e s tr a rule: less_induct)
  case less
  let ?p = "ue_pages_used e"
  show ?case
  proof (cases "?p < t")
    case False
    then have "?p = t" using less.prems(1) by simp
    then show ?thesis by (subst advance_loop.simps) (simp add: advanced_def)
  next
    case True
    let ?r = "t - ?p"
    have r: "unat ?r = unat t - unat ?p" using less.prems(1) by (rule unat_sub_le)
    have "1 \<le> unat ?r" using True r by (simp add: word_less_nat_alt)
    then obtain m where m: "m < 64" and chunk: "advance_chunk ?p ?r 1 12 = Some (2 ^ m, 12 + of_nat m)"
      and big: "2 ^ m \<le> unat ?r" "2 ^ m dvd unat ?p" "\<not> (2 ^ Suc m \<le> unat ?r \<and> 2 ^ Suc m dvd unat ?p)"
      using advance_chunk_spec [of 0 ?r ?p] by auto
    obtain b where b: "b \<le> 64" "2 ^ b dvd unat ?p + 2 ^ m"
      "blocks_bound b (unat ?r - 2 ^ m) < blocks_bound a (unat ?r)"
      using blocks_bound_step [OF less.prems(2,3) _ big] unsigned_less [of ?r, where ?'a = nat] by auto
    obtain slot s1 where sl: "ut_alloc_slot s = (slot, s1)" by (cases "ut_alloc_slot s")
    let ?c = "Untyped_Retype (ue_cap e) seL4_UntypedObject (ucast (12 + of_nat m :: u32)) seL4_CapInitThreadCNode 0 0 slot 1"
    let ?err = "k_invoke k tr ?c"
    note step = advance_loop.simps [of k t e s tr, unfolded chunk bind.bind_lunit prod.case sl invoke_def]
    consider "slot = 0" | "slot \<noteq> 0" "?err \<noteq> seL4_NoError" | "slot \<noteq> 0" "?err = seL4_NoError" by blast
    then show ?thesis
    proof cases
      case 1
      then show ?thesis using True step advanced_refused(2) [OF sl less.prems(1)]
        by (intro exI [of _ seL4_NotEnoughMemory] exI [of _ e] exI [of _ s1] exI [of _ "[]"]) simp
    next
      case 2
      then show ?thesis using True step advanced_refused(1) [OF sl less.prems(1) 2(2)] b(3) r
        by (intro exI [of _ ?err] exI [of _ e] exI [of _ s1] exI [of _ "[Inv ?c ?err]"]) simp
    next
      case 3
      let ?e1 = "e\<lparr>ue_pages_used := ?p + 2 ^ m\<rparr>"
      note blk = advance_block [OF m big(2,1) less.prems(1) sl refl]
      have le: "?p + 2 ^ m \<le> t" using blk(1) big(1) r True by (simp add: word_le_nat_alt word_less_nat_alt)
      have "unat t - unat (ue_pages_used ?e1) < unat t - unat ?p" using blk(1) le True
        by (simp add: word_le_nat_alt word_less_nat_alt diff_less_mono2)
      from less.hyps [OF this, of b s1 "tr @ [Inv ?c seL4_NoError]"] b(1,2) le blk(1)
      obtain err e' s' evs where run: "advance_loop k t ?e1 s1 (tr @ [Inv ?c seL4_NoError]) =
          Some (err, e', s', (tr @ [Inv ?c seL4_NoError]) @ evs)"
        and len: "length evs \<le> blocks_bound b (unat t - unat (ue_pages_used ?e1))"
        and adv: "advanced ob t ?e1 s1 (tr @ [Inv ?c seL4_NoError]) err e' s' ((tr @ [Inv ?c seL4_NoError]) @ evs)"
        by auto
      have "unat t - unat (ue_pages_used ?e1) = unat ?r - 2 ^ m" using r blk(1) by simp
      then have "length (Inv ?c seL4_NoError # evs) \<le> blocks_bound a (unat t - unat ?p)" using len b(3) r by simp
      moreover have "advance_loop k t e s tr = Some (err, e', s', tr @ Inv ?c seL4_NoError # evs)"
        using step True 3 run by simp
      moreover have "advanced ob t e s tr err e' s' (tr @ Inv ?c seL4_NoError # evs)"
        using advanced_trans [OF blk(2) adv] by simp
      ultimately show ?thesis by blast
    qed
  qed
qed

section \<open>Allocation from the pool leaves the device untypeds alone\<close>

definition pool_effect :: "obj_size \<Rightarrow> ut_world \<Rightarrow> ut_world \<Rightarrow> bool" where
  "pool_effect ob w w' \<longleftrightarrow> map ue_cap (g_ut (fst w')) = map ue_cap (g_ut (fst w)) \<and>
     g_dev_ut (fst w') = g_dev_ut (fst w) \<and>
     (\<forall>u. u \<notin> ue_cap ` set (g_ut (fst w)) \<longrightarrow> watermark ob u (snd w') = watermark ob u (snd w))"

lemma pool_effect_refl [simp]: "pool_effect ob w w"
  by (simp add: pool_effect_def)

lemma pool_effect_trans:
  assumes "pool_effect ob w w1" and "pool_effect ob w1 w2"
  shows "pool_effect ob w w2"
proof -
  have "ue_cap ` set (g_ut (fst w1)) = ue_cap ` set (g_ut (fst w))"
    using assms(1) by (metis pool_effect_def set_map)
  then show ?thesis using assms by (simp add: pool_effect_def)
qed

lemma pool_effect_slot: "ut_alloc_slot s = (slot, s') \<Longrightarrow> pool_effect ob (s, tr) (s', tr)"
  by (erule ut_alloc_slot_obtain) (simp add: pool_effect_def)

lemma map_cap_update:
  "i < length es \<Longrightarrow> ue_cap e = ue_cap (es ! i) \<Longrightarrow> map ue_cap (es[i := e]) = map ue_cap es"
  by (simp add: list_eq_iff_nth_eq nth_list_update map_update)

lemma map_cap_use_pages [simp]: "map ue_cap (use_pages i n es) = map ue_cap es"
  by (cases "i < length es") (simp_all add: use_pages_def map_cap_update list_update_beyond)

lemma pool_effect_retype:
  assumes "e \<in> set (g_ut s)" "map ue_cap (g_ut s') = map ue_cap (g_ut s)" "g_dev_ut s' = g_dev_ut s"
  shows "pool_effect ob (s, tr) (s', tr @ [Inv (Untyped_Retype (ue_cap e) ty sb cn ni nd ix n) err])"
  using assms by (auto simp: pool_effect_def)

lemma ut_alloc_loop_effect:
  assumes "g_ut s \<noteq> []" "length (g_ut s) < 2 ^ 32"
  shows "pool_effect ob (s, tr) (snd (ut_alloc_loop k z ty sb cn ix start i n (s, tr)))"
  using assms
proof (induction n arbitrary: i s tr)
  case (Suc n)
  let ?count = "of_nat (length (g_ut s)) :: u32" and ?idx = "(start + i) mod of_nat (length (g_ut s)) :: u32"
  let ?c = "Untyped_Retype (ue_cap (g_ut s ! unat ?idx)) ty (ucast sb) cn 0 0 ix 1"
  let ?s' = "s\<lparr>g_ut_next := (?idx + 1) mod ?count\<rparr>"
  have "unat ?count = length (g_ut s)" using Suc.prems(2) by (simp add: unat_of_nat)
  then have "unat ?idx < length (g_ut s)" using Suc.prems(1) by (simp add: unat_mod)
  then have e: "g_ut s ! unat ?idx \<in> set (g_ut s)" by simp
  have IH: "pool_effect ob (?s', tr') (snd (ut_alloc_loop k z ty sb cn ix start (i + 1) n (?s', tr')))" for tr'
    using Suc.IH [of ?s'] Suc.prems by simp
  have "pool_effect ob (s, tr) (s1, tr @ [Inv ?c err])"
    if "map ue_cap (g_ut s1) = map ue_cap (g_ut s)" "g_dev_ut s1 = g_dev_ut s" for s1 err
    by (rule pool_effect_retype [OF e that])
  note eff = this
  have eff1: "pool_effect ob (s, tr) (?s', tr @ [Inv ?c err])" for err by (rule eff) simp_all
  show ?case
    unfolding ut_alloc_loop.simps(2) Let_def invoke_def prod.case
    by (auto intro!: eff pool_effect_trans [OF eff1 IH])
qed simp

lemma ut_alloc_effect:
  "length (g_ut (fst w)) < 2 ^ 32 \<Longrightarrow> pool_effect ob w (snd (ut_alloc k z ty sb cn ix w))"
  using ut_alloc_loop_effect [of "fst w" ob "snd w"] by (simp add: ut_alloc_def)

lemma ut_alloc_cap_effect:
  assumes "length (g_ut (fst w)) < 2 ^ 32"
  shows "pool_effect ob w (snd (ut_alloc_cap k z ty sb w))"
proof -
  obtain slot s where sl: "ut_alloc_slot (fst w) = (slot, s)" by (cases "ut_alloc_slot (fst w)")
  have p: "pool_effect ob w (s, snd w)" using pool_effect_slot [OF sl, of ob "snd w"] by simp
  obtain cur where "s = (fst w)\<lparr>g_slot_cur := cur\<rparr>" by (rule ut_alloc_slot_obtain [OF sl])
  then have "length (g_ut s) = length (g_ut (fst w))" by simp
  then have "pool_effect ob (s, snd w) (snd (ut_alloc k z ty sb seL4_CapInitThreadCNode slot (s, snd w)))"
    using assms by (intro ut_alloc_effect) simp
  note q = pool_effect_trans [OF p this]
  show ?thesis
    using p q by (cases "slot = 0") (simp_all add: ut_alloc_cap_def sl split_beta)
qed

lemma phys_skip_effect:
  "phys_skip k t e s tr = (err, e', s', tr') \<Longrightarrow> e' = e\<lparr>ue_pages_used := ue_pages_used e'\<rparr> \<and>
     s' = s\<lparr>g_slot_cur := g_slot_cur s'\<rparr> \<and> (\<forall>u. u \<noteq> ue_cap e \<longrightarrow> watermark ob u tr' = watermark ob u tr)"
proof (induction k t e s tr rule: phys_skip.induct)
  case (1 k t e s tr)
  obtain slot s1 where sl: "ut_alloc_slot s = (slot, s1)" by (cases "ut_alloc_slot s")
  note st = ut_alloc_slot_state [OF sl]
  let ?c = "Untyped_Retype (ue_cap e) seL4_ARM_SmallPageObject 0 seL4_CapInitThreadCNode 0 0 slot 1"
  show ?case
  proof (cases "ue_pages_used e < t \<and> slot \<noteq> 0 \<and> k_invoke k tr ?c = seL4_NoError")
    case False
    then have "e' = e \<and> (s' = s \<and> tr' = tr \<or> s' = s1 \<and> (tr' = tr \<or> tr' = tr @ [Inv ?c (k_invoke k tr ?c)]))"
      using "1.prems" sl by (subst (asm) phys_skip.simps) (auto simp: invoke_def split: if_splits)
    then show ?thesis using st by auto
  next
    case True
    let ?e = "e\<lparr>ue_pages_used := ue_pages_used e + 1\<rparr>" and ?tr = "tr @ [Inv ?c seL4_NoError]"
    have run: "phys_skip k t ?e s1 ?tr = (err, e', s', tr')"
      using "1.prems" True sl by (subst (asm) phys_skip.simps) (simp add: invoke_def)
    have "e' = ?e\<lparr>ue_pages_used := ue_pages_used e'\<rparr> \<and> s' = s1\<lparr>g_slot_cur := g_slot_cur s'\<rparr> \<and>
        (\<forall>u. u \<noteq> ue_cap ?e \<longrightarrow> watermark ob u tr' = watermark ob u ?tr)"
      by (rule "1.IH" [OF _ sl [symmetric]]) (use True run in \<open>auto simp: invoke_def\<close>)
    moreover obtain cur where "s1 = s\<lparr>g_slot_cur := cur\<rparr>" by (rule ut_alloc_slot_obtain [OF sl])
    ultimately show ?thesis by simp
  qed
qed

lemma ut_alloc_phys_effect:
  "pool_effect ob w (snd (ut_alloc_phys_cap_typed k paddr ty pb w))"
proof -
  obtain s tr where w: "w = (s, tr)" by (cases w)
  let ?find = "find (\<lambda>i. ut_covers paddr (push_bit (unat pb) 1) (g_ut s ! i)) [0..<length (g_ut s)]"
  show ?thesis
  proof (cases "frame_request_ok paddr pb \<and> ?find \<noteq> None")
    case False
    then have "snd (ut_alloc_phys_cap_typed k paddr ty pb w) = w"
      by (auto simp: ut_alloc_phys_cap_typed_def w Let_def)
    then show ?thesis by simp
  next
    case ok: True
    then obtain i where i: "?find = Some i" by blast
    then have len: "i < length (g_ut s)" by (simp add: find_index_iff)
    let ?e = "g_ut s ! i" and ?t = "drop_bit 12 (paddr - ue_paddr (g_ut s ! i))"
    obtain err e1 s1 tr1 where sk: "phys_skip k ?t ?e s tr = (err, e1, s1, tr1)" by (metis surj_pair)
    note skip = phys_skip_effect [OF sk, of ob]
    obtain p1 c1 where e1: "e1 = ?e\<lparr>ue_pages_used := p1\<rparr>" and s1: "s1 = s\<lparr>g_slot_cur := c1\<rparr>" using skip by blast
    let ?s2 = "s1\<lparr>g_ut := (g_ut s1)[i := e1]\<rparr>"
    have caps: "map ue_cap (g_ut ?s2) = map ue_cap (g_ut s)" using len by (simp add: s1 e1 map_cap_update)
    have eff: "pool_effect ob w (?s2, tr1)"
      using caps skip len by (force simp: pool_effect_def w s1)
    obtain slot s3 where sl: "ut_alloc_slot ?s2 = (slot, s3)" by (cases "ut_alloc_slot ?s2")
    obtain c3 where s3: "s3 = ?s2\<lparr>g_slot_cur := c3\<rparr>" by (rule ut_alloc_slot_obtain [OF sl])
    have e1_in: "e1 \<in> set (g_ut s3)" using len by (auto simp: s3 s1 set_update_memI)
    note eff3 = pool_effect_trans [OF eff pool_effect_slot [OF sl]]
    have eff4: "pool_effect ob w (s4, tr1 @ [Inv (Untyped_Retype (ue_cap e1) ty 0 seL4_CapInitThreadCNode 0 0 slot 1) er])"
      if "map ue_cap (g_ut s4) = map ue_cap (g_ut s3)" "g_dev_ut s4 = g_dev_ut s3" for s4 er
      by (rule pool_effect_trans [OF eff3 pool_effect_retype [OF e1_in that]])
    show ?thesis
      using ok i sk sl eff eff3 eff4
      by (simp add: ut_alloc_phys_cap_typed_def w Let_def invoke_def)
  qed
qed

section \<open>Device watermarks stay in step with the kernel\<close>

definition entry_ok :: "ut_entry \<Rightarrow> bool" where
  "entry_ok e \<longleftrightarrow> unat (ue_size_bits e) < 64 \<and> unat (ue_paddr e) + 2 ^ unat (ue_size_bits e) < 2 ^ 64 \<and>
     2 ^ unat (ue_size_bits e) dvd unat (ue_paddr e)"

definition dev_inv :: "obj_size \<Rightarrow> ut_world \<Rightarrow> bool" where
  "dev_inv ob w \<longleftrightarrow> distinct (map ue_cap (g_ut (fst w) @ g_dev_ut (fst w))) \<and> length (g_ut (fst w)) < 2 ^ 32 \<and>
     (\<forall>e \<in> set (g_dev_ut (fst w)). entry_ok e \<and> watermark ob (ue_cap e) (snd w) = 4096 * unat (ue_pages_used e))"

lemma dev_inv_pool:
  assumes "dev_inv ob w" and "pool_effect ob w w'"
  shows "dev_inv ob w'"
proof -
  have caps: "map ue_cap (g_ut (fst w')) = map ue_cap (g_ut (fst w))" and dev: "g_dev_ut (fst w') = g_dev_ut (fst w)"
    and wm: "\<forall>u. u \<notin> ue_cap ` set (g_ut (fst w)) \<longrightarrow> watermark ob u (snd w') = watermark ob u (snd w)"
    using assms(2) by (simp_all add: pool_effect_def)
  have "ue_cap e \<notin> ue_cap ` set (g_ut (fst w))" if "e \<in> set (g_dev_ut (fst w))" for e
    using assms(1) that by (auto simp: dev_inv_def)
  moreover have "length (g_ut (fst w')) = length (g_ut (fst w))" using caps by (metis length_map)
  ultimately show ?thesis using assms(1) caps dev wm by (simp add: dev_inv_def)
qed

lemma dev_inv_update:
  assumes "dev_inv ob (s, tr)" and "i < length (g_dev_ut s)"
    and "s' = s\<lparr>g_slot_cur := c, g_dev_ut := (g_dev_ut s)[i := (g_dev_ut s ! i)\<lparr>ue_pages_used := p\<rparr>]\<rparr>"
    and "\<forall>u. u \<noteq> ue_cap (g_dev_ut s ! i) \<longrightarrow> watermark ob u tr' = watermark ob u tr"
    and "watermark ob (ue_cap (g_dev_ut s ! i)) tr' = 4096 * unat p"
  shows "dev_inv ob (s', tr')"
proof -
  let ?d = "g_dev_ut s" and ?e' = "(g_dev_ut s ! i)\<lparr>ue_pages_used := p\<rparr>"
  have caps: "map ue_cap (?d[i := ?e']) = map ue_cap ?d" using assms(2) by (simp add: map_cap_update)
  have dist: "distinct (map ue_cap (g_ut s @ ?d))" using assms(1) by (simp add: dev_inv_def)
  have "entry_ok e \<and> watermark ob (ue_cap e) tr' = 4096 * unat (ue_pages_used e)" if mem: "e \<in> set (?d[i := ?e'])" for e
  proof -
    obtain j where j: "j < length ?d" "e = ?d[i := ?e'] ! j"
      using mem unfolding in_set_conv_nth length_list_update by blast
    have old: "entry_ok (?d ! j)" "watermark ob (ue_cap (?d ! j)) tr = 4096 * unat (ue_pages_used (?d ! j))"
      using assms(1) j(1) by (auto simp: dev_inv_def)
    show ?thesis
    proof (cases "j = i")
      case True
      then show ?thesis using old(1) j assms(5) by (simp add: entry_ok_def)
    next
      case False
      then have "ue_cap (?d ! j) \<noteq> ue_cap (?d ! i)"
        using dist j(1) assms(2) nth_eq_iff_index_eq [of "map ue_cap ?d" j i] by simp
      then show ?thesis using old j False assms(4) by simp
    qed
  qed
  then show ?thesis using assms(1) caps by (simp add: dev_inv_def assms(3) distinct_append flip: set_map)
qed

text \<open>
  The common core of the device allocations: the watermark is advanced to the target page and one
  object of \<open>2 ^ b\<close> pages is taken there.
\<close>

lemma device_core:
  assumes inv: "dev_inv ob (s, tr)" and sizes: "sizes_ok ob" and i: "i < length (g_dev_ut s)"
    and le: "ue_pages_used (g_dev_ut s ! i) \<le> t" and t: "unat t + 2 ^ b \<le> 2 ^ 52"
    and adv: "device_advance k t (g_dev_ut s ! i) s tr = Some (err, e1, s1, tr1)"
  shows "dev_inv ob (s1\<lparr>g_dev_ut := (g_dev_ut s1)[i := e1]\<rparr>, tr1)"
    and "e1 = (g_dev_ut s ! i)\<lparr>ue_pages_used := ue_pages_used e1\<rparr>"
    and "\<exists>cur. s1 = s\<lparr>g_slot_cur := cur\<rparr>"
    and "err = seL4_NoError \<Longrightarrow> ue_pages_used e1 = t"
proof -
  let ?e = "g_dev_ut s ! i"
  have "2 ^ 0 dvd unat (ue_pages_used ?e)" by simp
  from advance_loop_ok [OF le this, of k s tr ob]
  obtain evs where a: "advanced ob t ?e s tr err e1 s1 (tr @ evs)" "tr1 = tr @ evs"
    using adv leD [OF le] by (auto simp: device_advance_def)
  obtain p c where e1: "e1 = ?e\<lparr>ue_pages_used := p\<rparr>" and s1: "s1 = s\<lparr>g_slot_cur := c\<rparr>"
    using a(1) by (auto simp: advanced_def)
  have "watermark ob (ue_cap ?e) tr = 4096 * unat (ue_pages_used ?e)" using inv i by (simp add: dev_inv_def)
  then have "watermark ob (ue_cap ?e) tr1 = 4096 * unat p" using a sizes e1 by (simp add: advanced_def)
  then show "dev_inv ob (s1\<lparr>g_dev_ut := (g_dev_ut s1)[i := e1]\<rparr>, tr1)"
    using a by (intro dev_inv_update [OF inv i]) (auto simp: e1 s1 advanced_def)
  show "e1 = ?e\<lparr>ue_pages_used := ue_pages_used e1\<rparr>" by (simp add: e1)
  show "\<exists>cur. s1 = s\<lparr>g_slot_cur := cur\<rparr>" using s1 by blast
  show "err = seL4_NoError \<Longrightarrow> ue_pages_used e1 = t" using a(1) by (simp add: advanced_def)
qed

text \<open>Taking an object of \<open>2 ^ b\<close> pages at a watermark that is a multiple of its size.\<close>

lemma device_take:
  assumes inv: "dev_inv ob (s, tr)" and i: "i < length (g_dev_ut s)" and e: "e = g_dev_ut s ! i"
    and ob: "ob ty 0 = 12 + b" and al: "2 ^ b dvd unat (ue_pages_used e)"
    and room: "unat (ue_pages_used e) + 2 ^ b \<le> 2 ^ 52"
    and c: "c = Untyped_Retype (ue_cap e) ty 0 root ni nd slot 1"
  shows "dev_inv ob (s\<lparr>g_dev_ut := use_pages i (2 ^ b) (g_dev_ut s)\<rparr>, tr @ [Inv c seL4_NoError])"
    and "align_up (watermark ob (ue_cap e) tr) (ob ty 0) = 4096 * unat (ue_pages_used e)"
    and "dev_inv ob (s, tr @ [Inv c er]) \<longleftrightarrow> er \<noteq> seL4_NoError"
proof -
  have wm: "watermark ob (ue_cap e) tr = 4096 * unat (ue_pages_used e)" using inv i e by (simp add: dev_inv_def)
  have b: "b < 64" using room power_increasing [of 64 b "2 :: nat"] by (cases "b < 64") auto
  have "2 ^ ob ty 0 dvd 4096 * unat (ue_pages_used e)"
    using mult_dvd_mono [of "4096 :: nat" 4096 "2 ^ b"] al by (simp add: ob power_add)
  then have st: "bump_step ob (ue_cap e) c (4096 * unat (ue_pages_used e)) = 4096 * (unat (ue_pages_used e) + 2 ^ b)"
    and "align_up (watermark ob (ue_cap e) tr) (ob ty 0) = 4096 * unat (ue_pages_used e)"
    using bump_step_aligned [of ob ty 0] align_up_dvd by (simp_all add: c ob power_add wm)
  then show "align_up (watermark ob (ue_cap e) tr) (ob ty 0) = 4096 * unat (ue_pages_used e)" by simp
  have sum: "unat (ue_pages_used e + 2 ^ b) = unat (ue_pages_used e) + 2 ^ b"
    using b room by (subst unat_plus_no_overflow) simp_all
  have "dev_inv ob (s\<lparr>g_slot_cur := g_slot_cur s, g_dev_ut := (g_dev_ut s)[i := (g_dev_ut s ! i)\<lparr>ue_pages_used := ue_pages_used e + 2 ^ b\<rparr>]\<rparr>,
      tr @ [Inv c seL4_NoError])"
    using st sum wm by (intro dev_inv_update [OF inv i refl]) (simp_all add: c e)
  then show "dev_inv ob (s\<lparr>g_dev_ut := use_pages i (2 ^ b) (g_dev_ut s)\<rparr>, tr @ [Inv c seL4_NoError])"
    by (simp add: use_pages_def e)
  show "dev_inv ob (s, tr @ [Inv c er]) \<longleftrightarrow> er \<noteq> seL4_NoError"
    using inv i st wm e by (auto simp: dev_inv_def)
qed

lemma object_pages: "12 \<le> n \<Longrightarrow> n < 64 \<Longrightarrow> drop_bit 12 (push_bit n 1 :: u64) = 2 ^ (n - 12)"
  by (rule word_unat_eq_iff [THEN iffD2]) (simp add: unat_drop12 power_diff)

lemma target_room:
  assumes "ue_paddr e \<le> paddr" and "12 \<le> n" "n < 64" "2 ^ n dvd unat paddr"
  shows "unat (drop_bit 12 (paddr - ue_paddr e)) + 2 ^ (n - 12) \<le> 2 ^ 52"
proof -
  obtain q where q: "unat paddr = 2 ^ n * q" using assms(4) by (elim dvdE)
  have p: "(2 :: nat) ^ n * 2 ^ (64 - n) = 2 ^ 64" using assms(3) by (simp flip: power_add)
  then have "2 ^ n * q < 2 ^ n * 2 ^ (64 - n)"
    using unsigned_less [of paddr, where ?'a = nat] q by simp
  then have "q + 1 \<le> 2 ^ (64 - n)" by simp
  then have "2 ^ n * (q + 1) \<le> 2 ^ n * 2 ^ (64 - n)" by (rule mult_le_mono2)
  then have "2 ^ n * (q + 1) \<le> 2 ^ 64" using p by simp
  then have le: "unat (paddr - ue_paddr e) + 2 ^ n \<le> 2 ^ 64"
    using q assms(1) by (simp add: unat_sub_le algebra_simps)
  have n: "(2 :: nat) ^ n = 4096 * 2 ^ (n - 12)" using assms(2) power_add [of "2 :: nat" 12 "n - 12"] by simp
  have "4096 * (unat (paddr - ue_paddr e) div 4096) \<le> unat (paddr - ue_paddr e)" by simp
  then have "4096 * (unat (paddr - ue_paddr e) div 4096) + 4096 * 2 ^ (n - 12) \<le> 4096 * 2 ^ 52" using le n by simp
  then show ?thesis by (simp add: unat_drop12)
qed

lemma page_mask_iff: "x AND (2 ^ b - 1) = 0 \<longleftrightarrow> 2 ^ b dvd unat (x :: u64)"
  by (rule aligned_iff)

lemma dev_inv_slot:
  assumes "dev_inv ob (s, tr)" and "ut_alloc_slot s = (slot, s')"
  shows "dev_inv ob (s', tr)"
  using dev_inv_pool [OF assms(1) pool_effect_slot [OF assms(2)]] .

text \<open>Every outcome of the two device allocations.\<close>

definition placed_at :: "obj_size \<Rightarrow> ut_state \<Rightarrow> seL4_ObjectType \<Rightarrow> u64 \<Rightarrow> ut_world \<Rightarrow> (nat \<Rightarrow> bool) \<Rightarrow> bool" where
  "placed_at ob s ty slot w P \<longleftrightarrow> (\<exists>e \<in> set (g_dev_ut s). \<exists>tr1.
     snd w = tr1 @ [Inv (Untyped_Retype (ue_cap e) ty 0 seL4_CapInitThreadCNode 0 0 slot 1) seL4_NoError] \<and>
     P (unat (ue_paddr e) + align_up (watermark ob (ue_cap e) tr1) (ob ty 0)))"

lemma device_advance_returns:
  assumes "ue_pages_used e \<le> t"
  obtains err e1 s1 tr1 where "device_advance k t e s tr = Some (err, e1, s1, tr1)"
  using advance_loop_ok [OF assms, of 0 k s tr undefined] leD [OF assms] by (auto simp: device_advance_def)

lemma covered_page:
  assumes "entry_ok e" "ut_covers paddr (push_bit n 1) e" "unat paddr + 2 ^ n < 2 ^ 64"
    and "12 \<le> n" "n < 64" "2 ^ n dvd unat paddr"
  shows "unat (ue_paddr e) + 4096 * unat (drop_bit 12 (paddr - ue_paddr e)) = unat paddr"
proof -
  let ?sz = "unat (ue_size_bits e)"
  have ge: "ue_paddr e \<le> paddr" using assms(2) by (simp add: ut_covers_def not_less)
  have "unat (paddr + 2 ^ n) = unat paddr + 2 ^ n"
    using assms(3,5) by (subst unat_plus_no_overflow) simp_all
  moreover have "unat (ue_paddr e + 2 ^ ?sz) = unat (ue_paddr e) + 2 ^ ?sz"
    using assms(1) by (subst unat_plus_no_overflow) (simp_all add: entry_ok_def)
  ultimately have "unat paddr + 2 ^ n \<le> unat (ue_paddr e) + 2 ^ ?sz"
    using assms(2) by (simp add: ut_covers_def not_less word_le_nat_alt)
  then have "(2 :: nat) ^ n \<le> 2 ^ ?sz" using ge unfolding word_le_nat_alt by linarith
  then have "12 \<le> ?sz" using assms(4) power_le_imp_le_exp [of "2 :: nat" n ?sz] by simp
  then have "2 ^ 12 dvd unat (ue_paddr e)"
    using assms(1) by (meson dvd_trans entry_ok_def le_imp_power_dvd)
  moreover have "2 ^ 12 dvd unat paddr" using assms(4,6) by (meson dvd_trans le_imp_power_dvd)
  ultimately have "4096 dvd unat (paddr - ue_paddr e)" using ge by (simp add: unat_sub_le)
  then show ?thesis using ge by (simp add: unat_drop12 unat_sub_le word_le_nat_alt)
qed

lemma typed_outcome:
  assumes inv: "dev_inv ob (s, tr)" and sizes: "sizes_ok ob" and ob: "ob ty 0 = unat pb"
  obtains r w' where "ut_alloc_device_cap_typed k paddr ty pb (s, tr) = Some (r, w')" and "dev_inv ob w'"
    and "fst r = seL4_NoError \<Longrightarrow> unat paddr + 2 ^ unat pb < 2 ^ 64 \<Longrightarrow>
      placed_at ob s ty (snd r) w' (\<lambda>a. a = unat paddr)"
proof -
  let ?n = "unat pb"
  let ?find = "find (\<lambda>i. ut_covers paddr (push_bit ?n 1) (g_dev_ut s ! i)) [0..<length (g_dev_ut s)]"
  show thesis
  proof (cases "frame_request_ok paddr pb \<and> ?find \<noteq> None \<and>
      ue_pages_used (g_dev_ut s ! the ?find) \<le> drop_bit 12 (paddr - ue_paddr (g_dev_ut s ! the ?find))")
    case False
    then have "ut_alloc_device_cap_typed k paddr ty pb (s, tr) = Some ((seL4_InvalidArgument, seL4_CapNull), s, tr)"
      by (auto simp: ut_alloc_device_cap_typed_def Let_def not_le split: option.splits)
    then show thesis using that inv by simp
  next
    case ok: True
    then obtain i where i: "?find = Some i" by blast
    then have len: "i < length (g_dev_ut s)" and cov: "ut_covers paddr (push_bit ?n 1) (g_dev_ut s ! i)"
      by (simp_all add: find_index_iff)
    let ?e = "g_dev_ut s ! i" and ?t = "drop_bit 12 (paddr - ue_paddr (g_dev_ut s ! i))" and ?b = "?n - 12"
    have n: "12 \<le> ?n" "?n < 64" "2 ^ ?n dvd unat paddr"
      using ok aligned_iff [of paddr ?n] by (simp_all add: frame_request_ok_def word_less_nat_alt word_le_nat_alt not_less not_le)
    have ge: "ue_paddr ?e \<le> paddr" using cov by (simp add: ut_covers_def not_less)
    have le: "ue_pages_used ?e \<le> ?t" using ok i by simp
    have room: "unat ?t + 2 ^ ?b \<le> 2 ^ 52" by (rule target_room [OF ge n])
    obtain err e1 s1 tr1 where adv: "device_advance k ?t ?e s tr = Some (err, e1, s1, tr1)"
      by (rule device_advance_returns [OF le])
    note core = device_core [OF inv sizes len le room adv]
    let ?s2 = "s1\<lparr>g_dev_ut := (g_dev_ut s1)[i := e1]\<rparr>"
    obtain slot s3 where sl: "ut_alloc_slot ?s2 = (slot, s3)" by (cases "ut_alloc_slot ?s2")
    note inv3 = dev_inv_slot [OF core(1) sl]
    let ?c = "Untyped_Retype (ue_cap e1) ty 0 seL4_CapInitThreadCNode 0 0 slot 1"
    let ?er = "k_invoke k tr1 ?c"
    note run = ut_alloc_device_cap_typed_def [of k paddr ty pb "(s, tr)", unfolded Let_def fst_conv snd_conv i option.case]
    have run1: "ut_alloc_device_cap_typed k paddr ty pb (s, tr) =
      (if err \<noteq> seL4_NoError then Some ((err, seL4_CapNull), ?s2, tr1)
       else if ue_pages_used e1 AND (2 ^ ?b - 1) \<noteq> 0 then Some ((seL4_InvalidArgument, seL4_CapNull), ?s2, tr1)
       else if slot = 0 then Some ((seL4_NotEnoughMemory, seL4_CapNull), s3, tr1)
       else if ?er \<noteq> seL4_NoError then Some ((?er, seL4_CapNull), s3, tr1 @ [Inv ?c ?er])
       else Some ((seL4_NoError, slot), s3\<lparr>g_dev_ut := use_pages i (2 ^ ?b) (g_dev_ut s3)\<rparr>, tr1 @ [Inv ?c ?er]))"
      using run ok i adv sl leD [OF le] object_pages [OF n(1,2)] by (simp add: invoke_def)
    obtain c1 where s1: "s1 = s\<lparr>g_slot_cur := c1\<rparr>" using core(3) by blast
    obtain c3 where s3: "s3 = ?s2\<lparr>g_slot_cur := c3\<rparr>" by (rule ut_alloc_slot_obtain [OF sl])
    have e1: "e1 = g_dev_ut s3 ! i" and len3: "i < length (g_dev_ut s3)" using len by (simp_all add: s3 s1)
    consider w where "ut_alloc_device_cap_typed k paddr ty pb (s, tr) = Some w" "fst (fst w) \<noteq> seL4_NoError"
        "snd w = (?s2, tr1) \<or> snd w = (s3, tr1)"
      | "ue_pages_used e1 = ?t" "2 ^ ?b dvd unat ?t" "?er \<noteq> seL4_NoError"
        "ut_alloc_device_cap_typed k paddr ty pb (s, tr) = Some ((?er, seL4_CapNull), s3, tr1 @ [Inv ?c ?er])"
      | "ue_pages_used e1 = ?t" "2 ^ ?b dvd unat ?t" "?er = seL4_NoError"
        "ut_alloc_device_cap_typed k paddr ty pb (s, tr) =
          Some ((seL4_NoError, slot), s3\<lparr>g_dev_ut := use_pages i (2 ^ ?b) (g_dev_ut s3)\<rparr>, tr1 @ [Inv ?c seL4_NoError])"
      using run1 core(4) page_mask_iff [of "ue_pages_used e1" ?b] by (auto split: if_splits)
    then show thesis
    proof cases
      case (1 w)
      then show thesis using that [of "fst w" "snd w"] core(1) inv3 by auto
    next
      case 2
      have "unat (ue_pages_used e1) + 2 ^ ?b \<le> 2 ^ 52" "2 ^ ?b dvd unat (ue_pages_used e1)" "ob ty 0 = 12 + ?b"
        using 2 room ob n by simp_all
      note tk = device_take [OF inv3 len3 e1 this(3,2,1) refl]
      show thesis using that [OF 2(4)] tk(3) 2(3) by simp
    next
      case 3
      have fits: "unat (ue_pages_used e1) + 2 ^ ?b \<le> 2 ^ 52" "2 ^ ?b dvd unat (ue_pages_used e1)" "ob ty 0 = 12 + ?b"
        using 3 room ob n by simp_all
      note tk = device_take [OF inv3 len3 e1 fits(3,2,1) refl]
      have eok: "entry_ok ?e" using inv len by (simp add: dev_inv_def)
      obtain p where "e1 = ?e\<lparr>ue_pages_used := p\<rparr>" using core(2) by blast
      then have cap: "ue_cap e1 = ue_cap ?e" by simp
      have "placed_at ob s ty slot (s3\<lparr>g_dev_ut := use_pages i (2 ^ ?b) (g_dev_ut s3)\<rparr>, tr1 @ [Inv ?c seL4_NoError]) (\<lambda>a. a = unat paddr)"
        if "unat paddr + 2 ^ ?n < 2 ^ 64"
        using covered_page [OF eok cov that n] tk(2) 3(1) cap len
        unfolding placed_at_def by (intro bexI [of _ ?e] exI [of _ tr1]) simp_all
      then show thesis using that [OF 3(4) tk(1)] by simp
    qed
  qed
qed

lemma contained_page:
  assumes "entry_ok e" "ut_contains paddr e"
  shows "ue_paddr e \<le> paddr" and "unat (drop_bit 12 (paddr - ue_paddr e)) + 2 ^ 0 \<le> 2 ^ 52"
    and "unat (ue_paddr e) + 4096 * unat (drop_bit 12 (paddr - ue_paddr e)) \<le> unat paddr \<and>
      unat paddr < unat (ue_paddr e) + 4096 * unat (drop_bit 12 (paddr - ue_paddr e)) + 4096"
proof -
  show ge: "ue_paddr e \<le> paddr" using assms(2) by (simp add: ut_contains_def not_less)
  let ?d = "unat (paddr - ue_paddr e)"
  have d: "?d = unat paddr - unat (ue_paddr e)" using ge by (rule unat_sub_le)
  have "?d < 2 ^ 64" using unsigned_less [of "paddr - ue_paddr e", where ?'a = nat] by simp
  then have "?d div 4096 < 2 ^ 52" by (simp add: div_less_iff_less_mult)
  then show "unat (drop_bit 12 (paddr - ue_paddr e)) + 2 ^ 0 \<le> 2 ^ 52" by (simp add: unat_drop12)
  have "4096 * (?d div 4096) \<le> ?d \<and> ?d < 4096 * (?d div 4096) + 4096" by auto
  then show "unat (ue_paddr e) + 4096 * unat (drop_bit 12 (paddr - ue_paddr e)) \<le> unat paddr \<and>
      unat paddr < unat (ue_paddr e) + 4096 * unat (drop_bit 12 (paddr - ue_paddr e)) + 4096"
    using d ge unfolding unat_drop12 word_le_nat_alt by linarith
qed

lemma device_cap_outcome:
  assumes inv0: "dev_inv ob (s0, tr)" and sizes: "sizes_ok ob"
  obtains r w' where "ut_alloc_device_cap k paddr (s0, tr) = Some (r, w')" and "dev_inv ob w'"
    and "fst r = seL4_NoError \<Longrightarrow>
      placed_at ob s0 seL4_ARM_SmallPageObject (snd r) w' (\<lambda>a. a \<le> unat paddr \<and> unat paddr < a + 4096)"
proof -
  obtain slot s where sl: "ut_alloc_slot s0 = (slot, s)" by (cases "ut_alloc_slot s0")
  obtain c0 where s: "s = s0\<lparr>g_slot_cur := c0\<rparr>" by (rule ut_alloc_slot_obtain [OF sl])
  note inv = dev_inv_slot [OF inv0 sl]
  let ?find = "find (\<lambda>i. ut_contains paddr (g_dev_ut s ! i)) [0..<length (g_dev_ut s)]"
  show thesis
  proof (cases "slot \<noteq> 0 \<and> ?find \<noteq> None \<and>
      ue_pages_used (g_dev_ut s ! the ?find) \<le> drop_bit 12 (paddr - ue_paddr (g_dev_ut s ! the ?find))")
    case False
    then have "ut_alloc_device_cap k paddr (s0, tr) =
        Some ((if slot = 0 then seL4_NotEnoughMemory else seL4_InvalidArgument, seL4_CapNull), s, tr)"
      using sl by (auto simp: ut_alloc_device_cap_def Let_def not_le split: option.splits)
    then show thesis using that inv by (cases "slot = 0") auto
  next
    case ok: True
    then obtain i where i: "?find = Some i" by blast
    then have len: "i < length (g_dev_ut s)" and cont: "ut_contains paddr (g_dev_ut s ! i)"
      by (simp_all add: find_index_iff)
    let ?e = "g_dev_ut s ! i" and ?t = "drop_bit 12 (paddr - ue_paddr (g_dev_ut s ! i))"
    have eok: "entry_ok ?e" using inv len by (simp add: dev_inv_def)
    note pg = contained_page [OF eok cont]
    have le: "ue_pages_used ?e \<le> ?t" using ok i by simp
    obtain err e1 s1 tr1 where adv: "device_advance k ?t ?e s tr = Some (err, e1, s1, tr1)"
      by (rule device_advance_returns [OF le])
    note core = device_core [OF inv sizes len le pg(2) adv]
    let ?s2 = "s1\<lparr>g_dev_ut := (g_dev_ut s1)[i := e1]\<rparr>"
    let ?c = "Untyped_Retype (ue_cap e1) seL4_ARM_SmallPageObject 0 seL4_CapInitThreadCNode 0 0 slot 1"
    let ?er = "k_invoke k tr1 ?c"
    have run1: "ut_alloc_device_cap k paddr (s0, tr) =
      (if err \<noteq> seL4_NoError then Some ((err, seL4_CapNull), ?s2, tr1)
       else if ?er \<noteq> seL4_NoError then Some ((?er, seL4_CapNull), ?s2, tr1 @ [Inv ?c ?er])
       else Some ((seL4_NoError, slot), ?s2\<lparr>g_dev_ut := use_pages i (2 ^ 0) (g_dev_ut ?s2)\<rparr>, tr1 @ [Inv ?c ?er]))"
      using ok i adv sl leD [OF le] by (simp add: ut_alloc_device_cap_def Let_def invoke_def)
    obtain c1 where s1: "s1 = s\<lparr>g_slot_cur := c1\<rparr>" using core(3) by blast
    have e1: "e1 = g_dev_ut ?s2 ! i" and len2: "i < length (g_dev_ut ?s2)" using len by (simp_all add: s1)
    have fits: "unat (ue_pages_used e1) + 2 ^ 0 \<le> 2 ^ 52" "2 ^ 0 dvd unat (ue_pages_used e1)"
      "ob seL4_ARM_SmallPageObject 0 = 12 + 0" if "err = seL4_NoError"
      using core(4) [OF that] pg(2) sizes by (simp_all add: sizes_ok_def)
    note tk = device_take [OF core(1) len2 e1 fits(3,2,1) refl]
    obtain p where "e1 = ?e\<lparr>ue_pages_used := p\<rparr>" using core(2) by blast
    then have cap: "ue_cap e1 = ue_cap ?e" by simp
    show thesis
    proof (cases "err = seL4_NoError \<and> ?er = seL4_NoError")
      case False
      then obtain r w' where "ut_alloc_device_cap k paddr (s0, tr) = Some (r, w')" "fst r \<noteq> seL4_NoError"
        "dev_inv ob w'" using run1 core(1) tk(3) by (auto split: if_splits)
      then show thesis using that by simp
    next
      case True
      let ?w = "(?s2\<lparr>g_dev_ut := use_pages i (2 ^ 0) (g_dev_ut ?s2)\<rparr>, tr1 @ [Inv ?c seL4_NoError])"
      have "placed_at ob s0 seL4_ARM_SmallPageObject slot ?w (\<lambda>a. a \<le> unat paddr \<and> unat paddr < a + 4096)"
        using pg(3) tk(2) core(4) True cap len s unfolding placed_at_def
        by (intro bexI [of _ ?e] exI [of _ tr1]) simp_all
      moreover have "ut_alloc_device_cap k paddr (s0, tr) = Some ((seL4_NoError, slot), ?w)" using run1 True by simp
      ultimately show thesis using that [of "(seL4_NoError, slot)" ?w] tk(1) True by simp
    qed
  qed
qed

section \<open>Reachable worlds\<close>

text \<open>
  The allocator's operations as steps between worlds.  A typed allocation names an object type whose
  size is the size it asks for.  \<open>ut_alloc_device_frame\<close> is not among the steps: it takes a page of a
  device untyped without recording it.
\<close>

inductive ut_step :: "sel4_kernel \<Rightarrow> sel4_sizes \<Rightarrow> obj_size \<Rightarrow> ut_world \<Rightarrow> ut_world \<Rightarrow> bool" for k z ob where
  step_slot: "ut_step k z ob (s, tr) (snd (ut_alloc_slot s), tr)"
| step_advance: "ut_step k z ob (s, tr) (ut_advance_slot_cursor n s, tr)"
| step_alloc: "ut_step k z ob w (snd (ut_alloc k z ty sb cn ix w))"
| step_alloc_cap: "ut_step k z ob w (snd (ut_alloc_cap k z ty sb w))"
| step_phys: "ut_step k z ob w (snd (ut_alloc_phys_cap_typed k paddr ty pb w))"
| step_typed: "ob ty 0 = unat pb \<Longrightarrow> ut_alloc_device_cap_typed k paddr ty pb w = Some (r, w') \<Longrightarrow> ut_step k z ob w w'"
| step_device: "ut_alloc_device_cap k paddr w = Some (r, w') \<Longrightarrow> ut_step k z ob w w'"

lemma ut_step_inv:
  assumes "ut_step k z ob w w'" and "dev_inv ob w" and "sizes_ok ob"
  shows "dev_inv ob w'"
proof -
  have len: "length (g_ut (fst w)) < 2 ^ 32" using assms(2) by (simp add: dev_inv_def)
  show ?thesis
    using assms(1)
  proof (cases rule: ut_step.cases)
    case (step_slot s tr)
    then show ?thesis using assms(2) dev_inv_slot [of ob s tr] by (cases "ut_alloc_slot s") simp
  next
    case (step_advance s tr n)
    then show ?thesis using assms(2) by (simp add: dev_inv_def ut_advance_slot_cursor_def Let_def)
  next
    case step_alloc
    then show ?thesis using dev_inv_pool [OF assms(2) ut_alloc_effect [OF len]] by blast
  next
    case step_alloc_cap
    then show ?thesis using dev_inv_pool [OF assms(2) ut_alloc_cap_effect [OF len]] by blast
  next
    case step_phys
    then show ?thesis using dev_inv_pool [OF assms(2) ut_alloc_phys_effect] by blast
  next
    case (step_typed ty pb paddr r)
    obtain s tr where w: "w = (s, tr)" by (cases w)
    obtain r' w'' where "ut_alloc_device_cap_typed k paddr ty pb (s, tr) = Some (r', w'')" "dev_inv ob w''"
      by (rule typed_outcome [OF assms(2) [unfolded w] assms(3) step_typed(1)])
    then show ?thesis using step_typed(2) w by simp
  next
    case (step_device paddr r)
    obtain s tr where w: "w = (s, tr)" by (cases w)
    obtain r' w'' where "ut_alloc_device_cap k paddr (s, tr) = Some (r', w'')" "dev_inv ob w''"
      by (rule device_cap_outcome [OF assms(2) [unfolded w] assms(3)])
    then show ?thesis using step_device w by simp
  qed
qed

text \<open>What the allocator relies on in BootInfo: device regions are naturally aligned and lie below the top of the address space.\<close>

definition desc_ok :: "seL4_UntypedDesc \<Rightarrow> bool" where
  "desc_ok d \<longleftrightarrow> unat (ud_sizeBits d) < 64 \<and> unat (ud_paddr d) + 2 ^ unat (ud_sizeBits d) < 2 ^ 64 \<and>
     2 ^ unat (ud_sizeBits d) dvd unat (ud_paddr d)"

definition boot_ok :: "seL4_BootInfo \<Rightarrow> bool" where
  "boot_ok bi \<longleftrightarrow> length (bi_untypedList bi) < 2 ^ 32 \<and>
     (\<forall>d \<in> set (bi_untypedList bi). ud_isDevice d \<longrightarrow> desc_ok d)"

definition boot_inv :: "u64 \<Rightarrow> nat \<Rightarrow> ut_state \<Rightarrow> bool" where
  "boot_inv start n s \<longleftrightarrow> distinct (map ue_cap (g_ut s @ g_dev_ut s)) \<and> length (g_ut s) \<le> n \<and>
     (\<forall>e \<in> set (g_ut s @ g_dev_ut s). \<exists>m < n. ue_cap e = start + of_nat m) \<and>
     (\<forall>e \<in> set (g_dev_ut s). entry_ok e \<and> ue_pages_used e = 0)"

lemma boot_inv_loop:
  assumes "boot_inv start n s" and "n + length ds < 2 ^ 32"
    and "\<forall>d \<in> set ds. ud_isDevice d \<longrightarrow> desc_ok d"
  shows "\<exists>n' < 2 ^ 32. boot_inv start n' (ut_init_loop mx start (of_nat n) ds s)"
  using assms
proof (induction ds arbitrary: n s)
  case Nil
  then show ?case by auto
next
  case (Cons d ds)
  let ?e = "\<lparr>ue_cap = start + of_nat n, ue_paddr = ud_paddr d, ue_pages_used = 0, ue_size_bits = ud_sizeBits d\<rparr>"
  have neq: "start + of_nat n \<noteq> start + of_nat m" if "m < n" for m
  proof
    assume "start + of_nat n = start + of_nat m"
    then have "(of_nat n :: u64) = of_nat m" by simp
    then have "unat (of_nat n :: u64) = unat (of_nat m :: u64)" by (rule arg_cong)
    then show False using that Cons.prems(2) by (simp add: unat_of_nat)
  qed
  have fresh: "start + of_nat n \<notin> ue_cap ` set (g_ut s @ g_dev_ut s)"
  proof
    assume "start + of_nat n \<in> ue_cap ` set (g_ut s @ g_dev_ut s)"
    then obtain m where "m < n" "start + of_nat n = start + of_nat m"
      using Cons.prems(1) unfolding boot_inv_def by (metis imageE)
    then show False using neq by blast
  qed
  have more: "\<exists>m < Suc n. ue_cap e = start + of_nat m" if "e \<in> set (g_ut s @ g_dev_ut s)" for e
    using Cons.prems(1) that unfolding boot_inv_def by (meson less_SucI)
  have skip: "boot_inv start (Suc n) s" using Cons.prems(1) more unfolding boot_inv_def by (simp add: le_SucI)
  have dev: "boot_inv start (Suc n) (s\<lparr>g_dev_ut := g_dev_ut s @ [?e]\<rparr>)" if "ud_isDevice d"
    using skip fresh that Cons.prems(3) by (auto simp: boot_inv_def entry_ok_def desc_ok_def)
  have ram: "boot_inv start (Suc n) (s\<lparr>g_ut := g_ut s @ [?e]\<rparr>)"
    using skip fresh Cons.prems(1) by (auto simp: boot_inv_def)
  have IH: "\<exists>n' < 2 ^ 32. boot_inv start n' (ut_init_loop mx start (of_nat n + 1) ds s')"
    if "boot_inv start (Suc n) s'" for s'
    using Cons.IH [OF that] Cons.prems(2,3) by (simp add: add.commute)
  consider "ud_isDevice d" | "\<not> ud_isDevice d" "mx \<le> length (g_ut s @ [?e])" | "\<not> ud_isDevice d" "\<not> mx \<le> length (g_ut s @ [?e])"
    by blast
  then show ?case
  proof cases
    case 1
    then show ?thesis using IH [OF skip] IH [OF dev [OF 1]] by (simp add: Let_def)
  next
    case 2
    then have "ut_init_loop mx start (of_nat n) (d # ds) s = s\<lparr>g_ut := g_ut s @ [?e]\<rparr>" by (simp add: Let_def)
    moreover have "Suc n < 2 ^ 32" using Cons.prems(2) by simp
    ultimately show ?thesis using ram by metis
  next
    case 3
    then show ?thesis using IH [OF ram] by (simp add: Let_def)
  qed
qed

lemma boot_dev_inv:
  assumes "boot_ok bi"
  shows "dev_inv ob (ut_alloc_init (Some bi), [])"
proof -
  let ?s = "ut_zero\<lparr>g_slot_base := bi_empty_start bi, g_slot_cur := bi_empty_start bi, g_slot_end := bi_empty_end bi\<rparr>"
  let ?m = "length (bi_untypedList bi)" and ?n = "unat (ucast (bi_untyped_end bi - bi_untyped_start bi) :: u32)"
  let ?ds = "take (if ?m < ?n then ?m else ?n) (bi_untypedList bi)"
  have "boot_inv (bi_untyped_start bi) 0 ?s" by (simp add: boot_inv_def ut_zero_def)
  moreover have "0 + length ?ds < 2 ^ 32" using assms by (auto simp: boot_ok_def)
  moreover have "\<forall>d \<in> set ?ds. ud_isDevice d \<longrightarrow> desc_ok d"
    using assms unfolding boot_ok_def by (blast dest: in_set_takeD)
  ultimately obtain n where "n < 2 ^ 32" "boot_inv (bi_untyped_start bi) n (ut_init_loop ?m (bi_untyped_start bi) (of_nat 0) ?ds ?s)"
    using boot_inv_loop by blast
  then show ?thesis
    by (auto simp: ut_alloc_init_def Let_def boot_inv_def dev_inv_def watermark_def)
qed

lemma reachable_dev_inv:
  assumes "(ut_step k z ob)\<^sup>*\<^sup>* (ut_alloc_init (Some bi), []) w" and "boot_ok bi" and "sizes_ok ob"
  shows "dev_inv ob w"
  using assms(1)
proof (induction rule: rtranclp_induct)
  case base
  then show ?case by (rule boot_dev_inv [OF assms(2)])
next
  case (step w w')
  then show ?case using ut_step_inv assms(3) by blast
qed

section \<open>Properties\<close>


text \<open>
  The page allocated for a device address contains the address: after any sequence of allocator
  operations from boot, a successful \<open>ut_alloc_device_cap\<close> ends with one accepted retype of a small
  page into the returned slot, placed so that the requested address lies within the page.
\<close>

theorem device_page_contains:
  assumes "boot_ok bi" and "sizes_ok ob" and "bump_kernel ob place base"
    and "(ut_step k z ob)\<^sup>*\<^sup>* (ut_alloc_init (Some bi), []) (s, tr)"
    and "\<forall>e \<in> set (g_dev_ut s). base (ue_cap e) = unat (ue_paddr e)"
    and "ut_alloc_device_cap k paddr (s, tr) = Some ((seL4_NoError, slot), s', tr')"
  shows "\<exists>ut tr1. let c = Untyped_Retype ut seL4_ARM_SmallPageObject 0 seL4_CapInitThreadCNode 0 0 slot 1 in
    tr' = tr1 @ [Inv c seL4_NoError] \<and> place tr1 c \<le> unat paddr \<and> unat paddr < place tr1 c + 4096"
proof -
  note inv = reachable_dev_inv [OF assms(4,1,2)]
  obtain r w' where "ut_alloc_device_cap k paddr (s, tr) = Some (r, w')"
    and "fst r = seL4_NoError \<Longrightarrow>
      placed_at ob s seL4_ARM_SmallPageObject (snd r) w' (\<lambda>a. a \<le> unat paddr \<and> unat paddr < a + 4096)"
    by (rule device_cap_outcome [OF inv assms(2), of k paddr]) blast
  then have "placed_at ob s seL4_ARM_SmallPageObject slot (s', tr') (\<lambda>a. a \<le> unat paddr \<and> unat paddr < a + 4096)"
    using assms(6) by auto
  then obtain e tr1 where e: "e \<in> set (g_dev_ut s)"
    "tr' = tr1 @ [Inv (Untyped_Retype (ue_cap e) seL4_ARM_SmallPageObject 0 seL4_CapInitThreadCNode 0 0 slot 1) seL4_NoError]"
    "unat (ue_paddr e) + align_up (watermark ob (ue_cap e) tr1) (ob seL4_ARM_SmallPageObject 0) \<le> unat paddr"
    "unat paddr < unat (ue_paddr e) + align_up (watermark ob (ue_cap e) tr1) (ob seL4_ARM_SmallPageObject 0) + 4096"
    unfolding placed_at_def by auto
  moreover have "base (ue_cap e) = unat (ue_paddr e)" using assms(5) e(1) by blast
  ultimately show ?thesis using assms(3) unfolding bump_kernel_def Let_def
    by (intro exI [of _ "ue_cap e"] exI [of _ tr1]) simp
qed

text \<open>
  C25. Advancing a device untyped always returns, with at most twice the word width of kernel calls:
  the decomposition of the skipped range into aligned blocks needs no more than 128 blocks whatever
  the distance, and a run without error ends exactly at the target page.
\<close>

theorem device_advance_bounded:
  "\<exists>err e' s' evs. device_advance k t e s tr = Some (err, e', s', tr @ evs) \<and> length evs \<le> 2 * 64 \<and>
     (err = seL4_NoError \<longrightarrow> ue_pages_used e' = t)"
proof (cases "t < ue_pages_used e")
  case True
  then show ?thesis
    by (intro exI [of _ seL4_InvalidArgument] exI [of _ e] exI [of _ s] exI [of _ "[]"]) (simp add: device_advance_def)
next
  case False
  then have le: "ue_pages_used e \<le> t" by simp
  obtain err e' s' evs where "advance_loop k t e s tr = Some (err, e', s', tr @ evs)"
    "length evs \<le> blocks_bound 0 (unat t - unat (ue_pages_used e))" "advanced undefined t e s tr err e' s' (tr @ evs)"
    using advance_loop_ok [OF le, of 0 k s tr undefined] by auto
  moreover have "blocks_bound 0 (unat t - unat (ue_pages_used e)) \<le> 2 * 64" by (simp add: blocks_bound_def)
  ultimately show ?thesis
    using False unfolding device_advance_def advanced_def
    by (intro exI [of _ err] exI [of _ e'] exI [of _ s'] exI [of _ evs]) simp
qed

lemma ut_alloc_loop_progress:
  assumes "e \<in> set (g_ut s)" and "length (g_ut s) \<le> 2 ^ 31" and "unat start < length (g_ut s)"
    and "i + todo = length (g_ut s)" and "\<exists>j < todo. g_ut s ! ((unat start + i + j) mod length (g_ut s)) = e"
    and "\<forall>tr. k_invoke k tr (Untyped_Retype (ue_cap e) ty (ucast sb) cn 0 0 ix 1) = seL4_NoError"
    and "\<forall>e' \<in> set (g_ut s). \<forall>tr. k_invoke k tr (Untyped_Retype (ue_cap e') ty (ucast sb) cn 0 0 ix 1) \<in>
      {seL4_NoError, seL4_NotEnoughMemory, seL4_InvalidArgument}"
  shows "fst (ut_alloc_loop k z ty sb cn ix start (of_nat i) todo (s, tr)) = seL4_NoError"
  using assms
proof (induction todo arbitrary: i s tr)
  case (Suc todo)
  let ?n = "length (g_ut s)"
  have n: "unat (of_nat ?n :: u32) = ?n" using Suc.prems(2) by (simp add: unat_of_nat)
  have "unat start + i < 2 ^ 32" using Suc.prems(2-4) by simp
  then have idx: "unat ((start + of_nat i) mod of_nat ?n :: u32) = (unat start + i) mod ?n"
    using n by (simp add: unat_mod unat_word_ariths unat_of_nat)
  let ?e = "g_ut s ! ((unat start + i) mod ?n)"
  let ?c = "Untyped_Retype (ue_cap ?e) ty (ucast sb) cn 0 0 ix 1"
  have mem: "?e \<in> set (g_ut s)" using Suc.prems(3) by (intro nth_mem mod_less_divisor) linarith
  show ?case
  proof (cases "k_invoke k tr ?c = seL4_NoError")
    case True
    then show ?thesis by (simp add: Let_def invoke_def idx)
  next
    case False
    then have ref: "k_invoke k tr ?c = seL4_NotEnoughMemory \<or> k_invoke k tr ?c = seL4_InvalidArgument"
      using Suc.prems(7) mem by blast
    let ?s = "s\<lparr>g_ut_next := ((start + of_nat i) mod of_nat ?n + 1) mod of_nat ?n\<rparr>"
    have "?e \<noteq> e" using False Suc.prems(6) by auto
    then have "\<exists>j < todo. g_ut ?s ! ((unat start + Suc i + j) mod length (g_ut ?s)) = e"
      using Suc.prems(5) by (auto elim!: less_SucE simp: less_Suc_eq_0_disj)
    then have "fst (ut_alloc_loop k z ty sb cn ix start (of_nat (Suc i)) todo (?s, tr @ [Inv ?c (k_invoke k tr ?c)])) = seL4_NoError"
      using Suc.prems by (intro Suc.IH) simp_all
    then show ?thesis using False ref by (simp add: Let_def invoke_def idx add.commute)
  qed
qed simp

text \<open>
  C26. An allocation finds memory wherever there is some: as long as the kernel only ever refuses for
  lack of room or alignment and one untyped of the pool would serve the request, \<open>ut_alloc\<close> succeeds,
  wherever its rotating cursor stands.
\<close>

theorem ut_alloc_progress:
  assumes "e \<in> set (g_ut s)" and "length (g_ut s) \<le> 2 ^ 31" and "unat (g_ut_next s) < length (g_ut s)"
    and "\<forall>tr. k_invoke k tr (Untyped_Retype (ue_cap e) ty (ucast sb) cn 0 0 ix 1) = seL4_NoError"
    and "\<forall>e' \<in> set (g_ut s). \<forall>tr. k_invoke k tr (Untyped_Retype (ue_cap e') ty (ucast sb) cn 0 0 ix 1) \<in>
      {seL4_NoError, seL4_NotEnoughMemory, seL4_InvalidArgument}"
  shows "fst (ut_alloc k z ty sb cn ix (s, tr)) = seL4_NoError"
proof -
  let ?n = "length (g_ut s)" and ?st = "unat (g_ut_next s)"
  obtain m where m: "m < ?n" "g_ut s ! m = e" using assms(1) by (auto simp: in_set_conv_nth)
  have "\<exists>j < ?n. (?st + 0 + j) mod ?n = m"
  proof (intro exI conjI)
    show "(m + ?n - ?st) mod ?n < ?n" using m(1) by (intro mod_less_divisor) linarith
    show "(?st + 0 + (m + ?n - ?st) mod ?n) mod ?n = m" using m(1) assms(3) by (simp add: mod_add_right_eq)
  qed
  then show ?thesis
    using ut_alloc_loop_progress [OF assms(1-3), of 0 ?n k ty sb cn ix z tr] m(2) assms(1,4,5)
    by (auto simp: ut_alloc_def)
qed

section \<open>Witnesses\<close>

text \<open>A board with one RAM untyped and one 64 KB device untyped, and a kernel that places objects at its watermarks.\<close>

definition ex_boot :: seL4_BootInfo where
  "ex_boot = \<lparr>bi_empty_start = 100, bi_empty_end = 200, bi_untyped_start = 50, bi_untyped_end = 52,
     bi_untypedList = [\<lparr>ud_paddr = 0x40000000, ud_sizeBits = 21, ud_isDevice = False\<rparr>,
                       \<lparr>ud_paddr = 0x9000000, ud_sizeBits = 16, ud_isDevice = True\<rparr>]\<rparr>"

definition ex_ob :: obj_size where
  "ex_ob ty sb = (case ty of seL4_UntypedObject \<Rightarrow> unat sb | seL4_ARM_SmallPageObject \<Rightarrow> 12
     | seL4_ARM_LargePageObject \<Rightarrow> 21 | seL4_EndpointObject \<Rightarrow> 4 | _ \<Rightarrow> 10)"

definition ex_base :: "u64 \<Rightarrow> nat" where
  "ex_base u = (if u = 50 then 0x40000000 else if u = 51 then 0x9000000 else 0)"

fun ex_place :: "sel4_event list \<Rightarrow> sel4_call \<Rightarrow> nat" where
  "ex_place tr (Untyped_Retype ut ty sb root ni nd off n) = ex_base ut + align_up (watermark ex_ob ut tr) (ex_ob ty sb)"
| "ex_place tr _ = 0"

definition ex_sizes :: sel4_sizes where
  "ex_sizes = \<lparr>seL4_TCBBits = 11, seL4_EndpointBits = 4, seL4_NotificationBits = 6, seL4_ReplyBits = 5,
     seL4_ARM_VCPUBits = 12, seL4_PageTableBits = 12\<rparr>"

lemma ex_kernel_ok: "sizes_ok ex_ob" "bump_kernel ex_ob ex_place ex_base"
  by (simp_all add: sizes_ok_def bump_kernel_def ex_ob_def)

lemma ex_boot_state: "ut_alloc_init (Some ex_boot) =
    \<lparr>g_ut = [\<lparr>ue_cap = 50, ue_paddr = 0x40000000, ue_pages_used = 0, ue_size_bits = 21\<rparr>], g_ut_next = 0,
     g_dev_ut = [\<lparr>ue_cap = 51, ue_paddr = 0x9000000, ue_pages_used = 0, ue_size_bits = 16\<rparr>],
     g_slot_base = 100, g_slot_cur = 100, g_slot_end = 200\<rparr>"
  by code_simp

lemma ex_boot_ok: "boot_ok ex_boot"
  by (simp add: boot_ok_def desc_ok_def ex_boot_def)

lemma ex_device_run:
  "map_option fst (ut_alloc_device_cap_typed kernel_ok 0x9003000 seL4_ARM_SmallPageObject 12 (ut_alloc_init (Some ex_boot), [])) =
     Some (seL4_NoError, 102)"
  "map_option fst (ut_alloc_device_cap kernel_ok 0x9003010 (ut_alloc_init (Some ex_boot), [])) = Some (seL4_NoError, 100)"
  by code_simp+


theorem device_page_contains_witness:
  "\<exists>ut tr1. let a = ex_place tr1 (Untyped_Retype ut seL4_ARM_SmallPageObject 0 seL4_CapInitThreadCNode 0 0 100 1)
     in a \<le> 0x9003010 \<and> 0x9003010 < a + 4096"
proof -
  let ?s = "ut_alloc_init (Some ex_boot)"
  obtain s' tr' where run: "ut_alloc_device_cap kernel_ok 0x9003010 (?s, []) = Some ((seL4_NoError, 100), s', tr')"
    using ex_device_run(2) by auto
  have "\<forall>e \<in> set (g_dev_ut ?s). ex_base (ue_cap e) = unat (ue_paddr e)"
    by (simp add: ex_boot_state ex_base_def)
  then show ?thesis
    using device_page_contains [OF ex_boot_ok ex_kernel_ok rtranclp.rtrancl_refl _ run] by (auto simp: Let_def)
qed

theorem device_advance_bounded_witness:
  "\<exists>err e' s' evs. device_advance kernel_ok 0xFFFFF \<lparr>ue_cap = 51, ue_paddr = 0, ue_pages_used = 1, ue_size_bits = 40\<rparr>
     (ut_alloc_init (Some ex_boot)) [] = Some (err, e', s', evs) \<and> length evs \<le> 128"
  using device_advance_bounded [of kernel_ok "0xFFFFF" "\<lparr>ue_cap = 51, ue_paddr = 0, ue_pages_used = 1, ue_size_bits = 40\<rparr>"
      "ut_alloc_init (Some ex_boot)" "[]"] by auto

text \<open>The cursor stands on an exhausted untyped; the other one serves the request.\<close>

definition ex_pool :: ut_state where
  "ex_pool = ut_zero\<lparr>g_ut := [\<lparr>ue_cap = 50, ue_paddr = 0, ue_pages_used = 0, ue_size_bits = 21\<rparr>,
      \<lparr>ue_cap = 51, ue_paddr = 0, ue_pages_used = 0, ue_size_bits = 21\<rparr>], g_ut_next := 1\<rparr>"

definition kernel_full :: sel4_kernel where
  "kernel_full = kernel_ok\<lparr>k_invoke := (\<lambda>_ c. case c of Untyped_Retype ut _ _ _ _ _ _ _ \<Rightarrow>
     if ut = 51 then seL4_NotEnoughMemory else seL4_NoError | _ \<Rightarrow> seL4_NoError)\<rparr>"

theorem ut_alloc_progress_witness:
  "fst (ut_alloc kernel_full ex_sizes seL4_TCBObject 0 2 7 (ex_pool, [])) = seL4_NoError"
  by (rule ut_alloc_progress [of "g_ut ex_pool ! 0"]) (auto simp: ex_pool_def kernel_full_def)

section \<open>Allocations that lose track of the watermark\<close>

text \<open>
  A sub-page object moves the kernel's watermark but is not counted in \<open>pages_used\<close>, so a later
  \<open>ut_alloc_phys_cap_typed\<close> from the same untyped reports success for a frame that is one page off.
\<close>

definition ex_after_endpoint :: ut_world where
  "ex_after_endpoint = snd (ut_alloc kernel_ok ex_sizes seL4_EndpointObject 0 2 60 (ut_alloc_init (Some ex_boot), []))"

lemma ex_after_endpoint_calls:
  "accepted (snd ex_after_endpoint) = [Untyped_Retype 50 seL4_EndpointObject 0 2 0 0 60 1]"
  by code_simp

lemma phys_frame_misplaced:
  "fst (ut_alloc_phys_cap_typed kernel_ok 0x40000000 seL4_ARM_SmallPageObject 12 ex_after_endpoint) = (seL4_NoError, 100)"
  "snd (snd (ut_alloc_phys_cap_typed kernel_ok 0x40000000 seL4_ARM_SmallPageObject 12 ex_after_endpoint)) =
     snd ex_after_endpoint @ [Inv (Untyped_Retype 50 seL4_ARM_SmallPageObject 0 seL4_CapInitThreadCNode 0 0 100 1) seL4_NoError]"
  "ex_place (snd ex_after_endpoint) (Untyped_Retype 50 seL4_ARM_SmallPageObject 0 seL4_CapInitThreadCNode 0 0 100 1) = 0x40001000"
  subgoal by code_simp
  subgoal by code_simp
  subgoal by (simp add: watermark_def ex_after_endpoint_calls ex_base_def ex_ob_def align_up_def)
  done

text \<open>
  \<open>ut_alloc_device_frame\<close> neither advances the device untyped to the page it was asked for nor records
  the page it takes: the frame for the second page of the device is the first page.
\<close>

lemma device_frame_misplaced:
  "ut_alloc_device_frame kernel_ok 0x9001000 7 9 (ut_alloc_init (Some ex_boot), []) =
     (seL4_NoError, ut_alloc_init (Some ex_boot),
      [Inv (Untyped_Retype 51 seL4_ARM_SmallPageObject 0 seL4_CapInitThreadCNode 7 64 9 1) seL4_NoError])"
  "ex_place [] (Untyped_Retype 51 seL4_ARM_SmallPageObject 0 seL4_CapInitThreadCNode 7 64 9 1) = 0x9000000"
  subgoal by code_simp
  subgoal by (simp add: watermark_def ex_base_def align_up_def)
  done

end
