(* ===== verification/BootTables.thy ===== *)
theory BootTables
  imports UtAlloc
begin

text \<open>
  The two boot-time tables of the root task over the untyped allocator: the pool of service endpoints,
  \<open>kernel/agentos-root-task/src/ep_alloc.c\<close>, and the capability ownership log,
  \<open>kernel/agentos-root-task/src/cap_accounting.c\<close>.  The service table is the list of its entries in
  use; the log keeps its whole fixed table, since a name buffer is overwritten in place.
\<close>

section \<open>Endpoint pool (ep_alloc.c)\<close>

definition EP_SERVICE_TABLE_SIZE :: nat where "EP_SERVICE_TABLE_SIZE = 64"

record ep_service_entry =
  es_service_id :: u16
  es_ep_cap :: u64

record ep_state =
  g_root_cnode :: u64
  g_next_slot :: u64
  g_slot_limit :: u64
  g_svc_table :: "ep_service_entry list"

type_synonym ep_world = "ep_state \<times> ut_world"

definition ep_alloc_init :: "u64 \<Rightarrow> u64 \<Rightarrow> u32 \<Rightarrow> ep_state" where
  "ep_alloc_init root_cnode first_slot pool_size =
     \<lparr>g_root_cnode = root_cnode, g_next_slot = first_slot, g_slot_limit = first_slot + ucast pool_size, g_svc_table = []\<rparr>"

definition ep_alloc :: "sel4_kernel \<Rightarrow> sel4_sizes \<Rightarrow> ep_world \<Rightarrow> u64 \<times> ep_world" where
  "ep_alloc k z w =
     (case w of (s, u) \<Rightarrow>
        if g_slot_limit s \<le> g_next_slot s then (seL4_CapNull, s, u)
        else
          let slot = g_next_slot s in
          (case ut_alloc k z seL4_EndpointObject 0 (g_root_cnode s) slot u of (err, u') \<Rightarrow>
             if err \<noteq> seL4_NoError then (seL4_CapNull, s, u')
             else (slot, s\<lparr>g_next_slot := g_next_slot s + 1\<rparr>, u')))"

definition ep_mint_badge :: "sel4_kernel \<Rightarrow> u64 \<Rightarrow> u64 \<Rightarrow> u64 \<Rightarrow> u64 \<Rightarrow> u32 \<Rightarrow> ep_world \<Rightarrow> seL4_Error \<times> ep_world" where
  "ep_mint_badge k src_ep badge dest_cnode dest_slot dest_depth w =
     (case w of (s, u, tr) \<Rightarrow>
        case invoke k tr (CNode_Mint dest_cnode dest_slot (ucast dest_depth) (g_root_cnode s) src_ep 64 seL4_AllRights badge) of
          (err, tr') \<Rightarrow> (err, s, u, tr'))"

definition ep_find_by_service_id :: "u16 \<Rightarrow> ep_state \<Rightarrow> u64" where
  "ep_find_by_service_id service_id s =
     (if service_id = 0 then seL4_CapNull
      else case find (\<lambda>e. es_service_id e = service_id) (g_svc_table s) of
          None \<Rightarrow> seL4_CapNull | Some e \<Rightarrow> es_ep_cap e)"

definition ep_alloc_for_service :: "sel4_kernel \<Rightarrow> sel4_sizes \<Rightarrow> u16 \<Rightarrow> ep_world \<Rightarrow> u64 \<times> ep_world" where
  "ep_alloc_for_service k z service_id w =
     (let existing = ep_find_by_service_id service_id (fst w) in
      if existing \<noteq> seL4_CapNull then (existing, w)
      else
        case ep_alloc k z w of (ep, s, u) \<Rightarrow>
          if ep = seL4_CapNull then (seL4_CapNull, s, u)
          else if EP_SERVICE_TABLE_SIZE \<le> length (g_svc_table s) then (ep, s, u)
          else (ep, s\<lparr>g_svc_table := g_svc_table s @ [\<lparr>es_service_id = service_id, es_ep_cap = ep\<rparr>]\<rparr>, u))"

section \<open>Capability log (cap_accounting.c)\<close>

definition CAP_ACCT_MAX_ENTRIES :: u32 where "CAP_ACCT_MAX_ENTRIES = 1024"
definition CAP_ACCT_ROOT_PD_INDEX :: u32 where "CAP_ACCT_ROOT_PD_INDEX = 0xFFFFFFFF"

record cap_acct_entry =
  ca_cap :: u64
  ca_obj_type :: u32
  ca_pd_index :: u32
  ca_name :: string

record cap_acct_state =
  g_table :: "cap_acct_entry list"
  g_count :: u32

text \<open>The copy stops at the end of the source, or one short of the buffer, and terminates the string there.\<close>

definition acct_strlcpy :: "string \<Rightarrow> string \<Rightarrow> nat \<Rightarrow> string" where
  "acct_strlcpy dst src n =
     (let cp = take (n - 1) src in cp @ [CHR 0x00] @ drop (Suc (length cp)) dst)"

definition cap_acct_record :: "u64 \<Rightarrow> u64 \<Rightarrow> u32 \<Rightarrow> u32 \<Rightarrow> string option \<Rightarrow> cap_acct_state \<Rightarrow> int \<times> cap_acct_state" where
  "cap_acct_record parent cap obj_type pd_index name s =
     (if CAP_ACCT_MAX_ENTRIES \<le> g_count s then (- 1, s)
      else
        let e = g_table s ! unat (g_count s);
            e' = \<lparr>ca_cap = cap, ca_obj_type = obj_type, ca_pd_index = pd_index,
                  ca_name = acct_strlcpy (ca_name e) (case name of None \<Rightarrow> [] | Some n \<Rightarrow> n) 16\<rparr>
        in (0, s\<lparr>g_table := (g_table s)[unat (g_count s) := e'], g_count := g_count s + 1\<rparr>))"

text \<open>The kernel's numbering of object types is a parameter.\<close>

definition cap_acct_init :: "(seL4_ObjectType \<Rightarrow> u32) \<Rightarrow> cap_acct_state \<Rightarrow> cap_acct_state" where
  "cap_acct_init ot s =
     (let s0 = s\<lparr>g_count := 0,
          g_table := map (\<lambda>e. \<lparr>ca_cap = 0, ca_obj_type = 0, ca_pd_index = 0, ca_name = (ca_name e)[0 := CHR 0x00]\<rparr>) (g_table s)\<rparr>;
          s1 = snd (cap_acct_record 0 seL4_CapInitThreadCNode (ot seL4_CapTableObject) CAP_ACCT_ROOT_PD_INDEX (Some ''root-cnode'') s0);
          s2 = snd (cap_acct_record 0 3 (ot seL4_ARM_VSpaceObject) CAP_ACCT_ROOT_PD_INDEX (Some ''root-vspace'') s1)
      in snd (cap_acct_record 0 1 (ot seL4_TCBObject) CAP_ACCT_ROOT_PD_INDEX (Some ''root-tcb'') s2))"

definition cap_acct_count :: "cap_acct_state \<Rightarrow> u32" where
  "cap_acct_count s = g_count s"

definition cap_acct_get :: "u32 \<Rightarrow> cap_acct_state \<Rightarrow> cap_acct_entry option" where
  "cap_acct_get index s = (if g_count s \<le> index then None else Some (g_table s ! unat index))"

section \<open>Service endpoints\<close>

text \<open>A sequence of requests for service endpoints, with the capabilities returned.\<close>

fun ep_requests :: "sel4_kernel \<Rightarrow> sel4_sizes \<Rightarrow> u16 list \<Rightarrow> ep_world \<Rightarrow> u64 list \<times> ep_world" where
  "ep_requests k z [] w = ([], w)"
| "ep_requests k z (sid # sids) w =
     (case ep_alloc_for_service k z sid w of (ep, w1) \<Rightarrow>
      case ep_requests k z sids w1 of (eps, w2) \<Rightarrow> (ep # eps, w2))"

text \<open>The table is a one-to-one assignment of slots below the next free slot.\<close>

definition ep_inv :: "u64 \<Rightarrow> ep_state \<Rightarrow> bool" where
  "ep_inv first s \<longleftrightarrow> first \<noteq> 0 \<and> first \<le> g_next_slot s \<and>
     distinct (map es_service_id (g_svc_table s)) \<and> distinct (map es_ep_cap (g_svc_table s)) \<and>
     (\<forall>e \<in> set (g_svc_table s). es_service_id e \<noteq> 0 \<and> first \<le> es_ep_cap e \<and> es_ep_cap e < g_next_slot s)"

lemma ep_alloc_outcome:
  assumes "ep_inv first s" and "ep_alloc k z (s, u) = (ep, s', u')"
  shows "ep = 0 \<and> s' = s \<or> ep \<noteq> 0 \<and> ep = g_next_slot s \<and> s' = s\<lparr>g_next_slot := g_next_slot s + 1\<rparr> \<and> g_next_slot s < g_next_slot s + 1"
proof (cases "g_slot_limit s \<le> g_next_slot s")
  case True
  then show ?thesis using assms(2) by (simp add: ep_alloc_def)
next
  case False
  then have less: "g_next_slot s < g_slot_limit s" by simp
  have "unat (g_next_slot s + 1) = Suc (unat (g_next_slot s))" by (rule unat_succ_no_overflow [OF less])
  then have "g_next_slot s < g_next_slot s + 1" by (simp add: word_less_nat_alt)
  moreover have "g_next_slot s \<noteq> 0" using assms(1) by (auto simp: ep_inv_def)
  ultimately show ?thesis
    using assms(2) False by (auto simp: ep_alloc_def Let_def split: prod.splits if_splits)
qed

lemma find_mem: "find P xs = Some x \<Longrightarrow> x \<in> set xs \<and> P x"
  by (auto simp: find_Some_iff)

lemma ep_find_None:
  assumes "ep_inv first s" and "sid \<noteq> 0"
  shows "ep_find_by_service_id sid s = 0 \<longleftrightarrow> sid \<notin> es_service_id ` set (g_svc_table s)"
proof (cases "find (\<lambda>e. es_service_id e = sid) (g_svc_table s)")
  case None
  then have "sid \<notin> es_service_id ` set (g_svc_table s)" by (auto simp: find_None_iff)
  then show ?thesis using None by (simp add: ep_find_by_service_id_def)
next
  case (Some e)
  then have e: "e \<in> set (g_svc_table s)" "es_service_id e = sid" using find_mem [OF Some] by auto
  then have "es_ep_cap e \<noteq> 0" using assms(1) by (auto simp: ep_inv_def)
  then show ?thesis using Some e assms(2) by (auto simp: ep_find_by_service_id_def)
qed

lemma ep_find_Some:
  assumes "ep_find_by_service_id sid s = ep" and "ep \<noteq> 0"
  shows "\<lparr>es_service_id = sid, es_ep_cap = ep\<rparr> \<in> set (g_svc_table s)"
proof -
  obtain e where e: "find (\<lambda>e. es_service_id e = sid) (g_svc_table s) = Some e" "es_ep_cap e = ep"
    using assms by (auto simp: ep_find_by_service_id_def split: if_splits option.splits)
  then have "e = \<lparr>es_service_id = sid, es_ep_cap = ep\<rparr>" "e \<in> set (g_svc_table s)" using find_mem [OF e(1)] by auto
  then show ?thesis by simp
qed

lemma ep_service_step:
  assumes inv: "ep_inv first s" and sid: "sid \<noteq> 0" and room: "length (g_svc_table s) < EP_SERVICE_TABLE_SIZE"
    and run: "ep_alloc_for_service k z sid (s, u) = (ep, s', u')"
  shows "ep_inv first s'" and "set (g_svc_table s) \<subseteq> set (g_svc_table s')"
    and "length (g_svc_table s') \<le> Suc (length (g_svc_table s))"
    and "ep \<noteq> 0 \<Longrightarrow> \<lparr>es_service_id = sid, es_ep_cap = ep\<rparr> \<in> set (g_svc_table s')"
proof -
  obtain a s1 u1 where al: "ep_alloc k z (s, u) = (a, s1, u1)" by (metis surj_pair)
  note o1 = ep_alloc_outcome [OF inv al]
  let ?new = "\<lparr>es_service_id = sid, es_ep_cap = g_next_slot s\<rparr>"
  consider "ep_find_by_service_id sid s \<noteq> 0" "ep = ep_find_by_service_id sid s" "s' = s"
    | "ep = 0" "s' = s"
    | "ep_find_by_service_id sid s = 0" "ep = g_next_slot s" "g_next_slot s < g_next_slot s + 1"
      "s' = s\<lparr>g_next_slot := g_next_slot s + 1, g_svc_table := g_svc_table s @ [?new]\<rparr>"
  proof (cases "ep_find_by_service_id sid s \<noteq> 0 \<or> a = 0")
    case True
    then consider "ep_find_by_service_id sid s \<noteq> 0" | "ep_find_by_service_id sid s = 0" "a = 0" by blast
    then show ?thesis
    proof cases
      case 1
      then have "ep_find_by_service_id sid s = ep" "s' = s" using run by (auto simp: ep_alloc_for_service_def Let_def)
      then show ?thesis using that(1) 1 by blast
    next
      case 2
      then have "s1 = s" using o1 by simp
      then show ?thesis using that(2) run al 2 by (simp add: ep_alloc_for_service_def Let_def)
    qed
  next
    case False
    then have "a = g_next_slot s" "s1 = s\<lparr>g_next_slot := g_next_slot s + 1\<rparr>" "g_next_slot s < g_next_slot s + 1"
      using o1 by auto
    moreover have "\<not> EP_SERVICE_TABLE_SIZE \<le> length (g_svc_table s)" using room by simp
    ultimately show ?thesis using that(3) run al False by (auto simp: ep_alloc_for_service_def Let_def)
  qed
  then have "ep_inv first s' \<and> set (g_svc_table s) \<subseteq> set (g_svc_table s') \<and>
    length (g_svc_table s') \<le> Suc (length (g_svc_table s)) \<and> (ep \<noteq> 0 \<longrightarrow> \<lparr>es_service_id = sid, es_ep_cap = ep\<rparr> \<in> set (g_svc_table s'))"
  proof cases
    case 1
    then show ?thesis using inv ep_find_Some [of sid s ep] by simp
  next
    case 2
    then show ?thesis using inv by simp
  next
    case 3
    have "sid \<notin> es_service_id ` set (g_svc_table s)" using ep_find_None [OF inv sid] 3(1) by simp
    moreover have "g_next_slot s \<notin> es_ep_cap ` set (g_svc_table s)" using inv by (auto simp: ep_inv_def)
    moreover have "\<forall>e \<in> set (g_svc_table s). es_service_id e \<noteq> 0 \<and> first \<le> es_ep_cap e \<and> es_ep_cap e < g_next_slot s + 1"
      using inv less_trans [OF _ 3(3)] by (auto simp: ep_inv_def)
    moreover have "first \<le> g_next_slot s" using inv by (simp add: ep_inv_def)
    then have "first \<le> g_next_slot s + 1" using less_imp_le [OF 3(3)] by (rule order_trans)
    ultimately show ?thesis using inv 3(2-4) sid by (simp add: ep_inv_def subset_insertI)
  qed
  then show "ep_inv first s'" "set (g_svc_table s) \<subseteq> set (g_svc_table s')"
    "length (g_svc_table s') \<le> Suc (length (g_svc_table s))"
    "ep \<noteq> 0 \<Longrightarrow> \<lparr>es_service_id = sid, es_ep_cap = ep\<rparr> \<in> set (g_svc_table s')" by simp_all
qed

lemma ep_requests_registered:
  assumes "ep_inv first s" and "0 \<notin> set sids" and "length (g_svc_table s) + length sids \<le> EP_SERVICE_TABLE_SIZE"
    and "ep_requests k z sids (s, u) = (eps, s', u')"
  shows "ep_inv first s' \<and> set (g_svc_table s) \<subseteq> set (g_svc_table s') \<and> length eps = length sids \<and>
    (\<forall>i < length sids. eps ! i \<noteq> 0 \<longrightarrow> \<lparr>es_service_id = sids ! i, es_ep_cap = eps ! i\<rparr> \<in> set (g_svc_table s'))"
  using assms
proof (induction sids arbitrary: s u eps)
  case (Cons sid sids)
  obtain ep s1 u1 where st: "ep_alloc_for_service k z sid (s, u) = (ep, s1, u1)" by (metis surj_pair)
  obtain eps1 where rest: "ep_requests k z sids (s1, u1) = (eps1, s', u')" "eps = ep # eps1"
    using Cons.prems(4) st by (auto split: prod.splits)
  have "sid \<noteq> 0" "length (g_svc_table s) < EP_SERVICE_TABLE_SIZE" using Cons.prems(2,3) by auto
  note step = ep_service_step [OF Cons.prems(1) this st]
  have IH: "ep_inv first s' \<and> set (g_svc_table s1) \<subseteq> set (g_svc_table s') \<and> length eps1 = length sids \<and>
    (\<forall>i < length sids. eps1 ! i \<noteq> 0 \<longrightarrow> \<lparr>es_service_id = sids ! i, es_ep_cap = eps1 ! i\<rparr> \<in> set (g_svc_table s'))"
    using Cons.prems(2,3) step(3) rest(1) by (intro Cons.IH [OF step(1)]) auto
  then show ?case using step(2,4) rest(2) by (auto simp: nth_Cons split: nat.splits)
qed simp

text \<open>
  C27. Services never share an endpoint and never change it.  Over any sequence of at most 64 requests
  by non-zero service ids against a fresh pool, two requests that obtained endpoints obtained the same
  endpoint exactly when they were for the same service.
\<close>

theorem ep_service_unique:
  assumes "first_slot \<noteq> 0" and "0 \<notin> set sids" and "length sids \<le> EP_SERVICE_TABLE_SIZE"
    and "ep_requests k z sids (ep_alloc_init root first_slot pool, u) = (eps, w)"
    and "i < length sids" and "j < length sids" and "eps ! i \<noteq> 0" and "eps ! j \<noteq> 0"
  shows "eps ! i = eps ! j \<longleftrightarrow> sids ! i = sids ! j"
proof -
  obtain s' u' where w: "w = (s', u')" by (cases w)
  have "ep_inv first_slot (ep_alloc_init root first_slot pool)" using assms(1) by (simp add: ep_inv_def ep_alloc_init_def)
  from ep_requests_registered [OF this assms(2) _ assms(4) [unfolded w]] assms(3)
  have inv: "ep_inv first_slot s'"
    and reg: "\<forall>i < length sids. eps ! i \<noteq> 0 \<longrightarrow> \<lparr>es_service_id = sids ! i, es_ep_cap = eps ! i\<rparr> \<in> set (g_svc_table s')"
    by (simp_all add: ep_alloc_init_def)
  have "inj_on es_service_id (set (g_svc_table s'))" "inj_on es_ep_cap (set (g_svc_table s'))"
    using inv by (simp_all add: ep_inv_def distinct_map)
  then show ?thesis
    using reg assms(5-8) by (metis (no_types, lifting) ep_service_entry.select_convs(1,2) inj_onD)
qed

theorem ep_service_unique_witness:
  "\<exists>a b c w. ep_requests kernel_ok ex_sizes [7, 9, 7] (ep_alloc_init 2 300 8, ut_alloc_init (Some ex_boot), []) = ([a, b, c], w) \<and>
     a \<noteq> 0 \<and> b \<noteq> 0 \<and> c \<noteq> 0 \<and> a = c \<and> a \<noteq> b"
proof -
  have eps: "fst (ep_requests kernel_ok ex_sizes [7, 9, 7] (ep_alloc_init 2 300 8, ut_alloc_init (Some ex_boot), [])) = [300, 301, 300]"
    by code_simp
  obtain w where run: "ep_requests kernel_ok ex_sizes [7, 9, 7] (ep_alloc_init 2 300 8, ut_alloc_init (Some ex_boot), []) =
      ([300, 301, 300], w)" using eps by (metis prod.collapse)
  note th = ep_service_unique [OF _ _ _ run]
  have "(300 :: u64) = 300 \<and> (300 :: u64) \<noteq> 301"
    using th [of 0 2] th [of 0 1] by (simp add: EP_SERVICE_TABLE_SIZE_def)
  moreover have "(301 :: u64) \<noteq> 0" "(300 :: u64) \<noteq> 0" by simp_all
  ultimately show ?thesis using run by blast
qed

section \<open>The capability log\<close>

type_synonym acct_args = "u64 \<times> u32 \<times> u32 \<times> string option"

definition acct_all :: "acct_args list \<Rightarrow> cap_acct_state \<Rightarrow> cap_acct_state" where
  "acct_all xs s = fold (\<lambda>(cap, ty, pd, name) s. snd (cap_acct_record 0 cap ty pd name s)) xs s"

definition root_caps :: "(seL4_ObjectType \<Rightarrow> u32) \<Rightarrow> acct_args list" where
  "root_caps ot = [(2, ot seL4_CapTableObject, CAP_ACCT_ROOT_PD_INDEX, Some ''root-cnode''),
     (3, ot seL4_ARM_VSpaceObject, CAP_ACCT_ROOT_PD_INDEX, Some ''root-vspace''),
     (1, ot seL4_TCBObject, CAP_ACCT_ROOT_PD_INDEX, Some ''root-tcb'')]"

text \<open>The table has its declared size and every name buffer its sixteen bytes.\<close>

definition acct_typed :: "cap_acct_state \<Rightarrow> bool" where
  "acct_typed s \<longleftrightarrow> length (g_table s) = 1024 \<and> (\<forall>e \<in> set (g_table s). length (ca_name e) = 16)"

abbreviation c_str :: "string \<Rightarrow> string" where
  "c_str \<equiv> takeWhile (\<lambda>c. c \<noteq> CHR 0x00)"

lemma strlcpy_typed: "length dst = 16 \<Longrightarrow> length (acct_strlcpy dst src 16) = 16"
  by (simp add: acct_strlcpy_def Let_def)

lemma strlcpy_text:
  "CHR 0x00 \<notin> set src \<Longrightarrow> CHR 0x00 \<in> set (acct_strlcpy dst src 16) \<and> c_str (acct_strlcpy dst src 16) = take 15 src"
  by (auto simp: acct_strlcpy_def Let_def takeWhile_append1 takeWhile_append dest: in_set_takeD)

definition logged :: "acct_args \<Rightarrow> cap_acct_entry \<Rightarrow> bool" where
  "logged a e \<longleftrightarrow> (case a of (cap, ty, pd, name) \<Rightarrow> ca_cap e = cap \<and> ca_obj_type e = ty \<and> ca_pd_index e = pd \<and>
     CHR 0x00 \<in> set (ca_name e) \<and> c_str (ca_name e) = take 15 (case name of None \<Rightarrow> [] | Some n \<Rightarrow> n))"

definition name_ok :: "acct_args \<Rightarrow> bool" where
  "name_ok a \<longleftrightarrow> (case a of (_, _, _, name) \<Rightarrow> CHR 0x00 \<notin> set (case name of None \<Rightarrow> [] | Some n \<Rightarrow> n))"

definition acct_log :: "acct_args list \<Rightarrow> cap_acct_state \<Rightarrow> bool" where
  "acct_log xs s \<longleftrightarrow> acct_typed s \<and> unat (g_count s) = min (length xs) 1024 \<and>
     (\<forall>i < min (length xs) 1024. logged (xs ! i) (g_table s ! i))"

lemma acct_log_record:
  assumes "acct_log xs s" and "name_ok (cap, ty, pd, name)"
  shows "acct_log (xs @ [(cap, ty, pd, name)]) (snd (cap_acct_record p cap ty pd name s))"
    and "fst (cap_acct_record p cap ty pd name s) = (if length xs < 1024 then 0 else - 1)"
proof -
  let ?n = "unat (g_count s)"
  have s: "acct_typed s" "?n = min (length xs) 1024" "\<forall>i < min (length xs) 1024. logged (xs ! i) (g_table s ! i)"
    using assms(1) by (simp_all add: acct_log_def)
  have full: "CAP_ACCT_MAX_ENTRIES \<le> g_count s \<longleftrightarrow> \<not> length xs < 1024"
    using s(2) by (auto simp: CAP_ACCT_MAX_ENTRIES_def word_le_nat_alt)
  then show "fst (cap_acct_record p cap ty pd name s) = (if length xs < 1024 then 0 else - 1)"
    by (simp add: cap_acct_record_def Let_def)
  show "acct_log (xs @ [(cap, ty, pd, name)]) (snd (cap_acct_record p cap ty pd name s))"
  proof (cases "length xs < 1024")
    case False
    then have "snd (cap_acct_record p cap ty pd name s) = s" using full by (simp add: cap_acct_record_def)
    then show ?thesis using s False by (simp add: acct_log_def nth_append)
  next
    case True
    let ?src = "case name of None \<Rightarrow> [] | Some n \<Rightarrow> n"
    let ?e = "\<lparr>ca_cap = cap, ca_obj_type = ty, ca_pd_index = pd, ca_name = acct_strlcpy (ca_name (g_table s ! ?n)) ?src 16\<rparr>"
    have n: "?n = length xs" using True s(2) by simp
    have rec: "snd (cap_acct_record p cap ty pd name s) = s\<lparr>g_table := (g_table s)[length xs := ?e], g_count := g_count s + 1\<rparr>"
      using full True n by (simp add: cap_acct_record_def Let_def)
    have "g_table s ! ?n \<in> set (g_table s)" using s(1) n True by (simp add: acct_typed_def)
    then have "length (ca_name ?e) = 16" using s(1) by (simp add: acct_typed_def strlcpy_typed)
    then have "acct_typed (snd (cap_acct_record p cap ty pd name s))"
      using s(1) unfolding rec acct_typed_def by (auto dest: set_update_subset_insert [THEN subsetD])
    moreover have "logged (cap, ty, pd, name) ?e"
      using assms(2) strlcpy_text [of ?src] by (simp add: logged_def name_ok_def)
    moreover have "unat (g_count s + 1) = Suc (length xs)"
      using n True by (subst unat_plus_no_overflow) simp_all
    ultimately show ?thesis
      using s True unfolding rec by (auto simp: acct_log_def nth_append nth_list_update less_Suc_eq acct_typed_def)
  qed
qed

lemma acct_log_all:
  assumes "acct_log xs s" and "list_all name_ok ys"
  shows "acct_log (xs @ ys) (acct_all ys s)"
  using assms
proof (induction ys arbitrary: xs s)
  case (Cons y ys)
  obtain cap ty pd name where y: "y = (cap, ty, pd, name)" by (cases y)
  have "acct_log (xs @ [y]) (snd (cap_acct_record 0 cap ty pd name s))"
    using acct_log_record(1) [OF Cons.prems(1)] Cons.prems(2) y by simp
  then show ?case using Cons.IH Cons.prems(2) y by (fastforce simp: acct_all_def)
qed (simp add: acct_all_def)

lemma acct_init_log:
  assumes "acct_typed s"
  shows "acct_log (root_caps ot) (cap_acct_init ot s)"
proof -
  let ?s0 = "s\<lparr>g_count := 0, g_table := map (\<lambda>e. \<lparr>ca_cap = 0, ca_obj_type = 0, ca_pd_index = 0, ca_name = (ca_name e)[0 := CHR 0x00]\<rparr>) (g_table s)\<rparr>"
  have "acct_log [] ?s0" using assms by (auto simp: acct_log_def acct_typed_def)
  moreover have "list_all name_ok (root_caps ot)" by (simp add: root_caps_def name_ok_def)
  ultimately have "acct_log ([] @ root_caps ot) (acct_all (root_caps ot) ?s0)" by (rule acct_log_all)
  moreover have "cap_acct_init ot s = acct_all (root_caps ot) ?s0"
    by (simp add: cap_acct_init_def acct_all_def root_caps_def Let_def seL4_CapInitThreadCNode_def)
  ultimately show ?thesis by simp
qed

text \<open>
  C28. The capability log is append-only and loses nothing it reports: after initialisation and any
  recorded capabilities it counts the three root capabilities and the recorded ones up to its
  capacity, every index below the count reads back the capability recorded at that position with a
  terminated name that is the first fifteen characters of the given one, and every other index reads
  back nothing; the table and its name buffers keep their declared sizes.
\<close>

theorem acct_log_readback:
  assumes "acct_typed s" and "list_all name_ok xs"
  shows "let s' = acct_all xs (cap_acct_init ot s); all = root_caps ot @ xs in
    acct_typed s' \<and> unat (cap_acct_count s') = min (length all) 1024 \<and>
    (\<forall>i. case cap_acct_get i s' of None \<Rightarrow> unat i \<ge> min (length all) 1024
       | Some e \<Rightarrow> unat i < min (length all) 1024 \<and> logged (all ! unat i) e)"
proof -
  have "acct_log (root_caps ot @ xs) (acct_all xs (cap_acct_init ot s))"
    by (rule acct_log_all [OF acct_init_log [OF assms(1)] assms(2)])
  then show ?thesis
    by (auto simp: acct_log_def Let_def cap_acct_count_def cap_acct_get_def word_le_nat_alt not_le)
qed

definition ex_acct :: cap_acct_state where
  "ex_acct = \<lparr>g_table = replicate 1024 \<lparr>ca_cap = 0, ca_obj_type = 0, ca_pd_index = 0, ca_name = replicate 16 CHR 0x00\<rparr>, g_count = 0\<rparr>"

theorem acct_log_readback_witness:
  "\<exists>e. cap_acct_get 3 (acct_all [(77, 4, 5, Some ''console'')] (cap_acct_init (\<lambda>_. 1) ex_acct)) = Some e \<and>
     logged (77, 4, 5, Some ''console'') e"
proof -
  let ?s = "acct_all [(77, 4, 5, Some ''console'')] (cap_acct_init (\<lambda>_. 1) ex_acct)"
  have "acct_typed ex_acct" by (simp add: acct_typed_def ex_acct_def)
  moreover have "list_all name_ok [(77, 4, 5, Some ''console'')]" by (simp add: name_ok_def)
  moreover have len: "min (length (root_caps (\<lambda>_. 1) @ [(77, 4, 5, Some ''console'')])) 1024 = 4" by (simp add: root_caps_def)
  ultimately have "case cap_acct_get i ?s of None \<Rightarrow> unat i \<ge> 4
      | Some e \<Rightarrow> unat i < 4 \<and> logged ((root_caps (\<lambda>_. 1) @ [(77, 4, 5, Some ''console'')]) ! unat i) e" for i
    using acct_log_readback [of ex_acct "[(77, 4, 5, Some ''console'')]" "\<lambda>_. 1"]
    unfolding Let_def len by blast
  from this [of 3] show ?thesis by (auto simp: root_caps_def split: option.splits)
qed

end
