(* ===== verification/Ipc.thy ===== *)
theory Ipc
  imports AosPrelude
begin

text \<open>
  The message layer of the service domains: the fixed-size message and its little-endian accessors
  (\<open>include/sel4_msg_types.h\<close>), its transport through message registers (\<open>include/sel4_ipc.h\<close>), and the
  receive, dispatch and reply loop every service runs (\<open>include/sel4_server.h\<close>).  A handler is a
  function of the message registers (some handlers read them), badge, request, reply buffer and the
  domain's state.  Message registers are a function
  from register numbers to words; what the kernel delivers is the input of the loop.
\<close>

unbundle bit_operations_syntax

section \<open>Messages (sel4_msg_types.h)\<close>

definition SEL4_MSG_DATA_BYTES :: u32 where "SEL4_MSG_DATA_BYTES = 48"
definition SEL4_ERR_OK :: u32 where "SEL4_ERR_OK = 0"
definition SEL4_ERR_INVALID_OP :: u32 where "SEL4_ERR_INVALID_OP = 1"
definition SEL4_ERR_BAD_ARG :: u32 where "SEL4_ERR_BAD_ARG = 4"
definition SEL4_ERR_NO_MEM :: u32 where "SEL4_ERR_NO_MEM = 5"

lemmas sel4_err = SEL4_ERR_OK_def SEL4_ERR_INVALID_OP_def SEL4_ERR_BAD_ARG_def SEL4_ERR_NO_MEM_def

record sel4_msg =
  ms_opcode :: u32
  ms_length :: u32
  ms_data :: "u8 list"

type_synonym sel4_badge = u64

text \<open>Little-endian words in a byte array.\<close>

definition le32 :: "u8 list \<Rightarrow> nat \<Rightarrow> u32" where
  "le32 d off = ucast (d ! off) OR push_bit 8 (ucast (d ! (off + 1))) OR
     push_bit 16 (ucast (d ! (off + 2))) OR push_bit 24 (ucast (d ! (off + 3)))"

definition put_le32 :: "nat \<Rightarrow> u32 \<Rightarrow> u8 list \<Rightarrow> u8 list" where
  "put_le32 off v d = d[off := ucast v, off + 1 := ucast (drop_bit 8 v),
     off + 2 := ucast (drop_bit 16 v), off + 3 := ucast (drop_bit 24 v)]"

definition msg_u32 :: "sel4_msg \<Rightarrow> u32 \<Rightarrow> u32" where
  "msg_u32 m off = (if SEL4_MSG_DATA_BYTES < off + 4 then 0 else le32 (ms_data m) (unat off))"

definition rep_u32 :: "u32 \<Rightarrow> u32 \<Rightarrow> sel4_msg \<Rightarrow> sel4_msg" where
  "rep_u32 off v m =
     (if SEL4_MSG_DATA_BYTES < off + 4 then m else m\<lparr>ms_data := put_le32 (unat off) v (ms_data m)\<rparr>)"

definition msg_typed :: "sel4_msg \<Rightarrow> bool" where
  "msg_typed m \<longleftrightarrow> length (ms_data m) = 48"

section \<open>Message registers (sel4_ipc.h)\<close>

type_synonym mrs = "nat \<Rightarrow> u64"

fun pack_word :: "u8 list \<Rightarrow> nat \<Rightarrow> u64 \<Rightarrow> u64" where
  "pack_word [] b word = word"
| "pack_word (x # xs) b word = pack_word xs (b + 1) (word OR push_bit (b * 8) (ucast x))"

definition sel4_msg_to_mrs :: "sel4_msg \<Rightarrow> mrs \<Rightarrow> mrs" where
  "sel4_msg_to_mrs msg r =
     fold (\<lambda>w r. r(2 + w := pack_word (take 8 (drop (w * 8) (ms_data msg))) 0 0)) [0..<6]
       (r(0 := ucast (ms_opcode msg), 1 := ucast (ms_length msg)))"

definition unpack_word :: "u64 \<Rightarrow> u8 list" where
  "unpack_word word = map (\<lambda>b. ucast (drop_bit (b * 8) word AND 0xFF)) [0..<8]"

definition sel4_mrs_to_msg :: "mrs \<Rightarrow> sel4_msg" where
  "sel4_mrs_to_msg r =
     (let len = ucast (r 1) :: u32 in
      \<lparr>ms_opcode = ucast (r 0), ms_length = (if SEL4_MSG_DATA_BYTES < len then SEL4_MSG_DATA_BYTES else len),
       ms_data = concat (map (\<lambda>w. unpack_word (r (2 + w))) [0..<6])\<rparr>)"

section \<open>Servers (sel4_server.h)\<close>

definition SEL4_SERVER_MAX_HANDLERS :: nat where "SEL4_SERVER_MAX_HANDLERS = 32"
definition SEL4_SERVER_OPCODE_ANY :: u32 where "SEL4_SERVER_OPCODE_ANY = 0xFFFFFFFF"

type_synonym 's handler = "mrs \<Rightarrow> sel4_badge \<Rightarrow> sel4_msg \<Rightarrow> sel4_msg \<Rightarrow> 's \<Rightarrow> u32 \<times> sel4_msg \<times> 's"

record 's sel4_server =
  sv_handlers :: "(u32 \<times> 's handler) list"
  sv_ep :: u64

definition sel4_server_init :: "u64 \<Rightarrow> 's sel4_server" where
  "sel4_server_init ep = \<lparr>sv_handlers = [], sv_ep = ep\<rparr>"

definition sel4_server_register :: "u32 \<Rightarrow> 's handler \<Rightarrow> 's sel4_server \<Rightarrow> int \<times> 's sel4_server" where
  "sel4_server_register opcode fn srv =
     (if SEL4_SERVER_MAX_HANDLERS \<le> length (sv_handlers srv) then (- 1, srv)
      else (0, srv\<lparr>sv_handlers := sv_handlers srv @ [(opcode, fn)]\<rparr>))"

text \<open>The scan: an exact match ends it, otherwise the first wildcard is remembered.\<close>

fun dispatch_scan :: "u32 \<Rightarrow> 's handler option \<Rightarrow> (u32 \<times> 's handler) list \<Rightarrow> 's handler option" where
  "dispatch_scan opcode any [] = any"
| "dispatch_scan opcode any ((op, fn) # hs) =
     (if op = SEL4_SERVER_OPCODE_ANY
      then dispatch_scan opcode (case any of None \<Rightarrow> Some fn | Some a \<Rightarrow> Some a) hs
      else if op = opcode then Some fn
      else dispatch_scan opcode any hs)"

definition sel4_server_dispatch :: "'s sel4_server \<Rightarrow> mrs \<Rightarrow> sel4_badge \<Rightarrow> sel4_msg \<Rightarrow> sel4_msg \<Rightarrow> 's \<Rightarrow> u32 \<times> sel4_msg \<times> 's" where
  "sel4_server_dispatch srv r badge req rep s =
     (case dispatch_scan (ms_opcode req) None (sv_handlers srv) of
        Some fn \<Rightarrow> (case fn r badge req rep s of (rc, rep', s') \<Rightarrow> (rc, rep'\<lparr>ms_opcode := rc\<rparr>, s'))
      | None \<Rightarrow> (SEL4_ERR_INVALID_OP, rep\<lparr>ms_opcode := SEL4_ERR_INVALID_OP, ms_length := 0\<rparr>, s))"

text \<open>
  One pass of the loop takes the next delivered message and leaves the reply that the following
  receive sends.  The reply buffer of the previous pass is the buffer of the next one, with its opcode
  and length reset.  The registers the reply is written over are the ones the request came in.
\<close>

definition server_pass :: "'s sel4_server \<Rightarrow> sel4_badge \<times> mrs \<Rightarrow> sel4_msg \<times> 's \<Rightarrow> sel4_msg \<times> 's" where
  "server_pass srv inp st =
     (case inp of (badge, r) \<Rightarrow> case st of (rep, s) \<Rightarrow>
        case sel4_server_dispatch srv r badge (sel4_mrs_to_msg r) (rep\<lparr>ms_opcode := 0, ms_length := 0\<rparr>) s of
          (rc, rep', s') \<Rightarrow> (rep', s'))"

fun server_passes :: "'s sel4_server \<Rightarrow> (sel4_badge \<times> mrs) list \<Rightarrow> sel4_msg \<times> 's \<Rightarrow> mrs list \<times> 's" where
  "server_passes srv [] st = ([], snd st)"
| "server_passes srv (inp # inps) st =
     (let st' = server_pass srv inp st in
      case server_passes srv inps st' of (reps, s) \<Rightarrow> (sel4_msg_to_mrs (fst st') (snd inp) # reps, s))"

definition empty_msg :: sel4_msg where
  "empty_msg = \<lparr>ms_opcode = 0, ms_length = 0, ms_data = replicate 48 0\<rparr>"

definition sel4_server_run :: "'s sel4_server \<Rightarrow> (sel4_badge \<times> mrs) list \<Rightarrow> 's \<Rightarrow> mrs list \<times> 's" where
  "sel4_server_run srv inps s = server_passes srv inps (empty_msg, s)"

section \<open>Reading back what was written\<close>

lemma length_put_le32 [simp]: "length (put_le32 off v d) = length d"
  by (simp add: put_le32_def)

lemma le32_put_same [simp]:
  assumes "off + 4 \<le> length d" shows "le32 (put_le32 off v d) off = v"
proof (rule bit_word_eqI)
  fix n assume "n < LENGTH(32)"
  then consider "n < 8" | "8 \<le> n" "n < 16" | "16 \<le> n" "n < 24" | "24 \<le> n" "n < 32" by force
  then show "bit (le32 (put_le32 off v d) off) n = bit v n"
    by cases (use assms in \<open>auto simp: le32_def put_le32_def nth_list_update bit_simps\<close>)
qed

lemma le32_put_other [simp]:
  "off + 4 \<le> off' \<or> off' + 4 \<le> off \<Longrightarrow> le32 (put_le32 off v d) off' = le32 d off'"
  by (auto simp: le32_def put_le32_def)

lemma nth_put_le32_other:
  "n < off \<or> off + 4 \<le> n \<Longrightarrow> put_le32 off v d ! n = d ! n"
  by (auto simp: put_le32_def)

lemma length_unpack_word [simp]: "length (unpack_word w) = 8"
  by (simp add: unpack_word_def)

lemma bit_byte_at:
  assumes "n < 64"
  shows "bit (push_bit (b * 8) (ucast (x :: u8) :: u64)) n \<longleftrightarrow> n div 8 = b \<and> bit x (n mod 8)"
proof (cases "b * 8 \<le> n \<and> n < b * 8 + 8")
  case True
  then have d: "n div 8 = b" by (intro div_nat_eqI) auto
  then have "n mod 8 = n - b * 8" by (simp add: modulo_nat_def)
  with d True assms show ?thesis by (auto simp: bit_simps)
next
  case False
  then have "n div 8 \<noteq> b" by (auto simp: not_le not_less div_less_iff_less_mult)
  with False assms show ?thesis by (auto simp: bit_simps dest: bit_imp_le_length)
qed

lemma bit_pack_word:
  assumes "n < 64"
  shows "bit (pack_word xs b w) n \<longleftrightarrow>
    bit w n \<or> (b \<le> n div 8 \<and> n div 8 - b < length xs \<and> bit (xs ! (n div 8 - b)) (n mod 8))"
proof (induction xs b w rule: pack_word.induct)
  case (2 x xs b w)
  have "bit (pack_word (x # xs) b w) n \<longleftrightarrow>
    bit w n \<or> (n div 8 = b \<and> bit x (n mod 8)) \<or>
    (b + 1 \<le> n div 8 \<and> n div 8 - (b + 1) < length xs \<and> bit (xs ! (n div 8 - (b + 1))) (n mod 8))"
    by (simp only: pack_word.simps 2 bit_or_iff bit_byte_at [OF assms] disj_assoc)
  then show ?case by (cases "n div 8 = b") (auto simp: nth_Cons')
qed simp

lemma unpack_pack_nth:
  assumes "length xs \<le> 8" "k < 8"
  shows "unpack_word (pack_word xs 0 0) ! k = (if k < length xs then xs ! k else 0)"
proof -
  have "(ucast (drop_bit (k * 8) (pack_word xs 0 0) AND 0xFF) :: u8) = (if k < length xs then xs ! k else 0)"
  proof (rule bit_word_eqI)
    fix n assume n: "n < LENGTH(8)"
    then have "k * 8 + n < 64" "(k * 8 + n) div 8 = k" "(k * 8 + n) mod 8 = n" using assms(2) by auto
    moreover have "bit (0xFF :: u64) n"
      using n by (auto simp: less_Suc_eq numeral_eq_Suc)
    ultimately show "bit (ucast (drop_bit (k * 8) (pack_word xs 0 0) AND 0xFF) :: u8) n =
        bit (if k < length xs then xs ! k else 0) n"
      using assms n by (simp add: bit_simps bit_pack_word)
  qed
  then show ?thesis using assms(2) by (simp add: unpack_word_def del: upt_rec_numeral)
qed

lemma unpack_pack_word: "length xs = 8 \<Longrightarrow> unpack_word (pack_word xs 0 0) = xs"
  by (simp add: list_eq_iff_nth_eq unpack_pack_nth)

definition reply_ok :: "sel4_msg \<Rightarrow> bool" where
  "reply_ok m \<longleftrightarrow> msg_typed m \<and> ms_length m \<le> SEL4_MSG_DATA_BYTES"

lemma msg_to_mrs_regs:
  "sel4_msg_to_mrs m r 0 = ucast (ms_opcode m)"
  "sel4_msg_to_mrs m r (Suc 0) = ucast (ms_length m)"
  "w < 6 \<Longrightarrow> sel4_msg_to_mrs m r (Suc (Suc w)) = pack_word (take 8 (drop (w * 8) (ms_data m))) 0 0"
  by (auto simp: sel4_msg_to_mrs_def upt_conv_Cons less_Suc_eq numeral_eq_Suc)

lemma msg_to_mrs_beyond: "8 \<le> i \<Longrightarrow> sel4_msg_to_mrs m r i = r i"
  by (simp add: sel4_msg_to_mrs_def upt_conv_Cons)

lemma concat_blocks:
  "length d = n * 8 \<Longrightarrow> concat (map (\<lambda>w. take 8 (drop (w * 8) d)) [0..<n]) = d"
proof (induction n arbitrary: d)
  case (Suc n)
  have "concat (map (\<lambda>w. take 8 (drop (w * 8) d)) [0..<Suc n]) = take 8 d @ drop 8 d"
    using Suc.IH [of "drop 8 d"] Suc.prems by (simp add: map_upt_Suc add.commute del: upt_Suc append_take_drop_id)
  then show ?case by simp
qed simp

lemma msg_transport:
  assumes "reply_ok m" shows "sel4_mrs_to_msg (sel4_msg_to_mrs m r) = m"
proof -
  have len: "length (ms_data m) = 6 * 8" "\<not> SEL4_MSG_DATA_BYTES < ms_length m"
    using assms by (auto simp: reply_ok_def msg_typed_def)
  have uc: "ucast (ucast x :: u64) = x" for x :: u32
    by (rule bit_word_eqI) (simp add: bit_simps)
  have "map (\<lambda>w. unpack_word (sel4_msg_to_mrs m r (2 + w))) [0..<6] =
      map (\<lambda>w. take 8 (drop (w * 8) (ms_data m))) [0..<6]"
    using len by (auto simp: msg_to_mrs_regs intro!: unpack_pack_word)
  then show ?thesis
    using len concat_blocks [OF len(1)]
    by (simp add: sel4_mrs_to_msg_def msg_to_mrs_regs(1,2) uc Let_def del: upt_rec_numeral map_eq_conv add_2_eq_Suc)
qed

lemma mrs_to_msg_ok [simp]: "reply_ok (sel4_mrs_to_msg r)"
  by (simp add: reply_ok_def msg_typed_def sel4_mrs_to_msg_def Let_def length_concat comp_def sum_list_triv
      not_less)

lemma reply_ok_empty [simp]: "reply_ok empty_msg"
  by (simp add: reply_ok_def msg_typed_def empty_msg_def)

lemma reply_ok_fields [simp]:
  "reply_ok (m\<lparr>ms_opcode := rc\<rparr>) = reply_ok m"
  "reply_ok (rep_u32 off v m) = reply_ok m"
  "reply_ok (m\<lparr>ms_length := n\<rparr>) \<longleftrightarrow> msg_typed m \<and> n \<le> SEL4_MSG_DATA_BYTES"
  "msg_typed (m\<lparr>ms_opcode := rc\<rparr>) = msg_typed m"
  "msg_typed (m\<lparr>ms_length := n\<rparr>) = msg_typed m"
  "msg_typed (rep_u32 off v m) = msg_typed m"
  by (auto simp: reply_ok_def msg_typed_def rep_u32_def)

lemma reply_ok_typed: "reply_ok m \<Longrightarrow> msg_typed m"
  by (simp add: reply_ok_def)

lemma rep_u32_fields [simp]:
  "ms_opcode (rep_u32 off v m) = ms_opcode m" "ms_length (rep_u32 off v m) = ms_length m"
  by (simp_all add: rep_u32_def)

text \<open>What a caller reads of a reply: its words up to its length.\<close>

definition reply_words :: "sel4_msg \<Rightarrow> u32 list" where
  "reply_words m = map (\<lambda>i. le32 (ms_data m) (4 * i)) [0..<unat (ms_length m) div 4]"

lemma reply_words_opcode [simp]: "reply_words (rep\<lparr>ms_opcode := c\<rparr>) = reply_words rep"
  by (simp add: reply_words_def)

section \<open>Dispatch\<close>

text \<open>Which handler answers: the first registered for the opcode, else the first wildcard.\<close>

definition exact_handlers :: "u32 \<Rightarrow> (u32 \<times> 's handler) list \<Rightarrow> 's handler list" where
  "exact_handlers opcode hs = map snd (filter (\<lambda>h. fst h = opcode \<and> fst h \<noteq> SEL4_SERVER_OPCODE_ANY) hs)"

definition any_handlers :: "(u32 \<times> 's handler) list \<Rightarrow> 's handler list" where
  "any_handlers hs = map snd (filter (\<lambda>h. fst h = SEL4_SERVER_OPCODE_ANY) hs)"

lemma dispatch_scan_eq:
  "dispatch_scan opcode any hs =
     (case exact_handlers opcode hs of f # _ \<Rightarrow> Some f
      | [] \<Rightarrow> (case any of Some a \<Rightarrow> Some a
          | None \<Rightarrow> (case any_handlers hs of [] \<Rightarrow> None | f # _ \<Rightarrow> Some f)))"
  by (induction opcode any hs rule: dispatch_scan.induct)
    (auto simp: exact_handlers_def any_handlers_def split: option.splits list.splits)

lemma dispatch_scan_mem:
  assumes "dispatch_scan opcode None hs = Some fn"
  shows "\<exists>op. (op, fn) \<in> set hs"
proof -
  have "fn \<in> set (exact_handlers opcode hs) \<union> set (any_handlers hs)"
    using assms by (auto simp: dispatch_scan_eq split: list.splits)
  then show ?thesis by (auto simp: exact_handlers_def any_handlers_def)
qed

section \<open>A service that keeps its invariant\<close>

text \<open>
  The same service called directly: every request and every reply is passed as a message, not
  through message registers.
\<close>

fun direct_calls :: "'s sel4_server \<Rightarrow> mrs \<Rightarrow> (sel4_badge \<times> sel4_msg) list \<Rightarrow> sel4_msg \<times> 's \<Rightarrow> sel4_msg list \<times> 's" where
  "direct_calls srv r [] st = ([], snd st)"
| "direct_calls srv r ((badge, req) # reqs) st =
     (case sel4_server_dispatch srv (sel4_msg_to_mrs req r) badge req ((fst st)\<lparr>ms_opcode := 0, ms_length := 0\<rparr>) (snd st) of
        (rc, rep, s) \<Rightarrow> (case direct_calls srv r reqs (rep, s) of (reps, s') \<Rightarrow> (rep # reps, s')))"

text \<open>
  The contract between the loop and the handlers of a domain: from a state that satisfies the domain's
  invariant, a handler given a well-formed request and reply buffer leaves a well-formed reply and the
  invariant.  What follows from it holds for every sequence of requests.
\<close>

locale rpc_service =
  fixes srv :: "'s sel4_server" and inv :: "'s \<Rightarrow> bool"
  assumes handler_keeps: "\<lbrakk>(op, fn) \<in> set (sv_handlers srv); reply_ok req; reply_ok rep; inv s;
      fn r badge req rep s = (rc, rep', s')\<rbrakk> \<Longrightarrow> reply_ok rep' \<and> inv s'"
begin

lemma dispatch_keeps:
  assumes "reply_ok req" "reply_ok rep" "inv s"
    and "sel4_server_dispatch srv r badge req rep s = (rc, rep', s')"
  shows "reply_ok rep'" "inv s'" "ms_opcode rep' = rc"
proof -
  have "reply_ok rep' \<and> inv s' \<and> ms_opcode rep' = rc"
  proof (cases "dispatch_scan (ms_opcode req) None (sv_handlers srv)")
    case None
    then show ?thesis
      using assms by (auto simp: sel4_server_dispatch_def reply_ok_typed)
  next
    case (Some fn)
    obtain op where "(op, fn) \<in> set (sv_handlers srv)" using dispatch_scan_mem [OF Some] by blast
    moreover obtain c rp t where f: "fn r badge req rep s = (c, rp, t)" by (cases "fn r badge req rep s")
    ultimately have "reply_ok rp \<and> inv t" using handler_keeps assms(1-3) by blast
    then show ?thesis
      using assms(4) Some f by (auto simp: sel4_server_dispatch_def)
  qed
  then show "reply_ok rep'" "inv s'" "ms_opcode rep' = rc" by auto
qed

lemma reset_ok: "reply_ok rep \<Longrightarrow> reply_ok (rep\<lparr>ms_opcode := 0, ms_length := 0\<rparr>)"
  by (simp add: reply_ok_typed)

lemma passes_keep:
  assumes "reply_ok rep" "inv s" "server_passes srv inps (rep, s) = (reps, s')"
  shows "inv s' \<and> length reps = length inps"
  using assms
proof (induction inps arbitrary: rep s reps s')
  case (Cons inp inps)
  obtain badge r where inp: "inp = (badge, r)" by (cases inp)
  obtain rc rp t where d: "sel4_server_dispatch srv r badge (sel4_mrs_to_msg r)
      (rep\<lparr>ms_opcode := 0, ms_length := 0\<rparr>) s = (rc, rp, t)"
    using prod_cases3 by blast
  note k = dispatch_keeps [OF mrs_to_msg_ok reset_ok [OF Cons.prems(1)] Cons.prems(2) d]
  obtain rs u where p: "server_passes srv inps (rp, t) = (rs, u)" by fastforce
  then show ?case
    using Cons.IH [OF k(1,2) p] Cons.prems(3) by (auto simp: inp server_pass_def d)
qed simp

lemma run_keeps: "inv s \<Longrightarrow> inv (snd (sel4_server_run srv inps s))"
  using passes_keep [OF reply_ok_empty] unfolding sel4_server_run_def
  by (metis prod.collapse)

lemma passes_transparent:
  assumes "\<forall>(b, m) \<in> set reqs. reply_ok m" "reply_ok rep" "inv s"
  shows "server_passes srv (map (\<lambda>(b, m). (b, sel4_msg_to_mrs m r)) reqs) (rep, s) = (reps, s') \<Longrightarrow>
    direct_calls srv r reqs (rep, s) = (map sel4_mrs_to_msg reps, s')"
  using assms
proof (induction reqs arbitrary: rep s reps s')
  case (Cons bm reqs)
  obtain badge m where bm: "bm = (badge, m)" by (cases bm)
  with Cons.prems have m: "reply_ok m" by simp
  obtain rc rp t where d: "sel4_server_dispatch srv (sel4_msg_to_mrs m r) badge m
      (rep\<lparr>ms_opcode := 0, ms_length := 0\<rparr>) s = (rc, rp, t)"
    using prod_cases3 by blast
  note k = dispatch_keeps [OF m reset_ok [OF Cons.prems(3)] Cons.prems(4) d]
  obtain rs u where p: "server_passes srv (map (\<lambda>(b, m). (b, sel4_msg_to_mrs m r)) reqs) (rp, t) = (rs, u)"
    by fastforce
  have "direct_calls srv r reqs (rp, t) = (map sel4_mrs_to_msg rs, u)"
    using Cons.IH [OF p _ k(1,2)] Cons.prems(2) by simp
  then show ?case
    using Cons.prems(1) p by (auto simp: bm server_pass_def msg_transport [OF m] d msg_transport [OF k(1)])
qed simp

lemma run_transparent:
  assumes "\<forall>(b, m) \<in> set reqs. reply_ok m" "inv s"
  shows "direct_calls srv r reqs (empty_msg, s) =
    (case sel4_server_run srv (map (\<lambda>(b, m). (b, sel4_msg_to_mrs m r)) reqs) s of
       (reps, s') \<Rightarrow> (map sel4_mrs_to_msg reps, s'))"
  using passes_transparent [OF assms(1) reply_ok_empty assms(2)]
  by (auto simp: sel4_server_run_def split: prod.splits)

end

end
