(* ===== verification/NameServer.thy ===== *)
theory NameServer
  imports Ipc
begin

text \<open>
  The name service (\<open>services/nameserver/nameserver.c\<close>, \<open>include/nameserver.h\<close>): a table of 64 entries,
  the seven request handlers, the dispatcher and the packing of names in message registers.  Its
  contract is a finite map from names to services; each request is shown to be a step of that map.
  Log lines are kept as the byte strings
  written to the domain's own log slot (the boot banner goes to another slot).  The list region is absent when it is not mapped.
\<close>

unbundle bit_operations_syntax

section \<open>Data\<close>

definition NS_NAME_MAX :: nat where "NS_NAME_MAX = 32"
definition NS_NAME_MR_COUNT :: nat where "NS_NAME_MR_COUNT = 4"
definition NS_MAX_ENTRIES :: nat where "NS_MAX_ENTRIES = 64"
definition NS_STATUS_UNKNOWN :: u8 where "NS_STATUS_UNKNOWN = 0"
definition OP_NS_REGISTER :: u32 where "OP_NS_REGISTER = 0xD0"
definition OP_NS_LOOKUP :: u32 where "OP_NS_LOOKUP = 0xD1"
definition OP_NS_UPDATE_STATUS :: u32 where "OP_NS_UPDATE_STATUS = 0xD2"
definition OP_NS_LIST :: u32 where "OP_NS_LIST = 0xD3"
definition OP_NS_DEREGISTER :: u32 where "OP_NS_DEREGISTER = 0xD4"
definition OP_NS_HEALTH :: u32 where "OP_NS_HEALTH = 0xD5"
definition OP_NS_LOOKUP_GATED :: u32 where "OP_NS_LOOKUP_GATED = 0xD6"
definition NS_OK :: u32 where "NS_OK = 0"
definition NS_ERR_FULL :: u32 where "NS_ERR_FULL = 1"
definition NS_ERR_NOT_FOUND :: u32 where "NS_ERR_NOT_FOUND = 2"
definition NS_ERR_DUPLICATE :: u32 where "NS_ERR_DUPLICATE = 3"
definition NS_ERR_UNKNOWN_OP :: u32 where "NS_ERR_UNKNOWN_OP = 4"
definition NS_ERR_BAD_ARGS :: u32 where "NS_ERR_BAD_ARGS = 5"
definition NS_ERR_FORBIDDEN :: u32 where "NS_ERR_FORBIDDEN = 6"
definition NS_VERSION :: u32 where "NS_VERSION = 1"
definition NS_LIST_MAGIC :: u32 where "NS_LIST_MAGIC = 0x4E534C53"

lemmas ns_ops = OP_NS_REGISTER_def OP_NS_LOOKUP_def OP_NS_UPDATE_STATUS_def OP_NS_LIST_def
  OP_NS_DEREGISTER_def OP_NS_HEALTH_def OP_NS_LOOKUP_GATED_def

lemmas ns_codes = NS_OK_def NS_ERR_FULL_def NS_ERR_NOT_FOUND_def NS_ERR_DUPLICATE_def
  NS_ERR_UNKNOWN_OP_def NS_ERR_BAD_ARGS_def NS_ERR_FORBIDDEN_def

record ns_entry =
  e_active :: bool
  e_name :: "u8 list"
  e_channel_id :: u32
  e_pd_id :: u32
  e_cap_classes :: u32
  e_version :: u32
  e_status :: u8
  e_registered_at :: u64

record ns_list_entry =
  l_name :: "u8 list"
  l_channel_id :: u32
  l_pd_id :: u32
  l_cap_classes :: u32
  l_version :: u32
  l_status :: u8
  l_flags :: u8
  l_pad :: "u8 list"
  l_registered_at :: u64

record ns_list_header =
  h_magic :: u32
  h_count :: u32
  h_pad :: "u8 list"
  h_entries :: "ns_list_entry list"

record ns_state =
  registry :: "ns_entry list"
  reg_count :: u32
  boot_tick :: u64
  ns_registry_shmem :: "ns_list_header option"
  ns_log :: "u8 list list"

section \<open>Names\<close>

definition ns_strlen :: "u8 list \<Rightarrow> nat" where
  "ns_strlen s = length (takeWhile (\<lambda>c. c \<noteq> 0) (take NS_NAME_MAX s))"

fun strcmp_loop :: "u8 list \<Rightarrow> u8 list \<Rightarrow> int" where
  "strcmp_loop (x # xs) (y # ys) =
     (if x \<noteq> y then uint x - uint y else if x = 0 then 0 else strcmp_loop xs ys)"
| "strcmp_loop _ _ = 0"

definition ns_strcmp :: "u8 list \<Rightarrow> u8 list \<Rightarrow> int" where
  "ns_strcmp a b = strcmp_loop (take NS_NAME_MAX a) (take NS_NAME_MAX b)"

definition ns_copy_name_from_data :: "sel4_msg \<Rightarrow> u32 \<Rightarrow> u8 list" where
  "ns_copy_name_from_data req off =
     (map (\<lambda>i. let pos = off + of_nat i in
        if pos < SEL4_MSG_DATA_BYTES then ms_data req ! unat pos else 0) [0..<NS_NAME_MAX])
       [NS_NAME_MAX - 1 := 0]"

text \<open>
  \<open>ns_pack_name\<close> reads the caller's string from memory, here a function of the offset: the inner loop
  stops at a zero byte, the outer one goes on with the next word.
\<close>

fun pack_name_word :: "(nat \<Rightarrow> u8) \<Rightarrow> nat \<Rightarrow> nat list \<Rightarrow> u64 \<Rightarrow> u64" where
  "pack_name_word name w [] word = word"
| "pack_name_word name w (b # bs) word =
     (let idx = w * 8 + b in
      if idx < NS_NAME_MAX \<and> name idx \<noteq> 0
      then pack_name_word name w bs (word OR push_bit (b * 8) (ucast (name idx)))
      else if idx < NS_NAME_MAX then word
      else pack_name_word name w bs word)"

definition ns_pack_name :: "(nat \<Rightarrow> u8) \<Rightarrow> nat \<Rightarrow> mrs \<Rightarrow> mrs" where
  "ns_pack_name name mr_start r =
     fold (\<lambda>w r. r(mr_start + w := pack_name_word name w [0..<8] 0)) [0..<NS_NAME_MR_COUNT] r"

definition ns_unpack_name :: "mrs \<Rightarrow> nat \<Rightarrow> u8 list" where
  "ns_unpack_name r mr_start =
     (concat (map (\<lambda>w. unpack_word (r (mr_start + w))) [0..<NS_NAME_MR_COUNT]))[NS_NAME_MAX - 1 := 0]"

definition ns_read_name :: "mrs \<Rightarrow> sel4_msg \<Rightarrow> u32 \<Rightarrow> u32 \<Rightarrow> nat \<Rightarrow> u8 list" where
  "ns_read_name r req raw_off legacy_off legacy_mr_start =
     (if ms_opcode req \<noteq> 0 then ns_copy_name_from_data req raw_off
      else let dst = ns_copy_name_from_data req legacy_off in
        if ns_strlen dst = 0 then ns_unpack_name r legacy_mr_start else dst)"

definition ns_req_op :: "sel4_msg \<Rightarrow> u32" where
  "ns_req_op req = (if ms_opcode req \<noteq> 0 then ms_opcode req else msg_u32 req 0)"

definition ns_req_u32 :: "sel4_msg \<Rightarrow> u32 \<Rightarrow> u32 \<Rightarrow> u32" where
  "ns_req_u32 req raw_off legacy_off = msg_u32 req (if ms_opcode req \<noteq> 0 then raw_off else legacy_off)"

section \<open>The table\<close>

definition registry_find_by_name :: "u8 list \<Rightarrow> ns_state \<Rightarrow> nat option" where
  "registry_find_by_name name s =
     find (\<lambda>i. e_active (registry s ! i) \<and> ns_strcmp (e_name (registry s ! i)) name = 0) [0..<NS_MAX_ENTRIES]"

definition registry_find_by_channel :: "u32 \<Rightarrow> ns_state \<Rightarrow> nat option" where
  "registry_find_by_channel channel_id s =
     find (\<lambda>i. e_active (registry s ! i) \<and> e_channel_id (registry s ! i) = channel_id) [0..<NS_MAX_ENTRIES]"

definition registry_alloc :: "ns_state \<Rightarrow> nat option" where
  "registry_alloc s = find (\<lambda>i. \<not> e_active (registry s ! i)) [0..<NS_MAX_ENTRIES]"

section \<open>Requests\<close>

definition log_drain_write :: "u8 list \<Rightarrow> ns_state \<Rightarrow> ns_state" where
  "log_drain_write line s = s\<lparr>ns_log := ns_log s @ [line]\<rparr>"

definition ns_log_name :: "string \<Rightarrow> u8 list \<Rightarrow> ns_state \<Rightarrow> ns_state" where
  "ns_log_name what name s =
     log_drain_write [0x0A] (log_drain_write (takeWhile (\<lambda>c. c \<noteq> 0) name) (log_drain_write (map of_char what) s))"

definition ns_reply :: "u32 \<Rightarrow> sel4_msg \<Rightarrow> sel4_msg" where
  "ns_reply code rep = (rep_u32 0 code rep)\<lparr>ms_length := 4\<rparr>"

definition ns_reply_entry :: "ns_entry \<Rightarrow> sel4_msg \<Rightarrow> sel4_msg" where
  "ns_reply_entry e rep =
     (rep_u32 20 (e_version e) (rep_u32 16 (e_cap_classes e) (rep_u32 12 (ucast (e_status e))
       (rep_u32 8 (e_pd_id e) (rep_u32 4 (e_channel_id e) (rep_u32 0 NS_OK rep))))))\<lparr>ms_length := 24\<rparr>"

definition handle_register :: "mrs \<Rightarrow> sel4_msg \<Rightarrow> sel4_msg \<Rightarrow> ns_state \<Rightarrow> u32 \<times> sel4_msg \<times> ns_state" where
  "handle_register r req rep s =
     (let channel_id = ns_req_u32 req 0 4; pd_id = ns_req_u32 req 4 8;
          cap_classes = ns_req_u32 req 8 12; version = ns_req_u32 req 12 16;
          name = ns_read_name r req 16 20 5 in
      if ns_strlen name = 0 then (SEL4_ERR_OK, ns_reply NS_ERR_BAD_ARGS rep, s)
      else if registry_find_by_name name s \<noteq> None then (SEL4_ERR_OK, ns_reply NS_ERR_DUPLICATE rep, s)
      else (case registry_alloc s of
          None \<Rightarrow> (SEL4_ERR_OK, ns_reply NS_ERR_FULL rep, s)
        | Some slot \<Rightarrow>
            let tick = boot_tick s + 1;
                e = \<lparr>e_active = True, e_name = name, e_channel_id = channel_id, e_pd_id = pd_id,
                     e_cap_classes = cap_classes, e_version = version, e_status = NS_STATUS_UNKNOWN,
                     e_registered_at = tick\<rparr>;
                s1 = s\<lparr>registry := (registry s)[slot := e], reg_count := reg_count s + 1, boot_tick := tick\<rparr> in
            (SEL4_ERR_OK, ns_reply NS_OK rep, ns_log_name ''[ns] registered: '' name s1)))"

definition handle_lookup :: "mrs \<Rightarrow> sel4_msg \<Rightarrow> sel4_msg \<Rightarrow> ns_state \<Rightarrow> u32 \<times> sel4_msg \<times> ns_state" where
  "handle_lookup r req rep s =
     (let name = ns_read_name r req 0 4 1 in
      if ns_strlen name = 0 then (SEL4_ERR_OK, ns_reply NS_ERR_BAD_ARGS rep, s)
      else (case registry_find_by_name name s of
          None \<Rightarrow> (SEL4_ERR_OK, ns_reply NS_ERR_NOT_FOUND rep, s)
        | Some slot \<Rightarrow> (SEL4_ERR_OK, ns_reply_entry (registry s ! slot) rep, s)))"

definition handle_update_status :: "sel4_msg \<Rightarrow> sel4_msg \<Rightarrow> ns_state \<Rightarrow> u32 \<times> sel4_msg \<times> ns_state" where
  "handle_update_status req rep s =
     (let channel_id = ns_req_u32 req 0 4; new_status = ucast (ns_req_u32 req 4 8) in
      case registry_find_by_channel channel_id s of
        None \<Rightarrow> (SEL4_ERR_OK, ns_reply NS_ERR_NOT_FOUND rep, s)
      | Some slot \<Rightarrow>
          (SEL4_ERR_OK, ns_reply NS_OK rep,
           s\<lparr>registry := (registry s)[slot := (registry s ! slot)\<lparr>e_status := new_status\<rparr>]\<rparr>))"

definition list_entry :: "ns_entry \<Rightarrow> ns_list_entry" where
  "list_entry src = \<lparr>l_name = e_name src, l_channel_id = e_channel_id src, l_pd_id = e_pd_id src,
     l_cap_classes = e_cap_classes src, l_version = e_version src, l_status = e_status src, l_flags = 0,
     l_pad = replicate 6 0, l_registered_at = e_registered_at src\<rparr>"

fun list_loop :: "ns_entry list \<Rightarrow> u32 \<Rightarrow> u32 \<Rightarrow> ns_list_entry list \<Rightarrow> u32 \<times> ns_list_entry list" where
  "list_loop [] count written out = (written, out)"
| "list_loop (e # es) count written out =
     (if \<not> written < count then (written, out)
      else if \<not> e_active e then list_loop es count written out
      else list_loop es count (written + 1) (out[unat written := list_entry e]))"

definition handle_list :: "sel4_msg \<Rightarrow> ns_state \<Rightarrow> u32 \<times> sel4_msg \<times> ns_state" where
  "handle_list rep s =
     (case ns_registry_shmem s of
        None \<Rightarrow> (SEL4_ERR_OK, (rep_u32 4 (reg_count s) (rep_u32 0 NS_OK rep))\<lparr>ms_length := 8\<rparr>, s)
      | Some hdr \<Rightarrow>
          case list_loop (registry s) (reg_count s) 0 (h_entries hdr) of (written, out) \<Rightarrow>
            (SEL4_ERR_OK, (rep_u32 4 written (rep_u32 0 NS_OK rep))\<lparr>ms_length := 8\<rparr>,
             s\<lparr>ns_registry_shmem := Some \<lparr>h_magic = NS_LIST_MAGIC, h_count = written,
                 h_pad = replicate 8 0, h_entries = out\<rparr>\<rparr>))"

definition handle_deregister :: "sel4_msg \<Rightarrow> sel4_msg \<Rightarrow> ns_state \<Rightarrow> u32 \<times> sel4_msg \<times> ns_state" where
  "handle_deregister req rep s =
     (case registry_find_by_channel (ns_req_u32 req 0 4) s of
        None \<Rightarrow> (SEL4_ERR_OK, ns_reply NS_ERR_NOT_FOUND rep, s)
      | Some slot \<Rightarrow>
          let e = registry s ! slot;
              s1 = ns_log_name ''[ns] deregistered: '' (e_name e) s in
          (SEL4_ERR_OK, ns_reply NS_OK rep,
           s1\<lparr>registry := (registry s1)[slot := e\<lparr>e_active := False\<rparr>], reg_count := reg_count s1 - 1\<rparr>))"

definition handle_health :: "sel4_msg \<Rightarrow> ns_state \<Rightarrow> u32 \<times> sel4_msg \<times> ns_state" where
  "handle_health rep s =
     (SEL4_ERR_OK, (rep_u32 8 NS_VERSION (rep_u32 4 (reg_count s) (rep_u32 0 NS_OK rep)))\<lparr>ms_length := 12\<rparr>, s)"

definition handle_lookup_gated :: "u32 \<Rightarrow> mrs \<Rightarrow> sel4_msg \<Rightarrow> sel4_msg \<Rightarrow> ns_state \<Rightarrow> u32 \<times> sel4_msg \<times> ns_state" where
  "handle_lookup_gated badge r req rep s =
     (let allowed_cats = (ucast (drop_bit 16 badge) :: u16); name = ns_read_name r req 0 4 1 in
      if ns_strlen name = 0 then (SEL4_ERR_OK, ns_reply NS_ERR_BAD_ARGS rep, s)
      else (case registry_find_by_name name s of
          None \<Rightarrow> (SEL4_ERR_OK, ns_reply NS_ERR_NOT_FOUND rep, s)
        | Some slot \<Rightarrow>
            let e = registry s ! slot in
            if allowed_cats = 0 \<or> e_cap_classes e AND ucast allowed_cats = 0
            then (SEL4_ERR_OK, ns_reply NS_ERR_FORBIDDEN rep,
                  ns_log_name ''[ns] gated lookup FORBIDDEN: '' (e_name e) s)
            else (SEL4_ERR_OK, ns_reply_entry e rep, s)))"

definition nameserver_h_dispatch :: "ns_state handler" where
  "nameserver_h_dispatch r b req rep s =
     (let op = ns_req_op req in
      if op = OP_NS_REGISTER then handle_register r req rep s
      else if op = OP_NS_LOOKUP then handle_lookup r req rep s
      else if op = OP_NS_UPDATE_STATUS then handle_update_status req rep s
      else if op = OP_NS_LIST then handle_list rep s
      else if op = OP_NS_DEREGISTER then handle_deregister req rep s
      else if op = OP_NS_HEALTH then handle_health rep s
      else if op = OP_NS_LOOKUP_GATED then handle_lookup_gated (ucast b) r req rep s
      else (SEL4_ERR_OK, ns_reply NS_ERR_UNKNOWN_OP rep, log_drain_write (map of_char ''[ns] unknown opcode'' @ [0x0A]) s))"

definition nameserver_pd_init :: "ns_state \<Rightarrow> ns_state" where
  "nameserver_pd_init s =
     s\<lparr>registry := map (\<lambda>e. e\<lparr>e_active := False\<rparr>) (registry s), reg_count := 0, boot_tick := 0,
       ns_log := ns_log s @ [map of_char ''[nameserver] ready '' @ [0xE2, 0x80, 0x94] @
         map of_char '' service discovery active'' @ [0x0A]]\<rparr>"

definition nameserver_srv :: "u64 \<Rightarrow> ns_state sel4_server" where
  "nameserver_srv my_ep =
     snd (sel4_server_register SEL4_SERVER_OPCODE_ANY nameserver_h_dispatch (sel4_server_init my_ep))"

definition nameserver_main :: "u64 \<Rightarrow> (sel4_badge \<times> mrs) list \<Rightarrow> ns_state \<Rightarrow> mrs list \<times> ns_state" where
  "nameserver_main my_ep inps s = sel4_server_run (nameserver_srv my_ep) inps (nameserver_pd_init s)"

section \<open>The contract\<close>

text \<open>
  The abstract name service is a map from names to services.  A request reads as one of eight
  abstract requests, and its reply as the words up to the reply's length.
\<close>

abbreviation c_str :: "u8 list \<Rightarrow> u8 list" where
  "c_str s \<equiv> takeWhile (\<lambda>c. c \<noteq> 0) s"

record service =
  sv_channel :: u32
  sv_pd :: u32
  sv_caps :: u32
  sv_version :: u32
  sv_status :: u8

type_synonym names = "u8 list \<Rightarrow> service option"

definition entry_service :: "ns_entry \<Rightarrow> service" where
  "entry_service e = \<lparr>sv_channel = e_channel_id e, sv_pd = e_pd_id e, sv_caps = e_cap_classes e,
     sv_version = e_version e, sv_status = e_status e\<rparr>"

definition active_names :: "ns_state \<Rightarrow> (u8 list \<times> service) list" where
  "active_names s = map (\<lambda>e. (c_str (e_name e), entry_service e)) (filter e_active (registry s))"

definition ns_abs :: "ns_state \<Rightarrow> names" where
  "ns_abs s = map_of (active_names s)"

datatype ns_request =
    Register "u8 list" service
  | Lookup "u8 list"
  | LookupGated u16 "u8 list"
  | UpdateStatus u32 u8
  | Deregister u32
  | ListNames
  | Health
  | UnknownOp

definition ns_decode :: "mrs \<Rightarrow> sel4_badge \<Rightarrow> sel4_msg \<Rightarrow> ns_request" where
  "ns_decode r b req =
     (let op = ns_req_op req in
      if op = OP_NS_REGISTER
      then Register (c_str (ns_read_name r req 16 20 5))
        \<lparr>sv_channel = ns_req_u32 req 0 4, sv_pd = ns_req_u32 req 4 8, sv_caps = ns_req_u32 req 8 12,
         sv_version = ns_req_u32 req 12 16, sv_status = NS_STATUS_UNKNOWN\<rparr>
      else if op = OP_NS_LOOKUP then Lookup (c_str (ns_read_name r req 0 4 1))
      else if op = OP_NS_UPDATE_STATUS then UpdateStatus (ns_req_u32 req 0 4) (ucast (ns_req_u32 req 4 8))
      else if op = OP_NS_LIST then ListNames
      else if op = OP_NS_DEREGISTER then Deregister (ns_req_u32 req 0 4)
      else if op = OP_NS_HEALTH then Health
      else if op = OP_NS_LOOKUP_GATED
      then LookupGated (ucast (drop_bit 16 (ucast b :: u32))) (c_str (ns_read_name r req 0 4 1))
      else UnknownOp)"

definition service_words :: "service \<Rightarrow> u32 list" where
  "service_words v = [NS_OK, sv_channel v, sv_pd v, ucast (sv_status v), sv_caps v, sv_version v]"

inductive ns_spec :: "ns_request \<Rightarrow> names \<Rightarrow> u32 list \<Rightarrow> names \<Rightarrow> bool" where
  reg_empty: "ns_spec (Register [] v) M [NS_ERR_BAD_ARGS] M"
| reg_dup: "nm \<noteq> [] \<Longrightarrow> nm \<in> dom M \<Longrightarrow> ns_spec (Register nm v) M [NS_ERR_DUPLICATE] M"
| reg_full: "nm \<noteq> [] \<Longrightarrow> nm \<notin> dom M \<Longrightarrow> card (dom M) = 64 \<Longrightarrow> ns_spec (Register nm v) M [NS_ERR_FULL] M"
| reg_ok: "nm \<noteq> [] \<Longrightarrow> nm \<notin> dom M \<Longrightarrow> card (dom M) < 64 \<Longrightarrow>
    ns_spec (Register nm v) M [NS_OK] (M(nm \<mapsto> v))"
| look_empty: "ns_spec (Lookup []) M [NS_ERR_BAD_ARGS] M"
| look_none: "nm \<noteq> [] \<Longrightarrow> M nm = None \<Longrightarrow> ns_spec (Lookup nm) M [NS_ERR_NOT_FOUND] M"
| look_ok: "nm \<noteq> [] \<Longrightarrow> M nm = Some v \<Longrightarrow> ns_spec (Lookup nm) M (service_words v) M"
| gated_empty: "ns_spec (LookupGated cats []) M [NS_ERR_BAD_ARGS] M"
| gated_none: "nm \<noteq> [] \<Longrightarrow> M nm = None \<Longrightarrow> ns_spec (LookupGated cats nm) M [NS_ERR_NOT_FOUND] M"
| gated_no: "nm \<noteq> [] \<Longrightarrow> M nm = Some v \<Longrightarrow> sv_caps v AND ucast cats = 0 \<Longrightarrow>
    ns_spec (LookupGated cats nm) M [NS_ERR_FORBIDDEN] M"
| gated_ok: "nm \<noteq> [] \<Longrightarrow> M nm = Some v \<Longrightarrow> sv_caps v AND ucast cats \<noteq> 0 \<Longrightarrow>
    ns_spec (LookupGated cats nm) M (service_words v) M"
| upd_none: "\<forall>v \<in> ran M. sv_channel v \<noteq> ch \<Longrightarrow> ns_spec (UpdateStatus ch st) M [NS_ERR_NOT_FOUND] M"
| upd_ok: "M nm = Some v \<Longrightarrow> sv_channel v = ch \<Longrightarrow>
    ns_spec (UpdateStatus ch st) M [NS_OK] (M(nm \<mapsto> v\<lparr>sv_status := st\<rparr>))"
| dereg_none: "\<forall>v \<in> ran M. sv_channel v \<noteq> ch \<Longrightarrow> ns_spec (Deregister ch) M [NS_ERR_NOT_FOUND] M"
| dereg_ok: "M nm = Some v \<Longrightarrow> sv_channel v = ch \<Longrightarrow> ns_spec (Deregister ch) M [NS_OK] (M(nm := None))"
| list_names: "ns_spec ListNames M [NS_OK, of_nat (card (dom M))] M"
| health: "ns_spec Health M [NS_OK, of_nat (card (dom M)), NS_VERSION] M"
| unknown: "ns_spec UnknownOp M [NS_ERR_UNKNOWN_OP] M"

definition entry_ok :: "ns_entry \<Rightarrow> bool" where
  "entry_ok e \<longleftrightarrow> length (e_name e) = NS_NAME_MAX \<and> e_name e ! (NS_NAME_MAX - 1) = 0 \<and>
     (e_active e \<longrightarrow> c_str (e_name e) \<noteq> [])"

definition ns_inv :: "ns_state \<Rightarrow> bool" where
  "ns_inv s \<longleftrightarrow> length (registry s) = NS_MAX_ENTRIES \<and> list_all entry_ok (registry s) \<and>
     distinct (map fst (active_names s)) \<and> unat (reg_count s) = length (active_names s) \<and>
     (case ns_registry_shmem s of None \<Rightarrow> True | Some h \<Rightarrow> NS_MAX_ENTRIES \<le> length (h_entries h))"

section \<open>Names compare as C strings\<close>

lemma strcmp_loop_iff:
  "length xs = length ys \<Longrightarrow> strcmp_loop xs ys = 0 \<longleftrightarrow> c_str xs = c_str ys"
  by (induction xs ys rule: list_induct2) (auto simp: unsigned_eq_0_iff dest: unsigned_word_eqI)

lemma ns_strcmp_iff:
  "length a = NS_NAME_MAX \<Longrightarrow> length b = NS_NAME_MAX \<Longrightarrow> ns_strcmp a b = 0 \<longleftrightarrow> c_str a = c_str b"
  by (simp add: ns_strcmp_def strcmp_loop_iff)

lemma ns_strlen_0_iff: "length a = NS_NAME_MAX \<Longrightarrow> ns_strlen a = 0 \<longleftrightarrow> c_str a = []"
  by (simp add: ns_strlen_def)

lemma length_unpack_words: "length (concat (map (\<lambda>w. unpack_word (f w)) [0..<n])) = n * 8"
  by (simp add: length_concat comp_def sum_list_triv)

lemma ns_read_name_ok:
  "length (ns_read_name r req a b c) = NS_NAME_MAX"
  "ns_read_name r req a b c ! (NS_NAME_MAX - 1) = 0"
  by (simp_all add: ns_read_name_def ns_copy_name_from_data_def ns_unpack_name_def Let_def NS_NAME_MAX_def
      NS_NAME_MR_COUNT_def length_unpack_words del: upt_rec_numeral)

section \<open>The table as a map\<close>

definition act :: "ns_entry \<Rightarrow> (u8 list \<times> service) list" where
  "act e = (if e_active e then [(c_str (e_name e), entry_service e)] else [])"

lemma concat_act:
  "map (\<lambda>e. (c_str (e_name e), entry_service e)) (filter e_active es) = concat (map act es)"
  by (induction es) (auto simp: act_def)

lemma active_names_concat: "active_names s = concat (map act (registry s))"
  by (simp add: active_names_def concat_act)

text \<open>Changing one slot changes one segment of the list of names.\<close>

lemma active_names_split:
  assumes "i < length (registry s)"
  obtains A B where "active_names s = A @ act (registry s ! i) @ B"
    and "\<And>e t. registry t = (registry s)[i := e] \<Longrightarrow> active_names t = A @ act e @ B"
proof
  let ?A = "concat (map act (take i (registry s)))" and ?B = "concat (map act (drop (Suc i) (registry s)))"
  show "active_names s = ?A @ act (registry s ! i) @ ?B"
    using id_take_nth_drop [OF assms]
    by (metis active_names_concat append_Cons concat.simps(2) concat_append list.simps(9) map_append self_append_conv2)
  show "active_names t = ?A @ act e @ ?B" if "registry t = (registry s)[i := e]" for e t
    using that assms by (simp add: active_names_concat upd_conv_take_nth_drop)
qed

lemma map_of_insert_mid:
  assumes "n \<notin> fst ` set (A @ B)" shows "map_of (A @ [(n, v)] @ B) = (map_of (A @ B))(n \<mapsto> v)"
proof -
  have "map_of A n = None" using assms by (auto simp: map_of_eq_None_iff)
  then show ?thesis by (auto simp: map_add_def fun_eq_iff split: option.splits)
qed

lemma map_of_delete_mid:
  assumes "distinct (map fst (A @ [(n, v)] @ B))"
  shows "map_of (A @ B) = (map_of (A @ [(n, v)] @ B))(n := None)"
proof -
  have n: "n \<notin> fst ` set (A @ B)" using assms by auto
  then have "map_of (A @ B) n = None" by (simp only: map_of_eq_None_iff) auto
  then show ?thesis unfolding map_of_insert_mid [OF n] by auto
qed

lemma ns_abs_iff:
  assumes "ns_inv s" shows "ns_abs s nm = Some v \<longleftrightarrow> (nm, v) \<in> set (active_names s)"
  using assms by (simp add: ns_abs_def ns_inv_def)

lemma card_ns_abs:
  assumes "ns_inv s" shows "card (dom (ns_abs s)) = unat (reg_count s)"
  using assms by (simp add: ns_abs_def ns_inv_def dom_map_of_conv_image_fst distinct_card flip: set_map)

lemma active_at:
  assumes "i < length (registry s)" "e_active (registry s ! i)"
  shows "(c_str (e_name (registry s ! i)), entry_service (registry s ! i)) \<in> set (active_names s)"
  using assms by (auto simp: active_names_def)

lemma active_slot:
  assumes "(nm, v) \<in> set (active_names s)"
  obtains i where "i < length (registry s)" "e_active (registry s ! i)"
    "nm = c_str (e_name (registry s ! i))" "v = entry_service (registry s ! i)"
  using assms by (auto simp: active_names_def in_set_conv_nth)

section \<open>The searches\<close>

lemma inv_entry: "ns_inv s \<Longrightarrow> i < NS_MAX_ENTRIES \<Longrightarrow> entry_ok (registry s ! i)"
  by (simp add: ns_inv_def list_all_length)

lemma find_by_name_Some:
  assumes "ns_inv s" "length name = NS_NAME_MAX" "registry_find_by_name name s = Some i"
  shows "i < length (registry s)" "e_active (registry s ! i)" "c_str (e_name (registry s ! i)) = c_str name"
    "ns_abs s (c_str name) = Some (entry_service (registry s ! i))"
proof -
  show i: "i < length (registry s)" "e_active (registry s ! i)" "c_str (e_name (registry s ! i)) = c_str name"
    using assms inv_entry [OF assms(1), of i]
    by (auto simp: registry_find_by_name_def find_index_iff ns_inv_def entry_ok_def ns_strcmp_iff)
  show "ns_abs s (c_str name) = Some (entry_service (registry s ! i))"
    using active_at [OF i(1,2)] i(3) by (simp add: ns_abs_iff [OF assms(1)])
qed

lemma find_by_name_None:
  assumes "ns_inv s" "length name = NS_NAME_MAX" "registry_find_by_name name s = None"
  shows "ns_abs s (c_str name) = None"
proof (rule ccontr)
  assume "ns_abs s (c_str name) \<noteq> None"
  then obtain v where "(c_str name, v) \<in> set (active_names s)" using ns_abs_iff [OF assms(1)] by auto
  then obtain i where "i < length (registry s)" "e_active (registry s ! i)" "c_str name = c_str (e_name (registry s ! i))"
    by (rule active_slot)
  then show False
    using assms inv_entry [OF assms(1), of i]
    by (auto simp: registry_find_by_name_def find_index_None ns_inv_def entry_ok_def ns_strcmp_iff)
qed

lemma find_by_channel_Some:
  assumes "ns_inv s" "registry_find_by_channel ch s = Some i"
  shows "i < length (registry s)" "e_active (registry s ! i)" "e_channel_id (registry s ! i) = ch"
  using assms by (auto simp: registry_find_by_channel_def find_index_iff ns_inv_def)

lemma find_by_channel_None:
  assumes "ns_inv s" "registry_find_by_channel ch s = None"
  shows "\<forall>v \<in> ran (ns_abs s). sv_channel v \<noteq> ch"
proof
  fix v assume "v \<in> ran (ns_abs s)"
  then obtain nm where "(nm, v) \<in> set (active_names s)" using ns_abs_iff [OF assms(1)] by (auto simp: ran_def)
  then obtain i where "i < length (registry s)" "e_active (registry s ! i)" "v = entry_service (registry s ! i)"
    by (rule active_slot)
  then show "sv_channel v \<noteq> ch"
    using assms by (auto simp: registry_find_by_channel_def find_index_None ns_inv_def entry_service_def)
qed

section \<open>Each request is a step of the map\<close>

definition ns_refined :: "ns_request \<Rightarrow> ns_state \<Rightarrow> u32 \<times> sel4_msg \<times> ns_state \<Rightarrow> bool" where
  "ns_refined q s out = (case out of (rc, rep, s') \<Rightarrow>
     rc = SEL4_ERR_OK \<and> reply_ok rep \<and> ns_inv s' \<and> ns_spec q (ns_abs s) (reply_words rep) (ns_abs s'))"

lemma reply_words_code [simp]: "msg_typed rep \<Longrightarrow> reply_words (ns_reply c rep) = [c]"
  by (simp add: reply_words_def ns_reply_def rep_u32_def msg_typed_def SEL4_MSG_DATA_BYTES_def)

lemma reply_words_entry [simp]:
  "msg_typed rep \<Longrightarrow> reply_words (ns_reply_entry e rep) = service_words (entry_service e)"
  by (simp add: reply_words_def ns_reply_entry_def rep_u32_def msg_typed_def SEL4_MSG_DATA_BYTES_def
      service_words_def entry_service_def upt_conv_Cons)

lemma reply_ok_ns [simp]:
  "reply_ok (ns_reply c rep) = msg_typed rep" "reply_ok (ns_reply_entry e rep) = msg_typed rep"
  by (simp_all add: ns_reply_def ns_reply_entry_def SEL4_MSG_DATA_BYTES_def)

lemma log_write_fields [simp]:
  "registry (log_drain_write l s) = registry s" "reg_count (log_drain_write l s) = reg_count s"
  "ns_registry_shmem (log_drain_write l s) = ns_registry_shmem s" "boot_tick (log_drain_write l s) = boot_tick s"
  by (simp_all add: log_drain_write_def)

lemma log_name_fields [simp]:
  "registry (ns_log_name w nm s) = registry s" "reg_count (ns_log_name w nm s) = reg_count s"
  "ns_registry_shmem (ns_log_name w nm s) = ns_registry_shmem s" "boot_tick (ns_log_name w nm s) = boot_tick s"
  by (simp_all add: ns_log_name_def)

lemma ns_logged [simp]:
  "ns_inv (ns_log_name w nm s) = ns_inv s" "ns_abs (ns_log_name w nm s) = ns_abs s"
  "ns_inv (log_drain_write l s) = ns_inv s" "ns_abs (log_drain_write l s) = ns_abs s"
  by (simp_all add: ns_abs_def ns_inv_def active_names_def)

text \<open>A free slot takes a new name.\<close>

lemma register_slot:
  assumes inv: "ns_inv s" and i: "i < length (registry s)" "\<not> e_active (registry s ! i)"
    and e: "entry_ok e" "e_active e" "c_str (e_name e) \<notin> dom (ns_abs s)"
    and t: "registry t = (registry s)[i := e]" "reg_count t = reg_count s + 1"
      "ns_registry_shmem t = ns_registry_shmem s"
  shows "ns_inv t \<and> ns_abs t = (ns_abs s)(c_str (e_name e) \<mapsto> entry_service e) \<and> card (dom (ns_abs s)) < 64"
proof -
  obtain A B where sp: "active_names s = A @ act (registry s ! i) @ B"
    and upd: "\<And>e t. registry t = (registry s)[i := e] \<Longrightarrow> active_names t = A @ act e @ B"
    using active_names_split [OF i(1)] by blast
  have s: "active_names s = A @ B" using sp i(2) by (simp add: act_def)
  have t': "active_names t = A @ [(c_str (e_name e), entry_service e)] @ B"
    using upd [OF t(1)] e(2) by (simp add: act_def)
  have new: "c_str (e_name e) \<notin> fst ` set (A @ B)"
    using e(3) by (simp add: ns_abs_def s dom_map_of_conv_image_fst image_Un)
  have "length (filter e_active (registry s)) < length (registry s)"
    using i by (intro length_filter_less [of "registry s ! i"]) auto
  then have "length (active_names s) < 64" using inv by (simp add: ns_inv_def NS_MAX_ENTRIES_def active_names_def)
  then have lt: "length (A @ B) < 64" by (simp only: s)
  have "unat (reg_count s + 1) = Suc (length (A @ B))"
    using inv lt by (subst unat_succ_no_overflow [of _ 64]) (auto simp: ns_inv_def s word_less_nat_alt)
  then have "ns_inv t"
    using inv new e(1) t by (auto simp: ns_inv_def s t' list_all_update)
  moreover have "ns_abs t = (ns_abs s)(c_str (e_name e) \<mapsto> entry_service e)"
    using map_of_insert_mid [OF new] by (simp add: ns_abs_def s t')
  ultimately show ?thesis using lt inv by (simp add: card_ns_abs ns_inv_def s)
qed

text \<open>No free slot means 64 names.\<close>

lemma alloc_None:
  assumes "ns_inv s" "registry_alloc s = None" shows "card (dom (ns_abs s)) = 64"
proof -
  have "\<forall>e \<in> set (registry s). e_active e"
    using assms by (auto simp: registry_alloc_def find_index_None ns_inv_def in_set_conv_nth)
  then show ?thesis
    using assms(1) card_ns_abs [OF assms(1)] by (simp add: ns_inv_def active_names_def NS_MAX_ENTRIES_def)
qed

lemma alloc_Some:
  assumes "ns_inv s" "registry_alloc s = Some i"
  shows "i < length (registry s)" "\<not> e_active (registry s ! i)"
  using assms by (auto simp: registry_alloc_def find_index_iff ns_inv_def)

lemma register_refined:
  assumes "ns_inv s" "reply_ok rep"
    and nm_def: "nm = ns_read_name r req 16 20 5"
  shows "ns_refined (Register (c_str nm) \<lparr>sv_channel = ns_req_u32 req 0 4, sv_pd = ns_req_u32 req 4 8,
      sv_caps = ns_req_u32 req 8 12, sv_version = ns_req_u32 req 12 16, sv_status = NS_STATUS_UNKNOWN\<rparr>)
    s (handle_register r req rep s)"
    (is "ns_refined (Register _ ?v) s _")
proof -
  have typed: "msg_typed rep" using assms(2) by (rule reply_ok_typed)
  have len: "length nm = NS_NAME_MAX" "nm ! (NS_NAME_MAX - 1) = 0" unfolding nm_def by (rule ns_read_name_ok)+
  consider (empty) "c_str nm = []" | (dup) i where "c_str nm \<noteq> []" "registry_find_by_name nm s = Some i"
    | (full) "c_str nm \<noteq> []" "registry_find_by_name nm s = None" "registry_alloc s = None"
    | (ok) i where "c_str nm \<noteq> []" "registry_find_by_name nm s = None" "registry_alloc s = Some i"
    by (metis option.exhaust)
  then show ?thesis
  proof cases
    case empty
    then show ?thesis
      using assms(1) typed len by (simp add: handle_register_def ns_refined_def Let_def ns_strlen_0_iff reg_empty flip: nm_def)
  next
    case dup
    then show ?thesis
      using assms(1) typed len find_by_name_Some(4) [OF assms(1) len(1) dup(2)]
      by (auto simp: handle_register_def ns_refined_def Let_def ns_strlen_0_iff simp flip: nm_def intro!: reg_dup)
  next
    case full
    then show ?thesis
      using assms(1) typed len find_by_name_None [OF assms(1) len(1) full(2)] alloc_None [OF assms(1) full(3)]
      by (auto simp: handle_register_def ns_refined_def Let_def ns_strlen_0_iff simp flip: nm_def intro!: reg_full)
  next
    case ok
    define e where "e = \<lparr>e_active = True, e_name = nm, e_channel_id = ns_req_u32 req 0 4,
      e_pd_id = ns_req_u32 req 4 8, e_cap_classes = ns_req_u32 req 8 12, e_version = ns_req_u32 req 12 16,
      e_status = NS_STATUS_UNKNOWN, e_registered_at = boot_tick s + 1\<rparr>"
    define t where "t = ns_log_name ''[ns] registered: '' nm (s\<lparr>registry := (registry s)[i := e],
      reg_count := reg_count s + 1, boot_tick := boot_tick s + 1\<rparr>)"
    have none: "c_str nm \<notin> dom (ns_abs s)" using find_by_name_None [OF assms(1) len(1) ok(2)] by auto
    have "ns_inv t \<and> ns_abs t = (ns_abs s)(c_str (e_name e) \<mapsto> entry_service e) \<and> card (dom (ns_abs s)) < 64"
      using register_slot [OF assms(1) alloc_Some [OF assms(1) ok(3)], of e t] len ok(1) none
      by (simp add: e_def t_def entry_ok_def)
    moreover have "entry_service e = ?v" "e_name e = nm" by (simp_all add: e_def entry_service_def)
    moreover have "handle_register r req rep s = (SEL4_ERR_OK, ns_reply NS_OK rep, t)"
      using ok len by (simp add: handle_register_def Let_def ns_strlen_0_iff e_def t_def flip: nm_def)
    ultimately show ?thesis using typed ok(1) none by (simp add: ns_refined_def reg_ok)
  qed
qed

lemma lookup_refined:
  assumes "ns_inv s" "reply_ok rep"
  shows "ns_refined (Lookup (c_str (ns_read_name r req 0 4 1))) s (handle_lookup r req rep s)"
proof -
  define nm where "nm = ns_read_name r req 0 4 1"
  have typed: "msg_typed rep" using assms(2) by (rule reply_ok_typed)
  have len: "length nm = NS_NAME_MAX" unfolding nm_def by (rule ns_read_name_ok)
  have "ns_refined (Lookup (c_str nm)) s (handle_lookup r req rep s)"
  proof (cases "registry_find_by_name nm s")
    case None
    then show ?thesis
      using assms(1) typed len find_by_name_None [OF assms(1) len None]
      by (auto simp: handle_lookup_def ns_refined_def Let_def ns_strlen_0_iff look_empty
          simp del: One_nat_def simp flip: nm_def intro!: look_none)
  next
    case (Some i)
    then show ?thesis
      using assms(1) typed len find_by_name_Some [OF assms(1) len Some]
      by (auto simp: handle_lookup_def ns_refined_def Let_def ns_strlen_0_iff look_empty
          simp del: One_nat_def simp flip: nm_def intro!: look_ok)
  qed
  then show ?thesis by (simp only: nm_def)
qed

lemma gated_refined:
  assumes "ns_inv s" "reply_ok rep"
  shows "ns_refined (LookupGated (ucast (drop_bit 16 badge)) (c_str (ns_read_name r req 0 4 1))) s
    (handle_lookup_gated badge r req rep s)"
proof -
  define nm where "nm = ns_read_name r req 0 4 1"
  define cats where "cats = (ucast (drop_bit 16 badge) :: u16)"
  have typed: "msg_typed rep" using assms(2) by (rule reply_ok_typed)
  have len: "length nm = NS_NAME_MAX" unfolding nm_def by (rule ns_read_name_ok)
  have "ns_refined (LookupGated cats (c_str nm)) s (handle_lookup_gated badge r req rep s)"
  proof (cases "registry_find_by_name nm s")
    case None
    then show ?thesis
      using assms(1) typed len find_by_name_None [OF assms(1) len None]
      by (auto simp: handle_lookup_gated_def ns_refined_def Let_def ns_strlen_0_iff gated_empty
          simp del: One_nat_def simp flip: nm_def cats_def intro!: gated_none)
  next
    case (Some i)
    have caps: "sv_caps (entry_service (registry s ! i)) = e_cap_classes (registry s ! i)"
      by (simp add: entry_service_def)
    show ?thesis
      using assms(1) typed len find_by_name_Some [OF assms(1) len Some] Some
      by (auto simp: handle_lookup_gated_def ns_refined_def Let_def ns_strlen_0_iff gated_empty caps
          simp del: One_nat_def simp flip: nm_def cats_def intro!: gated_no [of _ _ "entry_service (registry s ! i)"] gated_ok)
  qed
  then show ?thesis by (simp only: nm_def cats_def)
qed

text \<open>A change to an active slot that keeps its name, or retires it.\<close>

lemma active_slot_split:
  assumes inv: "ns_inv s" and i: "i < length (registry s)" "e_active (registry s ! i)"
  obtains A B where "active_names s = A @ [(c_str (e_name (registry s ! i)), entry_service (registry s ! i))] @ B"
    and "\<And>e t. registry t = (registry s)[i := e] \<Longrightarrow> active_names t = A @ act e @ B"
    and "c_str (e_name (registry s ! i)) \<notin> fst ` set (A @ B)"
proof -
  obtain A B where sp: "active_names s = A @ act (registry s ! i) @ B"
    and upd: "\<And>e t. registry t = (registry s)[i := e] \<Longrightarrow> active_names t = A @ act e @ B"
    using active_names_split [OF i(1)] by blast
  have s: "active_names s = A @ [(c_str (e_name (registry s ! i)), entry_service (registry s ! i))] @ B"
    using sp i(2) by (simp add: act_def)
  have "c_str (e_name (registry s ! i)) \<notin> fst ` set (A @ B)"
    using inv by (auto simp: ns_inv_def s)
  then show thesis using that s upd by blast
qed

lemma update_refined:
  assumes "ns_inv s" "reply_ok rep"
  shows "ns_refined (UpdateStatus (ns_req_u32 req 0 4) (ucast (ns_req_u32 req 4 8))) s (handle_update_status req rep s)"
proof (cases "registry_find_by_channel (ns_req_u32 req 0 4) s")
  case None
  then show ?thesis
    using assms find_by_channel_None [OF assms(1) None]
    by (auto simp: handle_update_status_def ns_refined_def reply_ok_typed intro!: upd_none)
next
  case (Some i)
  note f = find_by_channel_Some [OF assms(1) Some]
  define st where "st = (ucast (ns_req_u32 req 4 8) :: u8)"
  define e where "e = registry s ! i"
  define t where "t = s\<lparr>registry := (registry s)[i := e\<lparr>e_status := st\<rparr>]\<rparr>"
  obtain A B where sp: "active_names s = A @ [(c_str (e_name e), entry_service e)] @ B"
    and upd: "\<And>e t. registry t = (registry s)[i := e] \<Longrightarrow> active_names t = A @ act e @ B"
    and new: "c_str (e_name e) \<notin> fst ` set (A @ B)"
    unfolding e_def by (rule active_slot_split [OF assms(1) f(1,2)]) blast
  have srv: "entry_service (e\<lparr>e_status := st\<rparr>) = (entry_service e)\<lparr>sv_status := st\<rparr>"
    by (simp add: entry_service_def)
  have t: "active_names t = A @ [(c_str (e_name e), (entry_service e)\<lparr>sv_status := st\<rparr>)] @ B"
    using upd [of t "e\<lparr>e_status := st\<rparr>"] f(2) by (simp add: t_def act_def srv [unfolded e_def] e_def)
  have e: "entry_ok e" using inv_entry [OF assms(1), of i] f(1) assms(1) by (simp add: e_def ns_inv_def)
  have "ns_inv t"
    using assms(1) e by (auto simp: ns_inv_def t sp) (auto simp: t_def entry_ok_def intro!: list_all_update)
  moreover have "ns_abs s (c_str (e_name e)) = Some (entry_service e)"
    by (simp add: ns_abs_iff [OF assms(1)] sp)
  moreover have "ns_abs t = (ns_abs s)(c_str (e_name e) \<mapsto> (entry_service e)\<lparr>sv_status := st\<rparr>)"
    by (simp only: ns_abs_def t sp map_of_insert_mid [OF new] fun_upd_upd)
  moreover have "handle_update_status req rep s = (SEL4_ERR_OK, ns_reply NS_OK rep, t)"
    using Some by (simp add: handle_update_status_def Let_def t_def e_def st_def)
  ultimately show ?thesis
    using assms(2) f(3) upd_ok [of "ns_abs s" "c_str (e_name e)" "entry_service e" "ns_req_u32 req 0 4" st]
    by (simp add: ns_refined_def reply_ok_typed st_def e_def entry_service_def)
qed

lemma deregister_refined:
  assumes "ns_inv s" "reply_ok rep"
  shows "ns_refined (Deregister (ns_req_u32 req 0 4)) s (handle_deregister req rep s)"
proof (cases "registry_find_by_channel (ns_req_u32 req 0 4) s")
  case None
  then show ?thesis
    using assms find_by_channel_None [OF assms(1) None]
    by (auto simp: handle_deregister_def ns_refined_def reply_ok_typed intro!: dereg_none)
next
  case (Some i)
  note f = find_by_channel_Some [OF assms(1) Some]
  define e where "e = registry s ! i"
  define u where "u = ns_log_name ''[ns] deregistered: '' (e_name e) s"
  define t where "t = u\<lparr>registry := (registry u)[i := e\<lparr>e_active := False\<rparr>], reg_count := reg_count u - 1\<rparr>"
  obtain A B where sp: "active_names s = A @ [(c_str (e_name e), entry_service e)] @ B"
    and upd: "\<And>e t. registry t = (registry s)[i := e] \<Longrightarrow> active_names t = A @ act e @ B"
    and new: "c_str (e_name e) \<notin> fst ` set (A @ B)"
    unfolding e_def by (rule active_slot_split [OF assms(1) f(1,2)]) blast
  have t: "active_names t = A @ B"
    using upd [of t "e\<lparr>e_active := False\<rparr>"] by (simp add: t_def act_def u_def)
  have e: "entry_ok e" using inv_entry [OF assms(1), of i] f(1) assms(1) by (simp add: e_def ns_inv_def)
  have n: "unat (reg_count s) = Suc (length (A @ B))" using assms(1) by (simp add: ns_inv_def sp)
  then have "unat (reg_count s - 1) = length (A @ B)"
    by (subst unat_minus_one) (auto simp: unat_eq_0_iff [symmetric])
  then have "ns_inv t"
    using assms(1) e by (auto simp: ns_inv_def t sp) (auto simp: t_def u_def entry_ok_def intro!: list_all_update)
  moreover have "ns_abs s (c_str (e_name e)) = Some (entry_service e)"
    by (simp add: ns_abs_iff [OF assms(1)] sp)
  moreover have "ns_abs t = (ns_abs s)(c_str (e_name e) := None)"
    using map_of_delete_mid [of A "c_str (e_name e)" "entry_service e" B] assms(1) by (simp add: ns_abs_def t sp ns_inv_def)
  moreover have "handle_deregister req rep s = (SEL4_ERR_OK, ns_reply NS_OK rep, t)"
    using Some by (simp add: handle_deregister_def Let_def t_def e_def u_def)
  ultimately show ?thesis
    using assms(2) f(3) dereg_ok [of "ns_abs s" "c_str (e_name e)" "entry_service e" "ns_req_u32 req 0 4"]
    by (simp add: ns_refined_def reply_ok_typed e_def entry_service_def)
qed

text \<open>The list request writes the active entries in slot order.\<close>

lemma list_loop_dump:
  assumes "unat written + length (filter e_active es) = unat count" "unat count \<le> length out"
  shows "list_loop es count written out =
    (count, take (unat written) out @ map list_entry (filter e_active es) @ drop (unat count) out)"
  using assms
proof (induction es count written out rule: list_loop.induct)
  case (1 count written out)
  then show ?case by (simp add: word_unat_eq_iff)
next
  case (2 e es count written out)
  show ?case
  proof (cases "written < count")
    case False
    with 2(3) have "length (filter e_active (e # es)) = 0" "unat written = unat count"
      unfolding word_less_nat_alt by linarith+
    then have "filter e_active (e # es) = []" "unat written = unat count" by (simp_all only: length_0_conv)
    with False show ?thesis by (simp add: word_unat_eq_iff del: filter.simps)
  next
    case lt: True
    show ?thesis
    proof (cases "e_active e")
      case False
      with lt 2 show ?thesis by simp
    next
      case True
      have w: "unat (written + 1) = Suc (unat written)" by (rule unat_succ_no_overflow [OF lt])
      have "unat written < length out" using lt 2(4) by (simp add: word_less_nat_alt)
      then have "take (Suc (unat written)) (out[unat written := list_entry e]) = take (unat written) out @ [list_entry e]"
        by (simp add: take_Suc_conv_app_nth)
      moreover have "drop (unat count) (out[unat written := list_entry e]) = drop (unat count) out"
        using lt by (simp add: word_less_nat_alt)
      ultimately show ?thesis
        using 2(2) [OF _ _] 2(3,4) lt True w by simp
    qed
  qed
qed

lemma reply_words_count:
  "msg_typed rep \<Longrightarrow> reply_words ((rep_u32 4 n (rep_u32 0 c rep))\<lparr>ms_length := 8\<rparr>) = [c, n]"
  "msg_typed rep \<Longrightarrow> reply_words ((rep_u32 8 v (rep_u32 4 n (rep_u32 0 c rep)))\<lparr>ms_length := 12\<rparr>) = [c, n, v]"
  by (simp_all add: reply_words_def rep_u32_def msg_typed_def SEL4_MSG_DATA_BYTES_def upt_conv_Cons)

lemma inv_list_loop:
  assumes "ns_inv s" "ns_registry_shmem s = Some h"
  shows "list_loop (registry s) (reg_count s) 0 (h_entries h) =
    (reg_count s, map list_entry (filter e_active (registry s)) @ drop (unat (reg_count s)) (h_entries h))"
proof -
  have "unat (reg_count s) \<le> NS_MAX_ENTRIES"
    using assms(1) length_filter_le [of e_active "registry s"] by (simp add: ns_inv_def active_names_def)
  then show ?thesis
    using assms by (subst list_loop_dump) (auto simp: ns_inv_def active_names_def)
qed

lemma list_refined:
  assumes "ns_inv s" "reply_ok rep" shows "ns_refined ListNames s (handle_list rep s)"
proof -
  have n: "reg_count s = of_nat (card (dom (ns_abs s)))" by (simp add: card_ns_abs [OF assms(1)])
  have typed: "msg_typed rep" using assms(2) by (rule reply_ok_typed)
  show ?thesis
  proof (cases "ns_registry_shmem s")
    case None
    then show ?thesis
      using assms(1) typed list_names [of "ns_abs s"]
      by (simp add: handle_list_def ns_refined_def reply_words_count n SEL4_MSG_DATA_BYTES_def)
  next
    case (Some h)
    define out where "out = map list_entry (filter e_active (registry s)) @ drop (unat (reg_count s)) (h_entries h)"
    define t where "t = s\<lparr>ns_registry_shmem := Some \<lparr>h_magic = NS_LIST_MAGIC, h_count = reg_count s,
      h_pad = replicate 8 0, h_entries = out\<rparr>\<rparr>"
    have "length out \<ge> NS_MAX_ENTRIES"
      using assms(1) Some by (simp add: ns_inv_def out_def active_names_def) arith
    then have "ns_inv t" "ns_abs t = ns_abs s"
      using assms(1) by (simp_all add: ns_inv_def ns_abs_def active_names_def t_def)
    moreover have "handle_list rep s = (SEL4_ERR_OK, (rep_u32 4 (reg_count s) (rep_u32 0 NS_OK rep))\<lparr>ms_length := 8\<rparr>, t)"
      using Some inv_list_loop [OF assms(1) Some] by (simp add: handle_list_def t_def out_def)
    ultimately show ?thesis
      using typed list_names [of "ns_abs s"] by (simp add: ns_refined_def reply_words_count n SEL4_MSG_DATA_BYTES_def)
  qed
qed

lemma health_refined:
  assumes "ns_inv s" "reply_ok rep" shows "ns_refined Health s (handle_health rep s)"
  using assms health [of "ns_abs s"]
  by (simp add: handle_health_def ns_refined_def reply_words_count reply_ok_typed card_ns_abs SEL4_MSG_DATA_BYTES_def)

lemma dispatch_refined:
  assumes "ns_inv s" "reply_ok rep"
  shows "ns_refined (ns_decode r b req) s (nameserver_h_dispatch r b req rep s)"
proof -
  have "ns_refined UnknownOp s (SEL4_ERR_OK, ns_reply NS_ERR_UNKNOWN_OP rep, log_drain_write l s)" for l
    using assms by (simp add: ns_refined_def reply_ok_typed unknown)
  then show ?thesis
    using register_refined [OF assms refl, of r req] lookup_refined [OF assms, of r req] list_refined [OF assms]
      gated_refined [OF assms, of "ucast b" r req] update_refined [OF assms, of req]
      deregister_refined [OF assms, of req] health_refined [OF assms]
    by (simp add: nameserver_h_dispatch_def ns_decode_def Let_def)
qed

section \<open>The service\<close>

interpretation ns: rpc_service "nameserver_srv ep" ns_inv
proof
  fix op fn req rep s r badge rc rep' s'
  assume "(op, fn) \<in> set (sv_handlers (nameserver_srv ep))" "reply_ok req" "reply_ok rep" "ns_inv s"
    "fn r badge req rep s = (rc, rep', s')"
  then show "reply_ok rep' \<and> ns_inv s'"
    using dispatch_refined [of s rep r badge req]
    by (simp add: nameserver_srv_def sel4_server_register_def sel4_server_init_def SEL4_SERVER_MAX_HANDLERS_def
        ns_refined_def)
qed

text \<open>A history of the abstract service: requests, replies and the map they lead to.\<close>

inductive ns_run :: "ns_request list \<Rightarrow> names \<Rightarrow> u32 list list \<Rightarrow> names \<Rightarrow> bool" where
  ns_run_Nil: "ns_run [] M [] M"
| ns_run_Cons: "ns_spec q M ws M' \<Longrightarrow> ns_run qs M' wss M'' \<Longrightarrow> ns_run (q # qs) M (ws # wss) M''"

definition ns_delivered :: "sel4_badge \<times> mrs \<Rightarrow> ns_request" where
  "ns_delivered inp = ns_decode (snd inp) (fst inp) (sel4_mrs_to_msg (snd inp))"

definition ns_boot_ok :: "ns_state \<Rightarrow> bool" where
  "ns_boot_ok s \<longleftrightarrow> length (registry s) = NS_MAX_ENTRIES \<and>
     list_all (\<lambda>e. length (e_name e) = NS_NAME_MAX \<and> e_name e ! (NS_NAME_MAX - 1) = 0) (registry s) \<and>
     (case ns_registry_shmem s of None \<Rightarrow> True | Some h \<Rightarrow> NS_MAX_ENTRIES \<le> length (h_entries h))"

lemma ns_srv_dispatch:
  "sel4_server_dispatch (nameserver_srv ep) r b req rep s =
    (case nameserver_h_dispatch r b req rep s of (rc, rep', s') \<Rightarrow> (rc, rep'\<lparr>ms_opcode := rc\<rparr>, s'))"
  by (simp add: sel4_server_dispatch_def nameserver_srv_def sel4_server_register_def sel4_server_init_def
      SEL4_SERVER_MAX_HANDLERS_def)

lemma ns_pass_refined:
  assumes "ns_inv s" "reply_ok rep" "server_pass (nameserver_srv ep) inp (rep, s) = (rep', s')"
  shows "reply_ok rep' \<and> ns_inv s' \<and> ns_spec (ns_delivered inp) (ns_abs s) (reply_words rep') (ns_abs s')"
proof -
  obtain b r where inp: "inp = (b, r)" by (cases inp)
  have ok: "reply_ok (rep\<lparr>ms_opcode := 0, ms_length := 0\<rparr>)" using assms(2) by (simp add: reply_ok_typed)
  show ?thesis
    using dispatch_refined [OF assms(1) ok, of r b "sel4_mrs_to_msg r"] assms(3)
    by (auto simp: server_pass_def inp ns_srv_dispatch ns_refined_def ns_delivered_def split: prod.splits)
qed

lemma ns_passes_refined:
  assumes "ns_inv s" "reply_ok rep" "server_passes (nameserver_srv ep) inps (rep, s) = (reps, s')"
  shows "ns_inv s' \<and> ns_run (map ns_delivered inps) (ns_abs s) (map (\<lambda>r. reply_words (sel4_mrs_to_msg r)) reps) (ns_abs s')"
  using assms
proof (induction inps arbitrary: rep s reps)
  case (Cons inp inps)
  obtain rp t where p: "server_pass (nameserver_srv ep) inp (rep, s) = (rp, t)" by (cases "server_pass (nameserver_srv ep) inp (rep, s)")
  note st = ns_pass_refined [OF Cons.prems(1,2) p]
  obtain rs u where q: "server_passes (nameserver_srv ep) inps (rp, t) = (rs, u)"
    by (cases "server_passes (nameserver_srv ep) inps (rp, t)")
  have u: "u = s'" "reps = sel4_msg_to_mrs rp (snd inp) # rs" using Cons.prems(3) p q by auto
  show ?case
    using Cons.IH [of t rp rs] st q u by (auto simp: msg_transport intro: ns_run_Cons)
qed (auto intro: ns_run_Nil)

lemma ns_init_ok:
  assumes "ns_boot_ok s" shows "ns_inv (nameserver_pd_init s)" "ns_abs (nameserver_pd_init s) = Map.empty"
proof -
  have "filter e_active (map (\<lambda>e. e\<lparr>e_active := False\<rparr>) es) = []" for es by (induction es) auto
  then have none: "active_names (nameserver_pd_init s) = []"
    by (simp add: active_names_def nameserver_pd_init_def)
  show "ns_inv (nameserver_pd_init s)"
    using assms none by (auto simp: ns_inv_def ns_boot_ok_def nameserver_pd_init_def list_all_iff entry_ok_def)
  show "ns_abs (nameserver_pd_init s) = Map.empty" by (simp add: ns_abs_def none)
qed

text \<open>C29. The name service is a map from names to services: for every sequence of messages delivered from
  start-up, what its callers receive are the replies of an abstract service that starts empty, answers
  each request by its contract (register once per name up to 64 names, look up, look up gated by the
  caller's class mask, change the status of or remove a service by channel, count) and ends in the map
  the table represents, with one slot per name and an exact count.
\<close>

theorem ns_service_refines:
  assumes "ns_boot_ok s" "nameserver_main ep inps s = (reps, s')"
  shows "ns_run (map ns_delivered inps) Map.empty (map (\<lambda>r. reply_words (sel4_mrs_to_msg r)) reps) (ns_abs s') \<and>
    ns_inv s'"
  using ns_passes_refined [OF ns_init_ok(1) [OF assms(1)] reply_ok_empty, of ep inps reps s'] assms
  by (auto simp: nameserver_main_def sel4_server_run_def ns_init_ok(2) [OF assms(1)])

section \<open>Names in message registers\<close>

text \<open>One register holds the bytes of its segment up to the first zero.\<close>

lemma pack_name_word_eq:
  assumes "w < 4" "k \<le> 8"
  shows "pack_name_word name w [k..<8] word =
    pack_word (takeWhile (\<lambda>c. c \<noteq> 0) (map (\<lambda>b. name (w * 8 + b)) [k..<8])) k word"
  using assms
proof (induction "8 - k" arbitrary: k word)
  case (Suc d)
  then have "[k..<8] = k # [Suc k..<8]" by (simp add: upt_conv_Cons)
  moreover have "w * 8 + k < 32" using Suc by simp
  ultimately show ?case
    using Suc.hyps(1) [of "Suc k"] Suc.hyps(2) Suc.prems by (simp add: Let_def NS_NAME_MAX_def)
qed simp

lemma nth_concat_blocks:
  "\<lbrakk>\<And>w. length (f w) = 8; i < n * 8\<rbrakk> \<Longrightarrow> concat (map f [0..<n]) ! i = f (i div 8) ! (i mod 8)"
proof (induction n)
  case (Suc n)
  have len: "length (concat (map f [0..<n])) = n * 8"
    using Suc.prems(1) by (simp add: length_concat comp_def sum_list_triv)
  show ?case
  proof (cases "i < n * 8")
    case True
    with Suc len show ?thesis by (simp add: nth_append)
  next
    case False
    then have d: "i div 8 = n" using Suc.prems(2) by (intro div_nat_eqI) auto
    then have "i mod 8 = i - n * 8" by (simp add: modulo_nat_def)
    with d False len show ?thesis by (simp add: nth_append)
  qed
qed simp

lemma ns_pack_reg: "w < 4 \<Longrightarrow> ns_pack_name name st r (st + w) = pack_name_word name w [0..<8] 0"
  by (auto simp: ns_pack_name_def NS_NAME_MR_COUNT_def upt_conv_Cons less_Suc_eq numeral_eq_Suc)

lemma ns_unpack_nth:
  assumes "i < 31"
  shows "ns_unpack_name (ns_pack_name name st r) st ! i =
    (let p = takeWhile (\<lambda>c. c \<noteq> 0) (map (\<lambda>b. name (i div 8 * 8 + b)) [0..<8]) in
     if i mod 8 < length p then p ! (i mod 8) else 0)"
proof -
  have w: "i div 8 < 4" "i < 4 * 8" using assms by auto
  have l: "length (takeWhile (\<lambda>c. c \<noteq> 0) (map (\<lambda>b. name (i div 8 * 8 + b)) [0..<8])) \<le> 8"
    by (rule order_trans [OF length_takeWhile_le]) simp
  show ?thesis
    using assms w l
    by (simp add: ns_unpack_name_def NS_NAME_MAX_def NS_NAME_MR_COUNT_def nth_concat_blocks ns_pack_reg
        pack_name_word_eq unpack_pack_nth Let_def del: upt_rec_numeral)
qed

text \<open>A service name packed into message registers and unpacked from them is the C string the caller had:
  for every string with its terminator within 32 bytes, at any first register.
\<close>

theorem ns_name_roundtrip:
  assumes "k < 32" "name k = 0" "\<forall>i < k. name i \<noteq> 0"
  shows "c_str (ns_unpack_name (ns_pack_name name mr_start r) mr_start) = map name [0..<k]"
proof -
  let ?u = "ns_unpack_name (ns_pack_name name mr_start r) mr_start"
  have len: "length ?u = 32" "?u ! 31 = 0"
    by (simp_all add: ns_unpack_name_def NS_NAME_MAX_def NS_NAME_MR_COUNT_def length_unpack_words del: upt_rec_numeral)
  have byte: "?u ! i = name i" if i: "i < 31" "i \<le> k" for i
  proof -
    have pre: "\<forall>j < i mod 8. name (i div 8 * 8 + j) \<noteq> 0"
    proof (intro allI impI)
      fix j assume "j < i mod 8"
      then have "i div 8 * 8 + j < k" using i(2) by (metis add_less_cancel_left div_mult_mod_eq order_less_le_trans)
      then show "name (i div 8 * 8 + j) \<noteq> 0" using assms(3) by blast
    qed
    have "[0..<8] = [0..<i mod 8] @ i mod 8 # [Suc (i mod 8)..<8]"
      by (metis le_add2 add_0 mod_less_divisor upt_add_eq_append upt_conv_Cons zero_less_numeral less_imp_add_positive less_imp_le zero_le)
    then show ?thesis
      using pre by (simp add: ns_unpack_nth [OF i(1)] Let_def takeWhile_append nth_append del: upt_rec_numeral)
  qed
  have "c_str ?u = take k ?u"
  proof (rule takeWhile_eq_take_P_nth)
    show "?u ! i \<noteq> 0" if "i < k" "i < length ?u" for i
      using byte [of i] that assms by auto
    show "\<not> ?u ! k \<noteq> 0" using byte [of k] assms len by (cases "k = 31") auto
  qed
  also have "\<dots> = map name [0..<k]"
    using assms(1) len byte by (auto simp: list_eq_iff_nth_eq)
  finally show ?thesis .
qed

section \<open>What a refused caller receives\<close>

lemma refused_data:
  assumes "ns_inv s" "reply_ok rep" "ns_decode r b req = LookupGated cats nm"
    and "nameserver_h_dispatch r b req rep s = (rc, rep', s')" "reply_words rep' = [c]"
  shows "ms_data rep' = put_le32 0 c (ms_data rep)"
proof -
  have op: "ns_req_op req = OP_NS_LOOKUP_GATED"
    using assms(3) by (auto simp: ns_decode_def Let_def split: if_splits)
  have "handle_lookup_gated (ucast b) r req rep s = (rc, rep', s')"
    using assms(4) op by (simp add: nameserver_h_dispatch_def ns_ops)
  then have "rep' = ns_reply c' rep \<or> (\<exists>e. rep' = ns_reply_entry e rep)"
    if "c' = le32 (ms_data rep') 0" for c'
    using that reply_ok_typed [OF assms(2)]
    by (auto simp: handle_lookup_gated_def Let_def ns_reply_def rep_u32_def msg_typed_def SEL4_MSG_DATA_BYTES_def
        split: if_splits option.splits)
  then have "rep' = ns_reply (le32 (ms_data rep') 0) rep \<or> (\<exists>e. rep' = ns_reply_entry e rep)" by blast
  then have "rep' = ns_reply c rep"
    using assms(5) reply_ok_typed [OF assms(2)] by (auto simp: service_words_def) (metis list.inject reply_words_code)
  then show ?thesis
    using assms(2) by (simp add: ns_reply_def rep_u32_def SEL4_MSG_DATA_BYTES_def)
qed

text \<open>C30. A refused lookup hands over the previous answer.  When one caller's lookup is answered with a service
  and the next request served is a gated lookup that is refused, the refused caller's reply registers
  still hold the channel, domain, status, classes and version of the service given to the first caller:
  the loop resets only opcode and length of the reply buffer, and all data registers are sent.
\<close>

theorem refused_lookup_carries_previous:
  assumes "ns_inv s" "reply_ok rep"
    and "server_passes (nameserver_srv ep) [a, b] (rep, s) = ([ra, rb], s')"
    and "reply_words (sel4_mrs_to_msg ra) = service_words v"
    and "ns_delivered b = LookupGated cats nm" "reply_words (sel4_mrs_to_msg rb) = [NS_ERR_FORBIDDEN]"
  shows "map (\<lambda>i. le32 (ms_data (sel4_mrs_to_msg rb)) (4 * i)) [1..<6] = tl (service_words v)"
proof -
  define srv where "srv = nameserver_srv ep"
  obtain r1 s1 where p1: "server_pass srv a (rep, s) = (r1, s1)" by (cases "server_pass srv a (rep, s)")
  obtain r2 s2 where p2: "server_pass srv b (r1, s1) = (r2, s2)" by (cases "server_pass srv b (r1, s1)")
  note st1 = ns_pass_refined [OF assms(1,2) p1 [unfolded srv_def]]
  note st2 = ns_pass_refined [OF _ _ p2 [unfolded srv_def]]
  have m: "sel4_mrs_to_msg ra = r1" "sel4_mrs_to_msg rb = r2"
    using assms(3) p1 p2 st1 st2 by (auto simp: msg_transport simp flip: srv_def)
  have ok: "reply_ok (r1\<lparr>ms_opcode := 0, ms_length := 0\<rparr>)" using st1 by (simp add: reply_ok_typed)
  obtain bb rr where b: "b = (bb, rr)" by (cases b)
  obtain rc r3 s3 where d: "nameserver_h_dispatch rr bb (sel4_mrs_to_msg rr) (r1\<lparr>ms_opcode := 0, ms_length := 0\<rparr>) s1 = (rc, r3, s3)"
    by (cases "nameserver_h_dispatch rr bb (sel4_mrs_to_msg rr) (r1\<lparr>ms_opcode := 0, ms_length := 0\<rparr>) s1")
  have r2: "r2 = r3\<lparr>ms_opcode := rc\<rparr>" using p2 by (simp add: server_pass_def b srv_def ns_srv_dispatch d)
  have "ms_data r3 = put_le32 0 NS_ERR_FORBIDDEN (ms_data r1)"
    using refused_data [OF _ ok _ d, of cats nm NS_ERR_FORBIDDEN] st1 assms(5,6) m r2 by (simp add: ns_delivered_def b)
  then have data: "le32 (ms_data r2) (4 * i) = le32 (ms_data r1) (4 * i)" if "1 \<le> i" for i
    using that by (simp add: r2)
  have w: "reply_words r1 = service_words v" using assms(4) m by simp
  then have "length (reply_words r1) = 6" by (simp add: service_words_def)
  then have "unat (ms_length r1) div 4 = 6" by (simp add: reply_words_def)
  then have "tl (service_words v) = map (\<lambda>i. le32 (ms_data r1) (4 * i)) [1..<6]"
    by (simp add: reply_words_def map_tl [symmetric] flip: w)
  then show ?thesis using data m by simp
qed

section \<open>Concrete runs\<close>

definition ex_ns_boot :: ns_state where
  "ex_ns_boot = \<lparr>registry = replicate 64 \<lparr>e_active = False, e_name = replicate 32 0, e_channel_id = 0, e_pd_id = 0,
     e_cap_classes = 0, e_version = 0, e_status = 0, e_registered_at = 0\<rparr>,
     reg_count = 0, boot_tick = 0, ns_registry_shmem = None, ns_log = []\<rparr>"

definition ex_request :: "u32 \<Rightarrow> u8 list \<Rightarrow> sel4_msg" where
  "ex_request op bs = \<lparr>ms_opcode = op, ms_length = 48, ms_data = bs @ replicate (48 - length bs) 0\<rparr>"

definition ex_register :: sel4_msg where
  "ex_register = ex_request OP_NS_REGISTER [7,0,0,0, 3,0,0,0, 2,0,0,0, 1,0,0,0, 0x66, 0x73]"

definition ex_gated :: sel4_msg where
  "ex_gated = ex_request OP_NS_LOOKUP_GATED [0x66, 0x73]"

definition ex_entry :: ns_entry where
  "ex_entry = \<lparr>e_active = True, e_name = [0x66, 0x73] @ replicate 30 0, e_channel_id = 7, e_pd_id = 3,
     e_cap_classes = 2, e_version = 1, e_status = 0, e_registered_at = 1\<rparr>"

definition ex_ns_one :: ns_state where
  "ex_ns_one = \<lparr>registry = ex_entry # tl (registry ex_ns_boot), reg_count = 1, boot_tick = 1,
     ns_registry_shmem = None, ns_log = []\<rparr>"

lemma ex_ns_boot_ok: "ns_boot_ok ex_ns_boot"
  by (simp add: ns_boot_ok_def ex_ns_boot_def NS_MAX_ENTRIES_def NS_NAME_MAX_def list_all_iff del: replicate.simps)

lemma ex_ns_one_inv: "ns_inv ex_ns_one"
proof -
  have "filter e_active (replicate n \<lparr>e_active = False, e_name = nm, e_channel_id = 0, e_pd_id = 0,
      e_cap_classes = 0, e_version = 0, e_status = 0, e_registered_at = 0\<rparr>) = []" for n nm
    by (induction n) auto
  then have "active_names ex_ns_one = [([0x66, 0x73], entry_service ex_entry)]"
    by (simp add: active_names_def ex_ns_one_def ex_ns_boot_def ex_entry_def tl_replicate del: replicate.simps)
  then show ?thesis
    by (simp add: ns_inv_def)
      (simp add: ex_ns_one_def ex_ns_boot_def NS_MAX_ENTRIES_def list_all_iff entry_ok_def NS_NAME_MAX_def ex_entry_def
        tl_replicate nth_append del: replicate.simps)
qed

lemma ex_ns_eval:
  "reply_ok ex_register" "reply_ok ex_gated"
  "nameserver_h_dispatch r 0x20000 ex_gated (empty_msg\<lparr>ms_opcode := 0, ms_length := 0\<rparr>) ex_ns_one =
    (0, ns_reply_entry ex_entry empty_msg, ex_ns_one)"
  "fst (nameserver_h_dispatch r 0x10000 ex_gated (ns_reply_entry ex_entry empty_msg\<lparr>ms_opcode := 0, ms_length := 0\<rparr>) ex_ns_one) = 0"
  "fst (snd (nameserver_h_dispatch r 0x10000 ex_gated (ns_reply_entry ex_entry empty_msg\<lparr>ms_opcode := 0, ms_length := 0\<rparr>) ex_ns_one)) =
    ns_reply NS_ERR_FORBIDDEN (ns_reply_entry ex_entry empty_msg)"
  "ns_decode r 0x10000 ex_gated = LookupGated 1 [0x66, 0x73]"
  by code_simp+

lemma ex_ns_register:
  "fst (snd (nameserver_h_dispatch r 0 ex_register (empty_msg\<lparr>ms_opcode := 0, ms_length := 0\<rparr>) (nameserver_pd_init ex_ns_boot))) =
    ns_reply NS_OK empty_msg"
  by code_simp

theorem ns_service_refines_witness:
  "\<exists>s'. nameserver_main 1 [(0, sel4_msg_to_mrs ex_register (\<lambda>_. 0))] ex_ns_boot =
      ([sel4_msg_to_mrs ((ns_reply NS_OK empty_msg)\<lparr>ms_opcode := 0\<rparr>) (sel4_msg_to_mrs ex_register (\<lambda>_. 0))], s') \<and>
    ns_run [ns_delivered (0, sel4_msg_to_mrs ex_register (\<lambda>_. 0))] Map.empty [[NS_OK]] (ns_abs s') \<and> ns_inv s'"
proof -
  let ?r = "sel4_msg_to_mrs ex_register (\<lambda>_. 0)" and ?rep = "(ns_reply NS_OK empty_msg)\<lparr>ms_opcode := 0\<rparr>"
  obtain rc s' where d: "nameserver_h_dispatch ?r 0 ex_register (empty_msg\<lparr>ms_opcode := 0, ms_length := 0\<rparr>)
      (nameserver_pd_init ex_ns_boot) = (rc, ns_reply NS_OK empty_msg, s')"
    by (metis ex_ns_register prod.collapse)
  have "rc = 0"
    using dispatch_refined [OF ns_init_ok(1) [OF ex_ns_boot_ok], of "empty_msg\<lparr>ms_opcode := 0, ms_length := 0\<rparr>" ?r 0 ex_register] d
    by (simp add: ns_refined_def SEL4_ERR_OK_def reply_ok_typed)
  then have run: "nameserver_main 1 [(0, ?r)] ex_ns_boot = ([sel4_msg_to_mrs ?rep ?r], s')"
    by (simp add: nameserver_main_def sel4_server_run_def server_pass_def ns_srv_dispatch msg_transport ex_ns_eval(1) d)
  show ?thesis
    using run ns_service_refines [OF ex_ns_boot_ok run]
    by (intro exI [of _ s']) (simp add: msg_transport reply_ok_typed del: One_nat_def)
qed

theorem ns_name_roundtrip_witness:
  "c_str (ns_unpack_name (ns_pack_name (\<lambda>i. if i = 0 then 0x66 else if i = 1 then 0x73 else 0) 5 (\<lambda>_. 0)) 5) = [0x66, 0x73]"
  using ns_name_roundtrip [of 2 "\<lambda>i. if i = 0 then 0x66 else if i = 1 then 0x73 else 0" 5 "\<lambda>_. 0"]
  by (simp add: upt_conv_Cons)

theorem refused_lookup_carries_previous_witness:
  "\<exists>s' ra rb. server_passes (nameserver_srv 1) [(0x20000, sel4_msg_to_mrs ex_gated (\<lambda>_. 0)), (0x10000, sel4_msg_to_mrs ex_gated (\<lambda>_. 0))]
      (empty_msg, ex_ns_one) = ([ra, rb], s') \<and>
    reply_words (sel4_mrs_to_msg rb) = [NS_ERR_FORBIDDEN] \<and>
    map (\<lambda>i. le32 (ms_data (sel4_mrs_to_msg rb)) (4 * i)) [1..<6] = [7, 3, 0, 2, 1]"
proof -
  let ?r = "sel4_msg_to_mrs ex_gated (\<lambda>_. 0)"
  let ?ra = "(ns_reply_entry ex_entry empty_msg)\<lparr>ms_opcode := 0\<rparr>"
  let ?rb = "(ns_reply NS_ERR_FORBIDDEN (ns_reply_entry ex_entry empty_msg))\<lparr>ms_opcode := 0\<rparr>"
  obtain s' where d: "nameserver_h_dispatch ?r 0x10000 ex_gated (ns_reply_entry ex_entry empty_msg\<lparr>ms_opcode := 0, ms_length := 0\<rparr>)
      ex_ns_one = (0, ns_reply NS_ERR_FORBIDDEN (ns_reply_entry ex_entry empty_msg), s')"
    by (metis ex_ns_eval(4,5) prod.collapse)
  have run: "server_passes (nameserver_srv 1) [(0x20000, ?r), (0x10000, ?r)] (empty_msg, ex_ns_one) =
      ([sel4_msg_to_mrs ?ra ?r, sel4_msg_to_mrs ?rb ?r], s')"
    by (simp add: server_pass_def ns_srv_dispatch msg_transport ex_ns_eval(2,3) d)
  have typed: "msg_typed (ns_reply_entry ex_entry empty_msg)" "msg_typed empty_msg"
    by (simp_all add: reply_ok_typed)
  have "service_words (entry_service ex_entry) = [0, 7, 3, 0, 2, 1]"
    by (simp add: service_words_def entry_service_def ex_entry_def NS_OK_def)
  then have "map (\<lambda>i. le32 (ms_data (sel4_mrs_to_msg (sel4_msg_to_mrs ?rb ?r))) (4 * i)) [1..<6] = [7, 3, 0, 2, 1]"
    using refused_lookup_carries_previous [OF ex_ns_one_inv reply_ok_empty run, of "entry_service ex_entry" 1 "[0x66, 0x73]"] typed
    by (simp only: msg_transport ns_delivered_def ex_ns_eval(2,6) reply_ok_ns reply_ok_fields reply_words_opcode reply_words_entry
        reply_words_code fst_conv snd_conv list.sel simp_thms)
  then show ?thesis
    using run typed by (intro exI [of _ s'] exI [of _ "sel4_msg_to_mrs ?ra ?r"] exI [of _ "sel4_msg_to_mrs ?rb ?r"] conjI)
      (simp_all only: msg_transport reply_ok_ns reply_ok_fields reply_words_opcode reply_words_code)
qed

end
