(* ===== verification/EventBus.thy ===== *)
theory EventBus
  imports Ipc
begin

text \<open>
  The event bus (\<open>services/event-bus/event_bus.c\<close>): the event ring in the shared region, the subscriber
  table, all request handlers, registration and the service loop.  Memory is the bytes from the ring's
  base address on, at their offsets, so fields are read and written as little-endian bytes.  Between two
  requests the other domains may have written the region.
\<close>

unbundle bit_operations_syntax

section \<open>Constants and layout\<close>

definition MSG_EVENTBUS_INIT :: u32 where "MSG_EVENTBUS_INIT = 0x0001"
definition MSG_EVENTBUS_SUBSCRIBE :: u32 where "MSG_EVENTBUS_SUBSCRIBE = 0x0002"
definition MSG_EVENTBUS_UNSUBSCRIBE :: u32 where "MSG_EVENTBUS_UNSUBSCRIBE = 0x0003"
definition MSG_EVENTBUS_STATUS :: u32 where "MSG_EVENTBUS_STATUS = 0x0004"
definition MSG_EVENTBUS_READY :: u32 where "MSG_EVENTBUS_READY = 0x0101"
definition MSG_EVENTBUS_PUBLISH :: u32 where "MSG_EVENTBUS_PUBLISH = 0x0006"
definition OP_PUBLISH_BATCH :: u32 where "OP_PUBLISH_BATCH = 0x0025"
definition PUBLISH_BATCH_MAX :: u32 where "PUBLISH_BATCH_MAX = 16"
definition AGENTOS_RING_MAGIC :: u32 where "AGENTOS_RING_MAGIC = 0xA6E70B05"
definition EVENTBUS_RING_SIZE :: u32 where "EVENTBUS_RING_SIZE = 0x40000"
definition EVENTBUS_RING_VA :: u64 where "EVENTBUS_RING_VA = 0x30000000"
definition EVENTBUS_BATCH_STAGING_SIZE :: u32 where "EVENTBUS_BATCH_STAGING_SIZE = 768"
definition EVENTBUS_BATCH_STAGING_OFFSET :: u32 where
  "EVENTBUS_BATCH_STAGING_OFFSET = EVENTBUS_RING_SIZE - EVENTBUS_BATCH_STAGING_SIZE"
definition MAX_SUBSCRIBERS :: nat where "MAX_SUBSCRIBERS = 64"

text \<open>Sizes and field offsets of \<open>eb_ring_header_t\<close> and \<open>eb_event_t\<close> in the 64-bit ABI.\<close>

definition eb_header_size :: nat where "eb_header_size = 72"
definition hdr_magic :: nat where "hdr_magic = 0"
definition hdr_version :: nat where "hdr_version = 4"
definition hdr_capacity :: nat where "hdr_capacity = 8"
definition hdr_head :: nat where "hdr_head = 16"
definition hdr_tail :: nat where "hdr_tail = 24"
definition hdr_overflow :: nat where "hdr_overflow = 32"

definition eb_event_size :: nat where "eb_event_size = 96"
definition ev_seq :: nat where "ev_seq = 0"
definition ev_timestamp :: nat where "ev_timestamp = 8"
definition ev_kind :: nat where "ev_kind = 16"
definition ev_source :: nat where "ev_source = 20"
definition ev_payload_len :: nat where "ev_payload_len = 24"
definition ev_payload :: nat where "ev_payload = 28"

section \<open>Bytes\<close>

type_synonym bytes = "nat \<Rightarrow> u8"

definition ld :: "bytes \<Rightarrow> nat \<Rightarrow> nat \<Rightarrow> u8 list" where
  "ld m a n = map m [a..<a + n]"

definition st :: "bytes \<Rightarrow> nat \<Rightarrow> u8 list \<Rightarrow> bytes" where
  "st m a bs = (\<lambda>x. if a \<le> x \<and> x < a + length bs then bs ! (x - a) else m x)"

definition data_rd32 :: "u8 list \<Rightarrow> nat \<Rightarrow> u32" where "data_rd32 d off = le32 d off"

definition data_rd64 :: "u8 list \<Rightarrow> nat \<Rightarrow> u64" where
  "data_rd64 d off = ucast (data_rd32 d off) OR push_bit 32 (ucast (data_rd32 d (off + 4)))"

definition data_wr32 :: "u8 list \<Rightarrow> nat \<Rightarrow> u32 \<Rightarrow> u8 list" where "data_wr32 d off v = put_le32 off v d"

definition data_wr64 :: "u8 list \<Rightarrow> nat \<Rightarrow> u64 \<Rightarrow> u8 list" where
  "data_wr64 d off v = data_wr32 (data_wr32 d off (ucast (v AND 0xFFFFFFFF))) (off + 4) (ucast (drop_bit 32 v))"

definition ld16 :: "bytes \<Rightarrow> nat \<Rightarrow> u16" where
  "ld16 m a = ucast (m a) OR push_bit 8 (ucast (m (a + 1)))"

definition ld32 :: "bytes \<Rightarrow> nat \<Rightarrow> u32" where "ld32 m a = data_rd32 (ld m a 4) 0"
definition ld64 :: "bytes \<Rightarrow> nat \<Rightarrow> u64" where "ld64 m a = data_rd64 (ld m a 8) 0"
definition st32 :: "nat \<Rightarrow> u32 \<Rightarrow> bytes \<Rightarrow> bytes" where "st32 a v m = st m a (data_wr32 (replicate 4 0) 0 v)"
definition st64 :: "nat \<Rightarrow> u64 \<Rightarrow> bytes \<Rightarrow> bytes" where "st64 a v m = st m a (data_wr64 (replicate 8 0) 0 v)"

section \<open>State\<close>

record subscriber =
  sb_active :: bool
  sb_ntfn_cap :: u64
  sb_topic_mask :: u32
  sb_last_seq :: u64

record eb_state =
  eventbus_ring_vaddr :: u64
  subscribers :: "subscriber list"
  sub_count :: u32
  event_seq :: u64
  ring_initialized :: bool
  eb_mem :: bytes
  eb_signals :: "u64 list"
  eb_calls :: "(u64 \<times> sel4_msg) list"

section \<open>The ring\<close>

definition eventbus_init_ring :: "eb_state \<Rightarrow> eb_state" where
  "eventbus_init_ring s =
     s\<lparr>eb_mem := st32 hdr_overflow 0 (st64 hdr_tail 0 (st64 hdr_head 0
         (st64 hdr_capacity ((ucast EVENTBUS_BATCH_STAGING_OFFSET - of_nat eb_header_size) div of_nat eb_event_size)
         (st32 hdr_version 1 (st32 hdr_magic AGENTOS_RING_MAGIC (eb_mem s)))))),
       ring_initialized := True\<rparr>"

text \<open>The payload loop; the source is an offset, or none for a null pointer.\<close>

fun copy_payload :: "nat option \<Rightarrow> nat \<Rightarrow> nat \<Rightarrow> bytes \<Rightarrow> bytes" where
  "copy_payload src dst 0 m = m"
| "copy_payload src dst (Suc n) m =
     copy_payload (map_option Suc src) (Suc dst) n (m(dst := (case src of Some a \<Rightarrow> m a | None \<Rightarrow> 0)))"

definition event_slot :: "u64 \<Rightarrow> nat" where
  "event_slot i = eb_header_size + eb_event_size * unat i"

definition eventbus_write :: "u32 \<Rightarrow> u32 \<Rightarrow> nat option \<Rightarrow> u32 \<Rightarrow> eb_state \<Rightarrow> u32 \<times> eb_state" where
  "eventbus_write kind source_pd payload payload_len s =
     (if eventbus_ring_vaddr s = 0 \<or> \<not> ring_initialized s then (SEL4_ERR_BAD_ARG, s)
      else
        let m = eb_mem s; head = ld64 m hdr_head; next_head = (head + 1) mod ld64 m hdr_capacity in
        if next_head = ld64 m hdr_tail
        then (SEL4_ERR_NO_MEM, s\<lparr>eb_mem := st32 hdr_overflow (ld32 m hdr_overflow + 1) m\<rparr>)
        else
          let slot = event_slot head;
              len = (if payload_len < 64 then payload_len else 64);
              m1 = st64 (slot + ev_timestamp) 0 (st32 (slot + ev_payload_len) len (st32 (slot + ev_source) source_pd
                     (st32 (slot + ev_kind) kind (st64 (slot + ev_seq) (event_seq s) m))));
              m2 = copy_payload payload (slot + ev_payload) (unat len) m1 in
          (SEL4_ERR_OK, s\<lparr>eb_mem := st64 hdr_head next_head m2, event_seq := event_seq s + 1\<rparr>))"

definition eventbus_notify_all :: "eb_state \<Rightarrow> eb_state" where
  "eventbus_notify_all s =
     s\<lparr>eb_signals := eb_signals s @ map sb_ntfn_cap (filter (\<lambda>b. sb_active b \<and> sb_ntfn_cap b \<noteq> 0) (subscribers s))\<rparr>"

section \<open>Requests\<close>

type_synonym eb_out = "u32 \<times> sel4_msg \<times> eb_state"

definition rep_data :: "(u8 list \<Rightarrow> u8 list) \<Rightarrow> u32 \<Rightarrow> sel4_msg \<Rightarrow> sel4_msg" where
  "rep_data f len rep = rep\<lparr>ms_data := f (ms_data rep), ms_length := len\<rparr>"

definition handle_init :: "sel4_msg \<Rightarrow> eb_state \<Rightarrow> eb_out" where
  "handle_init rep s =
     (if eventbus_ring_vaddr s = 0 then (SEL4_ERR_BAD_ARG, rep\<lparr>ms_length := 0\<rparr>, s)
      else
        let s1 = snd (eventbus_write 0x0403 0 None 0 (eventbus_init_ring s)) in
        (SEL4_ERR_OK,
         rep_data (\<lambda>d. data_wr64 (data_wr32 d 0 MSG_EVENTBUS_READY) 4 (ld64 (eb_mem s1) hdr_capacity)) 12 rep, s1))"

definition handle_subscribe :: "sel4_msg \<Rightarrow> sel4_msg \<Rightarrow> eb_state \<Rightarrow> eb_out" where
  "handle_subscribe req rep s =
     (let ntfn_cap = data_rd64 (ms_data req) 0; topic_mask = data_rd32 (ms_data req) 8 in
      case find (\<lambda>i. \<not> sb_active (subscribers s ! i)) [0..<MAX_SUBSCRIBERS] of
        Some i \<Rightarrow>
          (SEL4_ERR_OK, rep_data (\<lambda>d. data_wr32 d 0 (of_nat i)) 4 rep,
           s\<lparr>subscribers := (subscribers s)[i := \<lparr>sb_active = True, sb_ntfn_cap = ntfn_cap, sb_topic_mask = topic_mask,
               sb_last_seq = event_seq s\<rparr>], sub_count := sub_count s + 1\<rparr>)
      | None \<Rightarrow> (SEL4_ERR_NO_MEM, rep_data (\<lambda>d. data_wr32 d 0 0xFFFFFFFF) 4 rep, s))"

definition handle_unsubscribe :: "sel4_msg \<Rightarrow> sel4_msg \<Rightarrow> eb_state \<Rightarrow> eb_out" where
  "handle_unsubscribe req rep s =
     (let handle = data_rd32 (ms_data req) 0; rep' = rep\<lparr>ms_length := 0\<rparr> in
      if unat handle < MAX_SUBSCRIBERS \<and> sb_active (subscribers s ! unat handle) then
        (SEL4_ERR_OK, rep',
         s\<lparr>subscribers := (subscribers s)[unat handle := (subscribers s ! unat handle)\<lparr>sb_active := False, sb_ntfn_cap := 0\<rparr>],
           sub_count := sub_count s - 1\<rparr>)
      else (SEL4_ERR_BAD_ARG, rep', s))"

definition handle_status :: "sel4_msg \<Rightarrow> eb_state \<Rightarrow> eb_out" where
  "handle_status rep s =
     (if eventbus_ring_vaddr s = 0 \<or> \<not> ring_initialized s then (SEL4_ERR_BAD_ARG, rep\<lparr>ms_length := 0\<rparr>, s)
      else let m = eb_mem s in
        (SEL4_ERR_OK,
         rep_data (\<lambda>d. data_wr32 (data_wr32 (data_wr64 (data_wr64 (data_wr64 d 0 (ld64 m hdr_head)) 8 (ld64 m hdr_tail))
           16 (ld64 m hdr_capacity)) 24 (ld32 m hdr_overflow)) 28 (sub_count s)) 32 rep, s))"

text \<open>One entry of a batch: two lengths, the topic, the payload, and padding to four bytes.\<close>

definition batch_topic_len :: "bytes \<Rightarrow> nat \<Rightarrow> u16" where "batch_topic_len m ptr = ld16 m ptr"
definition batch_payload_len :: "bytes \<Rightarrow> nat \<Rightarrow> u16" where "batch_payload_len m ptr = ld16 m (ptr + 2)"

definition batch_kind :: "bytes \<Rightarrow> nat \<Rightarrow> u32" where
  "batch_kind m ptr =
     (let tlen = (if batch_topic_len m ptr < 4 then unat (batch_topic_len m ptr) else 4) in
      fold (\<lambda>b kind. kind OR push_bit (b * 8) (ucast (m (ptr + 4 + b)))) [0..<tlen] 0)"

definition EB_BATCH_STRIDE :: "bytes \<Rightarrow> nat \<Rightarrow> u32" where
  "EB_BATCH_STRIDE m ptr = (4 + ucast (batch_topic_len m ptr) + ucast (batch_payload_len m ptr) + 3) AND NOT 3"

fun batch_loop :: "u32 \<Rightarrow> nat \<Rightarrow> nat \<Rightarrow> u32 \<Rightarrow> u32 \<Rightarrow> eb_state \<Rightarrow> (u32 \<times> u32) \<times> eb_state" where
  "batch_loop source 0 ptr dispatched dropped s = ((dispatched, dropped), s)"
| "batch_loop source (Suc n) ptr dispatched dropped s =
     (let m = eb_mem s in
      case eventbus_write (batch_kind m ptr) source (Some (ptr + 4 + unat (batch_topic_len m ptr)))
             (ucast (batch_payload_len m ptr)) s of (rc, s1) \<Rightarrow>
        let ptr' = ptr + unat (EB_BATCH_STRIDE (eb_mem s1) ptr) in
        if rc = SEL4_ERR_OK then batch_loop source n ptr' (dispatched + 1) dropped s1
        else batch_loop source n ptr' dispatched (dropped + 1) s1)"

definition handle_publish_batch :: "sel4_badge \<Rightarrow> sel4_msg \<Rightarrow> sel4_msg \<Rightarrow> eb_state \<Rightarrow> eb_out" where
  "handle_publish_batch badge req rep s =
     (let count = data_rd32 (ms_data req) 0; offset = data_rd32 (ms_data req) 4 in
      if count = 0 \<or> PUBLISH_BATCH_MAX < count \<or> EVENTBUS_RING_SIZE \<le> offset
      then (SEL4_ERR_BAD_ARG, rep_data (\<lambda>d. data_wr32 (data_wr32 d 0 0) 4 0) 8 rep, s)
      else case batch_loop (ucast badge) (unat count) (unat offset) 0 0 s of ((dispatched, dropped), s1) \<Rightarrow>
        (SEL4_ERR_OK, rep_data (\<lambda>d. data_wr32 (data_wr32 d 0 dispatched) 4 dropped) 8 rep,
         if 0 < dispatched then eventbus_notify_all s1 else s1))"

definition handle_publish :: "sel4_badge \<Rightarrow> sel4_msg \<Rightarrow> sel4_msg \<Rightarrow> eb_state \<Rightarrow> eb_out" where
  "handle_publish badge req rep s =
     (let source0 = data_rd32 (ms_data req) 0; source_pd = (if source0 = 0 then ucast badge else source0) in
      case eventbus_write (ms_opcode req) source_pd None 0 s of (rc, s1) \<Rightarrow>
        if rc = SEL4_ERR_OK then (SEL4_ERR_OK, rep\<lparr>ms_length := 0\<rparr>, eventbus_notify_all s1)
        else (SEL4_ERR_NO_MEM, rep\<lparr>ms_length := 0\<rparr>, s1))"

section \<open>Start-up and service loop\<close>

definition eb_register_msg :: sel4_msg where
  "eb_register_msg =
     \<lparr>ms_opcode = 0xD0, ms_length = 48,
      ms_data = [0, 0, 0, 0, 1, 0, 0, 0, 0, 0, 0, 0, 1, 0, 0, 0] @ map of_char ''event_bus'' @ replicate 23 0\<rparr>"

definition register_with_nameserver :: "u64 \<Rightarrow> eb_state \<Rightarrow> eb_state" where
  "register_with_nameserver ns_ep s =
     (if ns_ep = 0 then s else s\<lparr>eb_calls := eb_calls s @ [(ns_ep, eb_register_msg)]\<rparr>)"

definition event_bus_init :: "eb_state \<Rightarrow> eb_state" where
  "event_bus_init s =
     (let s1 = s\<lparr>sub_count := 0, event_seq := 0, ring_initialized := False,
          subscribers := map (\<lambda>b. b\<lparr>sb_active := False, sb_ntfn_cap := 0\<rparr>) (subscribers s),
          eventbus_ring_vaddr := (if eventbus_ring_vaddr s = 0 then EVENTBUS_RING_VA else eventbus_ring_vaddr s)\<rparr> in
      if eventbus_ring_vaddr s1 \<noteq> 0 then eventbus_init_ring s1 else s1)"

definition eb_handlers :: "(u32 \<times> eb_state handler) list" where
  "eb_handlers =
    [(MSG_EVENTBUS_INIT, \<lambda>r badge req. handle_init), (MSG_EVENTBUS_SUBSCRIBE, \<lambda>r badge. handle_subscribe),
     (MSG_EVENTBUS_UNSUBSCRIBE, \<lambda>r badge. handle_unsubscribe), (MSG_EVENTBUS_STATUS, \<lambda>r badge req. handle_status),
     (OP_PUBLISH_BATCH, \<lambda>r. handle_publish_batch), (MSG_EVENTBUS_PUBLISH, \<lambda>r. handle_publish)]"

definition eb_srv :: "u64 \<Rightarrow> eb_state sel4_server" where
  "eb_srv my_ep =
     fold (\<lambda>(opcode, fn) srv. snd (sel4_server_register opcode fn srv)) eb_handlers (sel4_server_init my_ep)"

text \<open>
  The loop of \<open>sel4_server_run\<close>; before each request is taken the other domains write the shared region.
  A result is the list of the replies, as the messages the loop hands to the message registers.
\<close>

fun eb_passes :: "u64 \<Rightarrow> ((bytes \<Rightarrow> bytes) \<times> sel4_badge \<times> mrs) list \<Rightarrow> sel4_msg \<times> eb_state \<Rightarrow> sel4_msg list \<times> eb_state" where
  "eb_passes my_ep [] (rep, s) = ([], s)"
| "eb_passes my_ep ((w, inp) # inps) (rep, s) =
     (case server_pass (eb_srv my_ep) inp (rep, s\<lparr>eb_mem := w (eb_mem s)\<rparr>) of (rep', s') \<Rightarrow>
        case eb_passes my_ep inps (rep', s') of (reps, s'') \<Rightarrow> (rep' # reps, s''))"

definition event_bus_main :: "u64 \<Rightarrow> u64 \<Rightarrow> ((bytes \<Rightarrow> bytes) \<times> sel4_badge \<times> mrs) list \<Rightarrow> eb_state \<Rightarrow> sel4_msg list \<times> eb_state" where
  "event_bus_main my_ep ns_ep inps s =
     eb_passes my_ep inps (empty_msg, register_with_nameserver ns_ep (event_bus_init s))"

end
