(* ===== verification/EventBusLog.thy ===== *)
theory EventBusLog
  imports EventBus
begin

text \<open>
  What the event bus promises: an abstract bus that keeps the log of accepted events, and the proof that
  the service loop implements it.  The ring holds the last events of the log, each in the slot given by its
  position modulo the capacity.  Other domains may move the tail and write the batch staging area.
\<close>

unbundle bit_operations_syntax

section \<open>Reading back bytes\<close>

lemma length_ld [simp]: "length (ld m a n) = n"
  by (simp add: ld_def)

lemma ld_cong: "(\<And>x. a \<le> x \<Longrightarrow> x < a + n \<Longrightarrow> m x = m' x) \<Longrightarrow> ld m a n = ld m' a n"
  by (simp add: ld_def)

lemma ld_st_same: "length bs = n \<Longrightarrow> ld (st m a bs) a n = bs"
  by (rule nth_equalityI) (auto simp: ld_def st_def)

lemma st_outside: "x < a \<or> a + length bs \<le> x \<Longrightarrow> st m a bs x = m x"
  by (auto simp: st_def)

lemma length_data_wr [simp]: "length (data_wr32 d off v) = length d" "length (data_wr64 d off w) = length d"
  by (simp_all add: data_wr32_def data_wr64_def)

lemma word64_halves:
  "(ucast (ucast (v AND 0xFFFFFFFF) :: u32) OR push_bit 32 (ucast (ucast (drop_bit 32 v) :: u32)) :: u64) = v"
proof -
  have m: "(0xFFFFFFFF :: u64) = mask 32" by (simp add: mask_eq_exp_minus_1)
  show ?thesis
    unfolding m by (rule bit_word_eqI) (auto simp: bit_simps)
qed

lemma data_rd64_wr64: "off + 8 \<le> length d \<Longrightarrow> data_rd64 (data_wr64 d off v) off = v"
  by (simp add: data_rd64_def data_wr64_def data_rd32_def data_wr32_def word64_halves)

lemma ld_st_fields [simp]: "ld32 (st32 a v m) a = v" "ld64 (st64 a w m) a = w"
  by (simp_all add: ld32_def st32_def ld64_def st64_def ld_st_same data_rd64_wr64 data_rd32_def data_wr32_def)

lemma st_outside_field:
  "x < a \<or> a + 4 \<le> x \<Longrightarrow> st32 a v m x = m x" "x < a \<or> a + 8 \<le> x \<Longrightarrow> st64 a w m x = m x"
  by (simp_all add: st32_def st64_def st_outside)

lemma field_cong:
  "(\<And>x. a \<le> x \<Longrightarrow> x < a + 4 \<Longrightarrow> m x = m' x) \<Longrightarrow> ld32 m a = ld32 m' a"
  "(\<And>x. a \<le> x \<Longrightarrow> x < a + 8 \<Longrightarrow> m x = m' x) \<Longrightarrow> ld64 m a = ld64 m' a"
  by (simp_all add: ld32_def ld64_def cong: ld_cong)

lemma ld_st_other [simp]:
  "a + 4 \<le> b \<or> b + 4 \<le> a \<Longrightarrow> ld32 (st32 a v m) b = ld32 m b"
  "a + 8 \<le> b \<or> b + 4 \<le> a \<Longrightarrow> ld32 (st64 a w m) b = ld32 m b"
  "a + 4 \<le> b \<or> b + 8 \<le> a \<Longrightarrow> ld64 (st32 a v m) b = ld64 m b"
  "a + 8 \<le> b \<or> b + 8 \<le> a \<Longrightarrow> ld64 (st64 a w m) b = ld64 m b"
  by (rule field_cong; auto simp: st_outside_field)+

lemma copy_payload_outside: "x < dst \<or> dst + n \<le> x \<Longrightarrow> copy_payload src dst n m x = m x"
  by (induction src dst n m rule: copy_payload.induct) auto

lemma copy_payload_bytes:
  "a + n \<le> dst \<or> dst + n \<le> a \<Longrightarrow> ld (copy_payload (Some a) dst n m) dst n = ld m a n"
proof (induction n arbitrary: a dst m)
  case (Suc n)
  let ?m = "m(dst := m a)"
  have "ld (copy_payload (Some (Suc a)) (Suc dst) n ?m) (Suc dst) n = ld ?m (Suc a) n"
    using Suc.prems by (intro Suc.IH) auto
  also have "\<dots> = ld m (Suc a) n" using Suc.prems by (intro ld_cong) auto
  finally show ?case
    by (simp add: ld_def upt_conv_Cons copy_payload_outside del: upt_Suc)
qed (simp add: ld_def)

section \<open>The abstract bus\<close>

record bus_event =
  be_seq :: u64
  be_kind :: u32
  be_source :: u32
  be_payload :: "u8 list"

record bus =
  bs_log :: "bus_event list"
  bs_seq :: u64
  bs_dropped :: u32
  bs_subs :: "(u64 \<times> u32) option list"
  bs_signals :: "u64 list"

datatype bus_request =
    BInit | BSubscribe u64 u32 | BUnsubscribe u32 | BStatus | BPublish u32 u32
  | BBatch u32 "(u32 \<times> u8 list) list" | BBadBatch | BUnknown

definition ring_cap :: nat where "ring_cap = 2721"

text \<open>An event is refused exactly when its successor's slot is where the readers stand.\<close>

definition bus_publish :: "u64 \<Rightarrow> u32 \<Rightarrow> u32 \<Rightarrow> u8 list \<Rightarrow> bus \<Rightarrow> bool \<times> bus" where
  "bus_publish tail kind source p b =
     (if (length (bs_log b) + 1) mod ring_cap = unat tail then (False, b\<lparr>bs_dropped := bs_dropped b + 1\<rparr>)
      else (True, b\<lparr>bs_log := bs_log b @ [\<lparr>be_seq = bs_seq b, be_kind = kind, be_source = source, be_payload = p\<rparr>],
                   bs_seq := bs_seq b + 1\<rparr>))"

fun bus_batch :: "u64 \<Rightarrow> u32 \<Rightarrow> (u32 \<times> u8 list) list \<Rightarrow> u32 \<Rightarrow> u32 \<Rightarrow> bus \<Rightarrow> (u32 \<times> u32) \<times> bus" where
  "bus_batch tail source [] i j b = ((i, j), b)"
| "bus_batch tail source ((kind, p) # es) i j b =
     (case bus_publish tail kind source p b of (ok, b') \<Rightarrow>
        if ok then bus_batch tail source es (i + 1) j b' else bus_batch tail source es i (j + 1) b')"

definition bus_notify :: "bus \<Rightarrow> bus" where
  "bus_notify b =
     b\<lparr>bs_signals := bs_signals b @ filter (\<lambda>c. c \<noteq> 0) (map (\<lambda>x. fst (the x)) (filter (\<lambda>x. x \<noteq> None) (bs_subs b)))\<rparr>"

definition subs_live :: "(u64 \<times> u32) option list \<Rightarrow> nat" where
  "subs_live xs = length (filter (\<lambda>x. x \<noteq> None) xs)"

definition words64 :: "u64 \<Rightarrow> u32 list" where
  "words64 v = [ucast (v AND 0xFFFFFFFF), ucast (drop_bit 32 v)]"

definition bus_step :: "u64 \<Rightarrow> bus_request \<Rightarrow> bus \<Rightarrow> (u32 \<times> u32 list) \<times> bus" where
  "bus_step tail r b =
     (case r of
        BInit \<Rightarrow> ((SEL4_ERR_OK, MSG_EVENTBUS_READY # words64 (of_nat ring_cap)),
                  snd (bus_publish 0 0x0403 0 [] (b\<lparr>bs_log := [], bs_dropped := 0\<rparr>)))
      | BSubscribe c k \<Rightarrow>
          (case find (\<lambda>i. bs_subs b ! i = None) [0..<MAX_SUBSCRIBERS] of
             Some i \<Rightarrow> ((SEL4_ERR_OK, [of_nat i]), b\<lparr>bs_subs := (bs_subs b)[i := Some (c, k)]\<rparr>)
           | None \<Rightarrow> ((SEL4_ERR_NO_MEM, [0xFFFFFFFF]), b))
      | BUnsubscribe h \<Rightarrow>
          (if unat h < MAX_SUBSCRIBERS \<and> bs_subs b ! unat h \<noteq> None
           then ((SEL4_ERR_OK, []), b\<lparr>bs_subs := (bs_subs b)[unat h := None]\<rparr>)
           else ((SEL4_ERR_BAD_ARG, []), b))
      | BStatus \<Rightarrow>
          ((SEL4_ERR_OK, words64 (of_nat (length (bs_log b) mod ring_cap)) @ words64 tail @ words64 (of_nat ring_cap) @
             [bs_dropped b, of_nat (subs_live (bs_subs b))]), b)
      | BPublish kind source \<Rightarrow>
          (case bus_publish tail kind source [] b of (ok, b') \<Rightarrow>
             if ok then ((SEL4_ERR_OK, []), bus_notify b') else ((SEL4_ERR_NO_MEM, []), b'))
      | BBatch source es \<Rightarrow>
          (case bus_batch tail source es 0 0 b of ((i, j), b') \<Rightarrow>
             ((SEL4_ERR_OK, [i, j]), if 0 < i then bus_notify b' else b'))
      | BBadBatch \<Rightarrow> ((SEL4_ERR_BAD_ARG, [0, 0]), b)
      | BUnknown \<Rightarrow> ((SEL4_ERR_INVALID_OP, []), b))"

fun bus_run :: "(u64 \<times> bus_request) list \<Rightarrow> bus \<Rightarrow> (u32 \<times> u32 list) list \<times> bus" where
  "bus_run [] b = ([], b)"
| "bus_run ((tail, r) # rs) b =
     (case bus_step tail r b of (out, b') \<Rightarrow> case bus_run rs b' of (outs, b'') \<Rightarrow> (out # outs, b''))"

section \<open>From memory and messages to the abstract bus\<close>

definition slot_event :: "bytes \<Rightarrow> nat \<Rightarrow> bus_event" where
  "slot_event m i =
     (let a = eb_header_size + eb_event_size * i in
      \<lparr>be_seq = ld64 m (a + ev_seq), be_kind = ld32 m (a + ev_kind), be_source = ld32 m (a + ev_source),
       be_payload = ld m (a + ev_payload) (min 64 (unat (ld32 m (a + ev_payload_len))))\<rparr>)"

definition sub_view :: "subscriber \<Rightarrow> (u64 \<times> u32) option" where
  "sub_view x = (if sb_active x then Some (sb_ntfn_cap x, sb_topic_mask x) else None)"

definition ring_rel :: "bytes \<Rightarrow> bus \<Rightarrow> bool" where
  "ring_rel m b \<longleftrightarrow>
     ld64 m hdr_capacity = of_nat ring_cap \<and> unat (ld64 m hdr_head) = length (bs_log b) mod ring_cap \<and>
     ld32 m hdr_overflow = bs_dropped b \<and>
     (\<forall>n < length (bs_log b). length (bs_log b) \<le> n + ring_cap \<longrightarrow> slot_event m (n mod ring_cap) = bs_log b ! n)"

definition eb_rel :: "eb_state \<Rightarrow> bus \<Rightarrow> bool" where
  "eb_rel s b \<longleftrightarrow>
     eventbus_ring_vaddr s \<noteq> 0 \<and> ring_initialized s \<and> ring_rel (eb_mem s) b \<and> event_seq s = bs_seq b \<and>
     length (subscribers s) = MAX_SUBSCRIBERS \<and> bs_subs b = map sub_view (subscribers s) \<and>
     sub_count s = of_nat (subs_live (bs_subs b)) \<and> eb_signals s = bs_signals b"

fun batch_entries :: "bytes \<Rightarrow> nat \<Rightarrow> nat \<Rightarrow> (u32 \<times> u8 list) list" where
  "batch_entries m ptr 0 = []"
| "batch_entries m ptr (Suc n) =
     (batch_kind m ptr, ld m (ptr + 4 + unat (batch_topic_len m ptr)) (min 64 (unat (batch_payload_len m ptr)))) #
     batch_entries m (ptr + unat (EB_BATCH_STRIDE m ptr)) n"

fun batch_inside :: "bytes \<Rightarrow> nat \<Rightarrow> nat \<Rightarrow> bool" where
  "batch_inside m ptr 0 = True"
| "batch_inside m ptr (Suc n) \<longleftrightarrow>
     unat EVENTBUS_BATCH_STAGING_OFFSET \<le> ptr \<and>
     ptr + 4 + unat (batch_topic_len m ptr) + unat (batch_payload_len m ptr) \<le> unat EVENTBUS_RING_SIZE \<and>
     batch_inside m (ptr + unat (EB_BATCH_STRIDE m ptr)) n"

definition batch_refused :: "sel4_msg \<Rightarrow> bool" where
  "batch_refused req \<longleftrightarrow> data_rd32 (ms_data req) 0 = 0 \<or> PUBLISH_BATCH_MAX < data_rd32 (ms_data req) 0 \<or>
     EVENTBUS_RING_SIZE \<le> data_rd32 (ms_data req) 4"

definition decode_request :: "bytes \<Rightarrow> sel4_badge \<Rightarrow> sel4_msg \<Rightarrow> bus_request" where
  "decode_request m badge req =
     (let d = ms_data req in
      if ms_opcode req = MSG_EVENTBUS_INIT then BInit
      else if ms_opcode req = MSG_EVENTBUS_SUBSCRIBE then BSubscribe (data_rd64 d 0) (data_rd32 d 8)
      else if ms_opcode req = MSG_EVENTBUS_UNSUBSCRIBE then BUnsubscribe (data_rd32 d 0)
      else if ms_opcode req = MSG_EVENTBUS_STATUS then BStatus
      else if ms_opcode req = OP_PUBLISH_BATCH then
        (if batch_refused req then BBadBatch
         else BBatch (ucast badge) (batch_entries m (unat (data_rd32 d 4)) (unat (data_rd32 d 0))))
      else if ms_opcode req = MSG_EVENTBUS_PUBLISH then
        BPublish MSG_EVENTBUS_PUBLISH (if data_rd32 d 0 = 0 then ucast badge else data_rd32 d 0)
      else BUnknown)"

text \<open>
  The discipline of the other domains: they write the tail, the staging area and memory outside the
  region only, and the entries of a batch lie in the staging area.
\<close>

definition polite_write :: "bytes \<Rightarrow> bytes \<Rightarrow> bool" where
  "polite_write m m' \<longleftrightarrow>
     (\<forall>x. x < hdr_tail \<or> hdr_overflow \<le> x \<and> x < unat EVENTBUS_BATCH_STAGING_OFFSET \<longrightarrow> m' x = m x)"

definition polite_request :: "bytes \<Rightarrow> sel4_msg \<Rightarrow> bool" where
  "polite_request m req \<longleftrightarrow> (ms_opcode req = OP_PUBLISH_BATCH \<and> \<not> batch_refused req \<longrightarrow>
     batch_inside m (unat (data_rd32 (ms_data req) 4)) (unat (data_rd32 (ms_data req) 0)))"

fun eb_polite :: "u64 \<Rightarrow> ((bytes \<Rightarrow> bytes) \<times> sel4_badge \<times> mrs) list \<Rightarrow> sel4_msg \<times> eb_state \<Rightarrow> bool" where
  "eb_polite my_ep [] rs = True"
| "eb_polite my_ep ((w, inp) # inps) (rep, s) \<longleftrightarrow>
     polite_write (eb_mem s) (w (eb_mem s)) \<and> polite_request (w (eb_mem s)) (sel4_mrs_to_msg (snd inp)) \<and>
     eb_polite my_ep inps (server_pass (eb_srv my_ep) inp (rep, s\<lparr>eb_mem := w (eb_mem s)\<rparr>))"

fun eb_requests :: "u64 \<Rightarrow> ((bytes \<Rightarrow> bytes) \<times> sel4_badge \<times> mrs) list \<Rightarrow> sel4_msg \<times> eb_state \<Rightarrow> (u64 \<times> bus_request) list" where
  "eb_requests my_ep [] rs = []"
| "eb_requests my_ep ((w, inp) # inps) (rep, s) =
     (ld64 (w (eb_mem s)) hdr_tail, decode_request (w (eb_mem s)) (fst inp) (sel4_mrs_to_msg (snd inp))) #
     eb_requests my_ep inps (server_pass (eb_srv my_ep) inp (rep, s\<lparr>eb_mem := w (eb_mem s)\<rparr>))"

definition empty_bus :: bus where
  "empty_bus = \<lparr>bs_log = [], bs_seq = 0, bs_dropped = 0, bs_subs = replicate MAX_SUBSCRIBERS None, bs_signals = []\<rparr>"

section \<open>Writing an event\<close>

lemmas eb_layout = eb_header_size_def eb_event_size_def hdr_magic_def hdr_version_def hdr_capacity_def hdr_head_def
  hdr_tail_def hdr_overflow_def ev_seq_def ev_timestamp_def ev_kind_def ev_source_def ev_payload_len_def ev_payload_def

lemma staging_offset [simp]: "unat EVENTBUS_BATCH_STAGING_OFFSET = 261376"
  by (simp add: EVENTBUS_BATCH_STAGING_OFFSET_def EVENTBUS_RING_SIZE_def EVENTBUS_BATCH_STAGING_SIZE_def)

lemma ring_capacity [simp]:
  "(ucast EVENTBUS_BATCH_STAGING_OFFSET - of_nat eb_header_size) div of_nat eb_event_size = (of_nat ring_cap :: u64)"
  by (simp add: EVENTBUS_BATCH_STAGING_OFFSET_def EVENTBUS_RING_SIZE_def EVENTBUS_BATCH_STAGING_SIZE_def
      eb_header_size_def eb_event_size_def ring_cap_def)

lemma slot_event_cong:
  assumes "\<And>x. 72 + 96 * i \<le> x \<Longrightarrow> x < 72 + 96 * i + 92 \<Longrightarrow> m x = m' x"
  shows "slot_event m i = slot_event m' i"
proof -
  have f: "ld64 m (72 + 96 * i) = ld64 m' (72 + 96 * i)" "ld32 m (88 + 96 * i) = ld32 m' (88 + 96 * i)"
    "ld32 m (92 + 96 * i) = ld32 m' (92 + 96 * i)" "ld32 m (96 + 96 * i) = ld32 m' (96 + 96 * i)"
    by (rule field_cong; use assms in auto)+
  have "ld m (100 + 96 * i) (min 64 k) = ld m' (100 + 96 * i) (min 64 k)" for k
    by (rule ld_cong) (use assms in auto)
  with f show ?thesis by (simp add: slot_event_def eb_layout Let_def add.assoc)
qed

lemma next_head:
  assumes "unat (h :: u64) < ring_cap" shows "unat ((h + 1) mod of_nat ring_cap) = (unat h + 1) mod ring_cap"
  using assms by (simp add: unat_mod ring_cap_def unat_word_ariths)

text \<open>The bytes of a slot after the event is written, before the head moves.\<close>

definition put_event :: "nat \<Rightarrow> u64 \<Rightarrow> u32 \<Rightarrow> u32 \<Rightarrow> nat option \<Rightarrow> u32 \<Rightarrow> bytes \<Rightarrow> bytes" where
  "put_event a seq kind source payload len m =
     copy_payload payload (a + ev_payload) (unat len) (st64 (a + ev_timestamp) 0 (st32 (a + ev_payload_len) len
       (st32 (a + ev_source) source (st32 (a + ev_kind) kind (st64 (a + ev_seq) seq m)))))"

definition payload_bytes :: "bytes \<Rightarrow> nat option \<Rightarrow> nat \<Rightarrow> u8 list" where
  "payload_bytes m payload n = (case payload of None \<Rightarrow> [] | Some a \<Rightarrow> ld m a n)"

lemma put_event_outside:
  assumes "x < a \<or> a + 92 \<le> x" "len \<le> 64"
  shows "put_event a seq kind source payload len m x = m x"
proof -
  have "unat len \<le> 64" using assms(2) by (simp add: word_le_nat_alt)
  with assms(1) have "x < a + 28 \<or> a + 28 + unat len \<le> x" by linarith
  with assms(1) show ?thesis
    by (auto simp: put_event_def eb_layout copy_payload_outside st_outside_field)
qed

lemma put_event_slot:
  assumes "len \<le> 64" "payload = None \<longrightarrow> len = 0" "\<And>a. payload = Some a \<Longrightarrow> 72 + 96 * i + 92 \<le> a"
  shows "slot_event (put_event (72 + 96 * i) seq kind source payload len m) i =
    \<lparr>be_seq = seq, be_kind = kind, be_source = source, be_payload = payload_bytes m payload (unat len)\<rparr>"
proof -
  let ?a = "72 + 96 * i"
  let ?m1 = "st64 (?a + 8) 0 (st32 (?a + 24) len (st32 (?a + 20) source (st32 (?a + 16) kind (st64 ?a seq m))))"
  let ?m = "copy_payload payload (?a + 28) (unat len) ?m1"
  have len: "unat len \<le> 64" using assms(1) by (simp add: word_le_nat_alt)
  have f: "ld64 ?m ?a = ld64 ?m1 ?a" "ld32 ?m (?a + 16) = ld32 ?m1 (?a + 16)" "ld32 ?m (?a + 20) = ld32 ?m1 (?a + 20)"
    "ld32 ?m (?a + 24) = ld32 ?m1 (?a + 24)"
    by (rule field_cong; simp add: copy_payload_outside)+
  have "ld ?m (?a + 28) (unat len) = payload_bytes m payload (unat len)"
  proof (cases payload)
    case None
    then show ?thesis using assms(2) by (simp add: payload_bytes_def ld_def)
  next
    case (Some c)
    then have c: "?a + 92 \<le> c" using assms(3) by simp
    then have "ld ?m (?a + 28) (unat len) = ld ?m1 c (unat len)"
      using len Some by (simp add: copy_payload_bytes)
    also have "\<dots> = ld m c (unat len)"
      by (rule ld_cong) (use c in \<open>simp add: st_outside_field\<close>)
    finally show ?thesis using Some by (simp add: payload_bytes_def)
  qed
  then show ?thesis
    using f len by (simp add: slot_event_def put_event_def eb_layout Let_def min_absorb2)
qed

lemma eventbus_write_eq:
  assumes "eb_rel s b"
  shows "eventbus_write kind source payload plen s =
    (let m = eb_mem s; h = ld64 m hdr_head; nh = (h + 1) mod of_nat ring_cap; len = min plen 64 in
     if nh = ld64 m hdr_tail then (SEL4_ERR_NO_MEM, s\<lparr>eb_mem := st32 hdr_overflow (ld32 m hdr_overflow + 1) m\<rparr>)
     else (SEL4_ERR_OK, s\<lparr>eb_mem := st64 hdr_head nh (put_event (72 + 96 * unat h) (event_seq s) kind source payload len m),
       event_seq := event_seq s + 1\<rparr>))"
proof -
  have "(if plen < 64 then plen else 64) = min plen 64" by (auto simp: min_def)
  then show ?thesis
    using assms by (simp add: eventbus_write_def eb_rel_def ring_rel_def Let_def put_event_def event_slot_def
      eb_header_size_def eb_event_size_def)
qed

text \<open>The head slot is the one of the oldest event, so only an event that leaves the window is overwritten.\<close>

lemma slot_mod_neq:
  assumes "n < l" "l < n + ring_cap" shows "n mod ring_cap \<noteq> l mod ring_cap"
proof
  assume "n mod ring_cap = l mod ring_cap"
  then have "ring_cap dvd l - n" using assms(1) mod_eq_dvd_iff_nat [of n l ring_cap] by simp
  then show False using assms by (auto dest!: dvd_imp_le)
qed

lemma ring_rel_append:
  assumes rel: "ring_rel m b" and h: "h = length (bs_log b) mod ring_cap"
    and e: "slot_event m' h = e" and nh: "unat nh = (length (bs_log b) + 1) mod ring_cap"
    and out: "\<And>x. x < 72 + 96 * h \<or> 72 + 96 * h + 92 \<le> x \<Longrightarrow> m' x = m x"
  shows "ring_rel (st64 hdr_head nh m') (b\<lparr>bs_log := bs_log b @ [e], bs_seq := q\<rparr>)"
proof -
  let ?l = "length (bs_log b)"
  have hdr: "ld64 m' 8 = ld64 m 8" "ld32 m' 32 = ld32 m 32" by (rule field_cong; simp add: out)+
  have keep: "slot_event (st64 16 nh m') i = slot_event m' i" for i
    by (rule slot_event_cong) (simp add: st_outside_field)
  have old: "slot_event m' (n mod ring_cap) = bs_log b ! n" if n: "n < ?l" "?l + 1 \<le> n + ring_cap" for n
  proof -
    have "n mod ring_cap \<noteq> h" using slot_mod_neq [of n ?l] n h by simp
    then have "slot_event m' (n mod ring_cap) = slot_event m (n mod ring_cap)"
      by (intro slot_event_cong out) linarith
    then show ?thesis using rel n by (simp add: ring_rel_def)
  qed
  show ?thesis
    using rel nh hdr old e h
    by (auto simp: ring_rel_def hdr_head_def hdr_capacity_def hdr_overflow_def keep nth_append less_Suc_eq)
qed

lemma ring_cap_pos [simp]: "0 < ring_cap" "Suc 0 \<le> ring_cap"
  by (simp_all add: ring_cap_def)

lemma head_facts:
  assumes "eb_rel s b"
  defines "h \<equiv> ld64 (eb_mem s) hdr_head"
  shows "unat h = length (bs_log b) mod ring_cap" "72 + 96 * unat h + 92 \<le> 261376"
    "unat ((h + 1) mod of_nat ring_cap) = (length (bs_log b) + 1) mod ring_cap"
proof -
  show h: "unat h = length (bs_log b) mod ring_cap" using assms by (auto simp: eb_rel_def ring_rel_def)
  then have hlt: "unat h < ring_cap" by simp
  then show "72 + 96 * unat h + 92 \<le> 261376" by (simp add: ring_cap_def)
  show "unat ((h + 1) mod of_nat ring_cap) = (length (bs_log b) + 1) mod ring_cap"
    using next_head [OF hlt] h by (simp add: mod_Suc_eq)
qed

lemma overflow_rel:
  assumes "eb_rel s b"
  shows "eb_rel (s\<lparr>eb_mem := st32 hdr_overflow (ld32 (eb_mem s) hdr_overflow + 1) (eb_mem s)\<rparr>)
    (b\<lparr>bs_dropped := bs_dropped b + 1\<rparr>)"
proof -
  have "slot_event (st32 32 v m) i = slot_event m i" for v i m
    by (rule slot_event_cong) (simp add: st_outside_field)
  then show ?thesis
    using assms by (simp add: eb_rel_def ring_rel_def hdr_overflow_def hdr_head_def hdr_capacity_def)
qed

lemma append_rel:
  fixes kind source :: u32
  assumes rel: "eb_rel s b" and src: "payload = None \<longrightarrow> plen = 0" "\<And>a. payload = Some a \<Longrightarrow> 261376 \<le> a"
  defines "h \<equiv> ld64 (eb_mem s) hdr_head"
  defines "pe \<equiv> put_event (72 + 96 * unat h) (event_seq s) kind source payload (min plen 64) (eb_mem s)"
  shows "eb_rel (s\<lparr>eb_mem := st64 hdr_head ((h + 1) mod of_nat ring_cap) pe, event_seq := event_seq s + 1\<rparr>)
    (b\<lparr>bs_log := bs_log b @ [\<lparr>be_seq = bs_seq b, be_kind = kind, be_source = source,
         be_payload = payload_bytes (eb_mem s) payload (min 64 (unat plen))\<rparr>], bs_seq := bs_seq b + 1\<rparr>)"
proof -
  note hf = head_facts [OF rel, folded h_def]
  have len: "min plen 64 \<le> 64" "unat (min plen 64) = min 64 (unat plen)" by (auto simp: min_def word_le_nat_alt)
  have e: "slot_event pe (unat h) = \<lparr>be_seq = bs_seq b, be_kind = kind, be_source = source,
      be_payload = payload_bytes (eb_mem s) payload (min 64 (unat plen))\<rparr>"
    unfolding pe_def using rel src hf(2) len
    by (subst put_event_slot) (auto simp: eb_rel_def min_def dest!: src(2))
  have "ring_rel (eb_mem s) b" using rel by (simp add: eb_rel_def)
  from ring_rel_append [OF this hf(1) e hf(3)] show ?thesis
    using rel put_event_outside [OF _ len(1)] by (simp add: eb_rel_def pe_def)
qed

lemma eventbus_write_spec:
  assumes rel: "eb_rel s b" and src: "payload = None \<longrightarrow> plen = 0" "\<And>a. payload = Some a \<Longrightarrow> 261376 \<le> a"
    and pub: "bus_publish (ld64 (eb_mem s) hdr_tail) kind source (payload_bytes (eb_mem s) payload (min 64 (unat plen))) b = (ok, b')"
  obtains s' where "eventbus_write kind source payload plen s = (if ok then SEL4_ERR_OK else SEL4_ERR_NO_MEM, s')"
    "eb_rel s' b'" "\<And>x. 24 \<le> x \<and> x < 32 \<or> 261376 \<le> x \<Longrightarrow> eb_mem s' x = eb_mem s x"
proof -
  let ?h = "ld64 (eb_mem s) hdr_head"
  let ?nh = "(?h + 1) mod of_nat ring_cap :: u64"
  note hf = head_facts [OF rel]
  show thesis
  proof (cases "?nh = ld64 (eb_mem s) hdr_tail")
    case True
    then have "\<not> ok" "b' = b\<lparr>bs_dropped := bs_dropped b + 1\<rparr>"
      using pub hf(3) by (auto simp: bus_publish_def)
    then show thesis
      using True overflow_rel [OF rel]
      by (intro that [where s' = "s\<lparr>eb_mem := st32 hdr_overflow (ld32 (eb_mem s) hdr_overflow + 1) (eb_mem s)\<rparr>"])
        (auto simp: eventbus_write_eq [OF rel] Let_def hdr_overflow_def st_outside_field)
  next
    case False
    let ?pe = "put_event (72 + 96 * unat ?h) (event_seq s) kind source payload (min plen 64) (eb_mem s)"
    let ?s = "s\<lparr>eb_mem := st64 hdr_head ?nh ?pe, event_seq := event_seq s + 1\<rparr>"
    have "unat ?nh \<noteq> unat (ld64 (eb_mem s) hdr_tail)" using False by (simp add: word_unat_eq_iff)
    then have "ok" and b': "eb_rel ?s b'"
      using pub hf(3) append_rel [OF rel src, of kind source] by (auto simp: bus_publish_def)
    moreover have "eb_mem ?s x = eb_mem s x" if "24 \<le> x \<and> x < 32 \<or> 261376 \<le> x" for x
      using that hf(2) by (auto simp: hdr_head_def st_outside_field put_event_outside)
    ultimately show thesis
      using False by (intro that [where s' = ?s]) (simp_all add: eventbus_write_eq [OF rel] Let_def)
  qed
qed

section \<open>Batches\<close>

lemma entry_cong:
  assumes "\<And>x. ptr \<le> x \<Longrightarrow> m x = m' x"
  shows "batch_topic_len m ptr = batch_topic_len m' ptr" "batch_payload_len m ptr = batch_payload_len m' ptr"
    "batch_kind m ptr = batch_kind m' ptr" "EB_BATCH_STRIDE m ptr = EB_BATCH_STRIDE m' ptr"
    "ld m (ptr + k) n = ld m' (ptr + k) n"
proof -
  show t: "batch_topic_len m ptr = batch_topic_len m' ptr" and p: "batch_payload_len m ptr = batch_payload_len m' ptr"
    by (simp_all add: batch_topic_len_def batch_payload_len_def ld16_def assms)
  show "batch_kind m ptr = batch_kind m' ptr"
    by (simp add: batch_kind_def t assms Let_def add.assoc)
  show "EB_BATCH_STRIDE m ptr = EB_BATCH_STRIDE m' ptr" by (simp add: EB_BATCH_STRIDE_def t p)
  show "ld m (ptr + k) n = ld m' (ptr + k) n" by (rule ld_cong) (simp add: assms)
qed

lemma batch_cong:
  assumes "\<And>x. 261376 \<le> x \<Longrightarrow> m x = m' x" "batch_inside m ptr n"
  shows "batch_entries m ptr n = batch_entries m' ptr n \<and> batch_inside m' ptr n"
  using assms(2)
proof (induction n arbitrary: ptr)
  case (Suc n)
  then have "261376 \<le> ptr" by simp
  with assms(1) have eq: "m x = m' x" if "ptr \<le> x" for x using that by simp
  note ec = entry_cong [of ptr m m', OF eq]
  show ?case
    using Suc.IH Suc.prems by (simp add: ec add.assoc)
qed simp

lemma batch_loop_spec:
  assumes "eb_rel s b" "batch_inside (eb_mem s) ptr n"
    "bus_batch (ld64 (eb_mem s) hdr_tail) source (batch_entries (eb_mem s) ptr n) i j b = (ij, b')"
  obtains s' where "batch_loop source n ptr i j s = (ij, s')" "eb_rel s' b'"
  using assms
proof (induction n arbitrary: s b ptr i j thesis)
  case (Suc n)
  let ?m = "eb_mem s" and ?t = "ptr + 4 + unat (batch_topic_len (eb_mem s) ptr)"
  let ?pl = "ucast (batch_payload_len (eb_mem s) ptr) :: u32"
  have ptr: "261376 \<le> ptr" using Suc.prems by simp
  have pl: "unat ?pl = unat (batch_payload_len ?m ptr)"
    by (rule unat_ucast_up) simp
  obtain ok b1 where pub: "bus_publish (ld64 ?m hdr_tail) (batch_kind ?m ptr) source
      (ld ?m ?t (min 64 (unat (batch_payload_len ?m ptr)))) b = (ok, b1)" by fastforce
  obtain s1 where w: "eventbus_write (batch_kind ?m ptr) source (Some ?t) ?pl s =
      (if ok then SEL4_ERR_OK else SEL4_ERR_NO_MEM, s1)" and rel: "eb_rel s1 b1"
    and keep: "\<And>x. 24 \<le> x \<and> x < 32 \<or> 261376 \<le> x \<Longrightarrow> eb_mem s1 x = ?m x"
    by (rule eventbus_write_spec [OF Suc.prems(2), of "Some ?t" ?pl "batch_kind ?m ptr" source ok b1])
      (use ptr pub in \<open>simp_all add: payload_bytes_def pl\<close>)
  let ?p = "ptr + unat (EB_BATCH_STRIDE ?m ptr)"
  have tl: "ld64 (eb_mem s1) hdr_tail = ld64 ?m hdr_tail"
    by (rule field_cong) (simp add: hdr_tail_def keep)
  have st: "EB_BATCH_STRIDE (eb_mem s1) ptr = EB_BATCH_STRIDE ?m ptr"
    by (rule entry_cong) (use ptr keep in simp)
  have nx: "batch_entries (eb_mem s1) ?p n = batch_entries ?m ?p n" "batch_inside (eb_mem s1) ?p n"
    using batch_cong [of ?m "eb_mem s1" ?p n] keep Suc.prems(3) by simp_all
  have "bus_batch (ld64 (eb_mem s1) hdr_tail) source (batch_entries (eb_mem s1) ?p n)
      (if ok then i + 1 else i) (if ok then j else j + 1) b1 = (ij, b')"
    using Suc.prems(4) pub by (cases ok) (simp_all add: tl nx)
  then obtain s' where "batch_loop source n ?p (if ok then i + 1 else i) (if ok then j else j + 1) s1 = (ij, s')" "eb_rel s' b'"
    using Suc.IH [OF _ rel nx(2)] by blast
  then show ?case
    by (intro Suc.prems(1) [of s']) (cases ok; simp add: Let_def w st SEL4_ERR_OK_def SEL4_ERR_NO_MEM_def)+
qed simp

section \<open>Every request does what the abstract bus does\<close>

definition reply_matches :: "eb_out \<Rightarrow> (u32 \<times> u32 list) \<times> bus \<Rightarrow> bool" where
  "reply_matches out spec \<longleftrightarrow>
     (case out of (rc, rep, s) \<Rightarrow> case spec of ((c, ws), b) \<Rightarrow>
        rc = c \<and> msg_typed rep \<and> reply_words rep = ws \<and> eb_rel s b)"

lemma reply_words_short [simp]:
  "reply_words (rep\<lparr>ms_length := 0\<rparr>) = []"
  "reply_words (rep_data f 4 rep) = [le32 (f (ms_data rep)) 0]"
  "reply_words (rep_data f 8 rep) = [le32 (f (ms_data rep)) 0, le32 (f (ms_data rep)) 4]"
  "reply_words (rep_data f 12 rep) = map (le32 (f (ms_data rep))) [0, 4, 8]"
  "reply_words (rep_data f 32 rep) = map (le32 (f (ms_data rep))) [0, 4, 8, 12, 16, 20, 24, 28]"
  by (simp_all add: reply_words_def rep_data_def upt_conv_Cons)

lemma rep_data_typed [simp]: "length (f (ms_data rep)) = length (ms_data rep) \<Longrightarrow> msg_typed (rep_data f n rep) = msg_typed rep"
  by (simp add: msg_typed_def rep_data_def)

lemma rep_data_data [simp]: "ms_data (rep_data f n rep) = f (ms_data rep)"
  by (simp add: rep_data_def)

lemmas data_defs = data_wr64_def data_wr32_def msg_typed_def words64_def

lemma eb_rel_subs:
  assumes "eb_rel s b" "i < MAX_SUBSCRIBERS"
  shows "bs_subs b ! i = None \<longleftrightarrow> \<not> sb_active (subscribers s ! i)"
  using assms by (simp add: eb_rel_def sub_view_def)

lemma subs_live_update:
  assumes "i < length xs"
  shows "subs_live (xs[i := x]) + (if xs ! i \<noteq> None then 1 else 0) = subs_live xs + (if x \<noteq> None then 1 else 0)"
  using assms unfolding subs_live_def
proof (induction xs arbitrary: i)
  case (Cons y xs)
  then show ?case using Cons.IH [of "i - 1"] by (cases i) auto
qed simp

lemma notify_rel: "eb_rel s b \<Longrightarrow> eb_rel (eventbus_notify_all s) (bus_notify b)"
proof -
  have "map sb_ntfn_cap (filter (\<lambda>x. sb_active x \<and> sb_ntfn_cap x \<noteq> 0) xs) =
      filter (\<lambda>c. c \<noteq> 0) (map (\<lambda>x. fst (the x)) (filter (\<lambda>x. x \<noteq> None) (map sub_view xs)))" for xs
    by (induction xs) (auto simp: sub_view_def)
  then show "eb_rel s b \<Longrightarrow> ?thesis"
    by (simp add: eb_rel_def ring_rel_def eventbus_notify_all_def bus_notify_def)
qed

lemma init_ring_rel:
  assumes "eventbus_ring_vaddr s \<noteq> 0" "length (subscribers s) = MAX_SUBSCRIBERS" "bs_log b = []" "bs_dropped b = 0"
    "bs_seq b = event_seq s" "bs_subs b = map sub_view (subscribers s)" "bs_signals b = eb_signals s"
    "sub_count s = of_nat (subs_live (bs_subs b))"
  shows "eb_rel (eventbus_init_ring s) b" "ld64 (eb_mem (eventbus_init_ring s)) hdr_tail = 0"
  using assms unfolding eb_rel_def ring_rel_def eventbus_init_ring_def ring_capacity
  by (simp_all add: hdr_overflow_def hdr_tail_def hdr_head_def hdr_capacity_def)

lemma handle_init_spec:
  assumes "eb_rel s b" "msg_typed rep"
  shows "reply_matches (handle_init rep s) (bus_step tail BInit b)"
proof -
  let ?s = "eventbus_init_ring s" and ?b = "b\<lparr>bs_log := [], bs_dropped := 0\<rparr>"
  have i: "eb_rel ?s ?b" "ld64 (eb_mem ?s) hdr_tail = 0"
    by (rule init_ring_rel [where b = ?b]; use assms in \<open>simp add: eb_rel_def\<close>)+
  obtain ok b1 where pub: "bus_publish 0 0x0403 0 [] ?b = (ok, b1)" by fastforce
  obtain s1 where w: "eventbus_write 0x0403 0 None 0 ?s = (if ok then SEL4_ERR_OK else SEL4_ERR_NO_MEM, s1)" "eb_rel s1 b1"
    by (rule eventbus_write_spec [OF i(1), of None 0 "0x0403" 0 ok b1]) (use i pub in \<open>simp_all add: payload_bytes_def\<close>)
  then have "ld64 (eb_mem s1) hdr_capacity = of_nat ring_cap" by (simp add: eb_rel_def ring_rel_def)
  then show ?thesis
    using assms w pub by (simp add: handle_init_def bus_step_def reply_matches_def eb_rel_def [of s] data_defs)
qed

lemma handle_subscribe_spec:
  assumes rel: "eb_rel s b" and rep: "msg_typed rep"
  shows "reply_matches (handle_subscribe req rep s)
    (bus_step tail (BSubscribe (data_rd64 (ms_data req) 0) (data_rd32 (ms_data req) 8)) b)"
proof -
  have f: "find (\<lambda>i. bs_subs b ! i = None) [0..<MAX_SUBSCRIBERS] = find (\<lambda>i. \<not> sb_active (subscribers s ! i)) [0..<MAX_SUBSCRIBERS]"
    by (rule find_cong) (use eb_rel_subs [OF rel] in auto)
  show ?thesis
  proof (cases "find (\<lambda>i. \<not> sb_active (subscribers s ! i)) [0..<MAX_SUBSCRIBERS]")
    case None
    then show ?thesis
      using rel rep f by (simp add: handle_subscribe_def bus_step_def reply_matches_def Let_def data_defs)
  next
    case (Some i)
    then have i: "i < MAX_SUBSCRIBERS" "bs_subs b ! i = None"
      using eb_rel_subs [OF rel] by (auto simp: find_Some_iff)
    then have "subs_live ((bs_subs b)[i := Some v]) = subs_live (bs_subs b) + 1" for v
      using subs_live_update [of i "bs_subs b" "Some v"] rel by (simp add: eb_rel_def)
    then show ?thesis
      using rel rep f Some
      by (simp add: handle_subscribe_def bus_step_def reply_matches_def Let_def data_defs eb_rel_def ring_rel_def
          map_update sub_view_def)
  qed
qed

lemma handle_unsubscribe_spec:
  assumes rel: "eb_rel s b" and rep: "msg_typed rep"
  shows "reply_matches (handle_unsubscribe req rep s) (bus_step tail (BUnsubscribe (data_rd32 (ms_data req) 0)) b)"
proof -
  let ?h = "unat (data_rd32 (ms_data req) 0)"
  show ?thesis
  proof (cases "?h < MAX_SUBSCRIBERS \<and> sb_active (subscribers s ! ?h)")
    case True
    then have h: "?h < MAX_SUBSCRIBERS" "bs_subs b ! ?h \<noteq> None" using eb_rel_subs [OF rel] by auto
    then have "subs_live ((bs_subs b)[?h := None]) + 1 = subs_live (bs_subs b)"
      using subs_live_update [of ?h "bs_subs b" None] rel by (simp add: eb_rel_def)
    then have "(of_nat (subs_live (bs_subs b)) :: u32) - 1 =
        of_nat (subs_live ((bs_subs b)[?h := None]))"
      by (metis add_diff_cancel_right' of_nat_1 of_nat_add)
    then show ?thesis
      using rel rep True h
      by (simp add: handle_unsubscribe_def bus_step_def reply_matches_def Let_def eb_rel_def ring_rel_def map_update sub_view_def)
  next
    case False
    then have "\<not> (?h < MAX_SUBSCRIBERS \<and> bs_subs b ! ?h \<noteq> None)" using eb_rel_subs [OF rel, of ?h]
      by (cases "?h < MAX_SUBSCRIBERS") simp_all
    with False show ?thesis
      using rel rep by (auto simp: handle_unsubscribe_def bus_step_def reply_matches_def Let_def)
  qed
qed

lemma handle_status_spec:
  assumes "eb_rel s b" "msg_typed rep"
  shows "reply_matches (handle_status rep s) (bus_step (ld64 (eb_mem s) hdr_tail) BStatus b)"
proof -
  have "ld64 (eb_mem s) hdr_head = of_nat (length (bs_log b) mod ring_cap)"
    using head_facts(1) [OF assms(1)] by (auto simp flip: head_facts(1) [OF assms(1)])
  then show ?thesis
    using assms by (simp add: handle_status_def bus_step_def reply_matches_def Let_def data_defs eb_rel_def ring_rel_def)
qed

lemma handle_publish_spec:
  assumes rel: "eb_rel s b" and rep: "msg_typed rep" and op: "ms_opcode req = MSG_EVENTBUS_PUBLISH"
  shows "reply_matches (handle_publish badge req rep s) (bus_step (ld64 (eb_mem s) hdr_tail)
    (BPublish MSG_EVENTBUS_PUBLISH (if data_rd32 (ms_data req) 0 = 0 then ucast badge else data_rd32 (ms_data req) 0)) b)"
proof -
  let ?src = "if data_rd32 (ms_data req) 0 = 0 then ucast badge else data_rd32 (ms_data req) 0"
  obtain ok b1 where pub: "bus_publish (ld64 (eb_mem s) hdr_tail) MSG_EVENTBUS_PUBLISH ?src [] b = (ok, b1)" by fastforce
  obtain s1 where "eventbus_write MSG_EVENTBUS_PUBLISH ?src None 0 s = (if ok then SEL4_ERR_OK else SEL4_ERR_NO_MEM, s1)" "eb_rel s1 b1"
    by (rule eventbus_write_spec [OF rel, of None 0 MSG_EVENTBUS_PUBLISH ?src ok b1]) (use pub in \<open>simp_all add: payload_bytes_def\<close>)
  then show ?thesis
    using rep pub notify_rel [of s1 b1]
    by (cases ok) (simp_all add: handle_publish_def bus_step_def reply_matches_def Let_def op SEL4_ERR_OK_def SEL4_ERR_NO_MEM_def)
qed

lemma handle_publish_batch_spec:
  assumes rel: "eb_rel s b" and rep: "msg_typed rep" and op: "ms_opcode req = OP_PUBLISH_BATCH"
    and pol: "polite_request (eb_mem s) req"
  shows "reply_matches (handle_publish_batch badge req rep s)
    (bus_step (ld64 (eb_mem s) hdr_tail) (decode_request (eb_mem s) badge req) b)"
proof -
  let ?c = "unat (data_rd32 (ms_data req) 0)" and ?o = "unat (data_rd32 (ms_data req) 4)"
  have dec: "decode_request (eb_mem s) badge req =
      (if batch_refused req then BBadBatch else BBatch (ucast badge) (batch_entries (eb_mem s) ?o ?c))"
    by (simp add: decode_request_def op OP_PUBLISH_BATCH_def MSG_EVENTBUS_INIT_def MSG_EVENTBUS_SUBSCRIBE_def
        MSG_EVENTBUS_UNSUBSCRIBE_def MSG_EVENTBUS_STATUS_def Let_def)
  show ?thesis
  proof (cases "batch_refused req")
    case True
    then show ?thesis
      using rel rep
      by (simp add: dec handle_publish_batch_def batch_refused_def [symmetric] bus_step_def reply_matches_def Let_def data_defs)
  next
    case False
    obtain i j b1 where bb: "bus_batch (ld64 (eb_mem s) hdr_tail) (ucast badge) (batch_entries (eb_mem s) ?o ?c) 0 0 b = ((i, j), b1)"
      by (metis prod.collapse)
    moreover have "batch_inside (eb_mem s) ?o ?c" using pol False op by (simp add: polite_request_def)
    ultimately obtain s1 where "batch_loop (ucast badge) ?c ?o 0 0 s = ((i, j), s1)" "eb_rel s1 b1"
      using batch_loop_spec [OF rel] by blast
    then show ?thesis
      using False rep bb notify_rel [of s1 b1]
      by (simp add: dec handle_publish_batch_def batch_refused_def [symmetric] bus_step_def reply_matches_def Let_def data_defs)
  qed
qed

section \<open>The service loop\<close>

lemmas eb_opcodes = MSG_EVENTBUS_INIT_def MSG_EVENTBUS_SUBSCRIBE_def MSG_EVENTBUS_UNSUBSCRIBE_def MSG_EVENTBUS_STATUS_def
  OP_PUBLISH_BATCH_def MSG_EVENTBUS_PUBLISH_def

lemma eb_srv_handlers: "sv_handlers (eb_srv my_ep) = eb_handlers"
  by (simp add: eb_srv_def eb_handlers_def sel4_server_register_def sel4_server_init_def SEL4_SERVER_MAX_HANDLERS_def)

lemma eb_scan:
  "dispatch_scan opcode None eb_handlers =
     (if opcode = MSG_EVENTBUS_INIT then Some (\<lambda>r badge req. handle_init)
      else if opcode = MSG_EVENTBUS_SUBSCRIBE then Some (\<lambda>r badge. handle_subscribe)
      else if opcode = MSG_EVENTBUS_UNSUBSCRIBE then Some (\<lambda>r badge. handle_unsubscribe)
      else if opcode = MSG_EVENTBUS_STATUS then Some (\<lambda>r badge req. handle_status)
      else if opcode = OP_PUBLISH_BATCH then Some (\<lambda>r. handle_publish_batch)
      else if opcode = MSG_EVENTBUS_PUBLISH then Some (\<lambda>r. handle_publish) else None)"
  by (simp add: eb_handlers_def eb_opcodes SEL4_SERVER_OPCODE_ANY_def)

lemma handler_matches:
  assumes "eb_rel s b" "msg_typed rep" "polite_request (eb_mem s) req" "dispatch_scan (ms_opcode req) None eb_handlers = Some fn"
  shows "reply_matches (fn r badge req rep s) (bus_step (ld64 (eb_mem s) hdr_tail) (decode_request (eb_mem s) badge req) b)"
proof (cases "ms_opcode req = OP_PUBLISH_BATCH")
  case True
  then show ?thesis
    using assms handle_publish_batch_spec [OF assms(1,2) True assms(3)] by (auto simp: eb_scan eb_opcodes split: if_splits)
next
  case False
  then show ?thesis
    using assms(4) handle_init_spec [OF assms(1,2)] handle_subscribe_spec [OF assms(1,2), of req]
      handle_unsubscribe_spec [OF assms(1,2), of req]
      handle_status_spec [OF assms(1,2)] handle_publish_spec [OF assms(1,2), of req]
    by (auto simp: eb_scan decode_request_def Let_def split: if_splits)
qed

lemma dispatch_matches:
  assumes "eb_rel s b" "msg_typed rep" "polite_request (eb_mem s) req"
    and "bus_step (ld64 (eb_mem s) hdr_tail) (decode_request (eb_mem s) badge req) b = ((c, ws), b')"
  obtains rep' s' where "sel4_server_dispatch (eb_srv my_ep) r badge req rep s = (c, rep', s')"
    "ms_opcode rep' = c" "msg_typed rep'" "reply_words rep' = ws" "eb_rel s' b'"
proof (cases "dispatch_scan (ms_opcode req) None eb_handlers")
  case None
  then have "decode_request (eb_mem s) badge req = BUnknown"
    by (simp add: eb_scan decode_request_def Let_def split: if_splits)
  then show thesis
    using assms None that by (simp add: bus_step_def sel4_server_dispatch_def eb_srv_handlers reply_words_def msg_typed_def)
next
  case (Some fn)
  obtain rc rp t where f: "fn r badge req rep s = (rc, rp, t)" by (cases "fn r badge req rep s")
  have "reply_matches (rc, rp, t) ((c, ws), b')"
    using handler_matches [OF assms(1-3) Some, of r badge] assms(4) f by simp
  then show thesis
    using Some f that by (simp add: sel4_server_dispatch_def eb_srv_handlers reply_matches_def)
qed

lemma polite_rel:
  assumes rel: "eb_rel s b" and pol: "polite_write (eb_mem s) m"
  shows "eb_rel (s\<lparr>eb_mem := m\<rparr>) b"
proof -
  have eq: "m x = eb_mem s x" if "x < 24 \<or> 32 \<le> x \<and> x < 261376" for x
    using pol that by (auto simp: polite_write_def hdr_tail_def hdr_overflow_def)
  have hdr: "ld64 m 8 = ld64 (eb_mem s) 8" "ld64 m 16 = ld64 (eb_mem s) 16" "ld32 m 32 = ld32 (eb_mem s) 32"
    by (rule field_cong; simp add: eq)+
  have "slot_event m (n mod ring_cap) = slot_event (eb_mem s) (n mod ring_cap)" for n
  proof (rule slot_event_cong)
    fix x assume x: "72 + 96 * (n mod ring_cap) \<le> x" "x < 72 + 96 * (n mod ring_cap) + 92"
    have "n mod ring_cap < 2721" using mod_less_divisor [OF ring_cap_pos(1), of n] by (simp add: ring_cap_def)
    with x show "m x = eb_mem s x" by (intro eq) simp
  qed
  with hdr rel show ?thesis
    by (simp add: eb_rel_def ring_rel_def hdr_capacity_def hdr_head_def hdr_overflow_def)
qed

lemma eb_passes_refine:
  assumes "eb_rel s b" "msg_typed rep" "eb_polite my_ep inps (rep, s)"
  shows "case eb_passes my_ep inps (rep, s) of (reps, s') \<Rightarrow>
    case bus_run (eb_requests my_ep inps (rep, s)) b of (outs, b') \<Rightarrow>
      map (\<lambda>r. (ms_opcode r, reply_words r)) reps = outs \<and> eb_rel s' b'"
  using assms
proof (induction inps arbitrary: rep s b)
  case (Cons x inps)
  obtain w badge r where x: "x = (w, badge, r)" by (cases x)
  let ?m = "w (eb_mem s)" and ?req = "sel4_mrs_to_msg r"
  let ?s = "s\<lparr>eb_mem := ?m\<rparr>" and ?rep = "rep\<lparr>ms_opcode := 0, ms_length := 0\<rparr>"
  have p: "polite_write (eb_mem s) ?m" "polite_request ?m ?req" using Cons.prems(3) by (simp_all add: x)
  obtain c ws b1 where sp: "bus_step (ld64 ?m hdr_tail) (decode_request ?m badge ?req) b = ((c, ws), b1)"
    by (metis prod.collapse)
  obtain rep' s' where d: "sel4_server_dispatch (eb_srv my_ep) r badge ?req ?rep ?s = (c, rep', s')"
    "ms_opcode rep' = c" "msg_typed rep'" "reply_words rep' = ws" "eb_rel s' b1"
    by (rule dispatch_matches [OF polite_rel [OF Cons.prems(1) p(1)], of ?rep ?req badge c ws b1 my_ep r])
      (use Cons.prems(2) p(2) sp in simp_all)
  have sv: "server_pass (eb_srv my_ep) (badge, r) (rep, ?s) = (rep', s')" by (simp add: server_pass_def d(1))
  have "eb_polite my_ep inps (rep', s')" using Cons.prems(3) by (simp add: x sv)
  from Cons.IH [OF d(5,3) this] show ?case
    using d(2,4) by (auto simp: x sv sp split: prod.splits)
qed simp

lemma boot_rel:
  assumes "length (subscribers s) = MAX_SUBSCRIBERS" "eb_signals s = []"
  shows "eb_rel (register_with_nameserver ns_ep (event_bus_init s)) empty_bus"
proof -
  have live: "subs_live (replicate n None) = 0" for n by (simp add: subs_live_def)
  have v: "map (sub_view \<circ> (\<lambda>b. b\<lparr>sb_active := False, sb_ntfn_cap := 0\<rparr>)) xs = replicate (length xs) None" for xs
    by (induction xs) (simp_all add: sub_view_def)
  have "eb_rel (event_bus_init s) empty_bus"
    unfolding event_bus_init_def Let_def
    by (auto intro!: init_ring_rel simp: assms EVENTBUS_RING_VA_def empty_bus_def v live)
  then show ?thesis by (simp add: register_with_nameserver_def eb_rel_def)
qed

section \<open>Properties\<close>

text \<open>
  C31. As long as the other domains write only the ring's tail and the staging area, and batches lie in the staging area,
  the event bus implements the abstract bus from its start, for every sequence of requests: every reply carries
  the abstract status and words, the ring keeps the last events of the log in order with their sequence numbers,
  sources and payloads, events are refused exactly when the ring is full, the overflow counter counts them, and exactly
  the live subscribers are signalled.
\<close>

theorem event_bus_refines:
  assumes "length (subscribers s) = MAX_SUBSCRIBERS" "eb_signals s = []"
    and "eb_polite my_ep inps (empty_msg, register_with_nameserver ns_ep (event_bus_init s))"
  shows "case event_bus_main my_ep ns_ep inps s of (reps, s') \<Rightarrow>
    case bus_run (eb_requests my_ep inps (empty_msg, register_with_nameserver ns_ep (event_bus_init s))) empty_bus of (outs, b) \<Rightarrow>
      map (\<lambda>r. (ms_opcode r, reply_words r)) reps = outs \<and> eb_rel s' b"
  using eb_passes_refine [OF boot_rel [OF assms(1,2)] reply_ok_typed [OF reply_ok_empty] assms(3)]
  by (simp add: event_bus_main_def)

text \<open>
  C32. A batch is checked only at its start: an entry whose header occupies the last four bytes of the region is
  accepted, and the event published to all subscribers carries bytes that lie behind the region.
\<close>

theorem batch_reads_past_region:
  assumes "eb_rel s b" "(length (bs_log b) + 1) mod ring_cap \<noteq> unat (ld64 (eb_mem s) hdr_tail)"
    and "data_rd32 (ms_data req) 0 = 1" "data_rd32 (ms_data req) 4 = EVENTBUS_RING_SIZE - 4"
    and "batch_topic_len (eb_mem s) (unat EVENTBUS_RING_SIZE - 4) = 0"
  shows "case handle_publish_batch badge req rep s of (rc, rep', s') \<Rightarrow>
    rc = SEL4_ERR_OK \<and>
    be_payload (slot_event (eb_mem s') (length (bs_log b) mod ring_cap)) =
      ld (eb_mem s) (unat EVENTBUS_RING_SIZE) (min 64 (unat (batch_payload_len (eb_mem s) (unat EVENTBUS_RING_SIZE - 4))))"
proof -
  let ?m = "eb_mem s" and ?p = "0x3FFFC" and ?l = "length (bs_log b)"
  let ?pl = "ucast (batch_payload_len ?m ?p) :: u32"
  have pl: "unat ?pl = unat (batch_payload_len ?m ?p)" by (rule unat_ucast_up) simp
  have tl: "batch_topic_len ?m ?p = 0" using assms(5) by (simp add: EVENTBUS_RING_SIZE_def)
  let ?e = "\<lparr>be_seq = bs_seq b, be_kind = batch_kind ?m ?p, be_source = ucast badge,
    be_payload = ld ?m 0x40000 (min 64 (unat ?pl))\<rparr>"
  let ?b = "b\<lparr>bs_log := bs_log b @ [?e], bs_seq := bs_seq b + 1\<rparr>"
  obtain s1 where w: "eventbus_write (batch_kind ?m ?p) (ucast badge) (Some 0x40000) ?pl s = (SEL4_ERR_OK, s1)" "eb_rel s1 ?b"
    by (rule eventbus_write_spec [OF assms(1), of "Some 0x40000" ?pl "batch_kind ?m ?p" "ucast badge" True ?b])
      (use assms(2) in \<open>simp_all add: bus_publish_def payload_bytes_def\<close>)
  then have "slot_event (eb_mem s1) (?l mod ring_cap) = ?e"
    by (auto simp: eb_rel_def ring_rel_def dest!: spec [of _ ?l])
  moreover have "batch_loop (ucast badge) 1 ?p 0 0 s = ((1, 0), s1)" using w(1) tl by (simp add: Let_def)
  ultimately show ?thesis
    using assms(3,4) pl
    by (simp add: handle_publish_batch_def Let_def PUBLISH_BATCH_MAX_def EVENTBUS_RING_SIZE_def eventbus_notify_all_def)
qed

section \<open>Witnesses\<close>

text \<open>A start from zeroed memory; a subscription, an event, and a batch of one entry written to the staging area.\<close>

definition eb_wit :: eb_state where
  "eb_wit = \<lparr>eventbus_ring_vaddr = 0,
     subscribers = replicate 64 \<lparr>sb_active = False, sb_ntfn_cap = 0, sb_topic_mask = 0, sb_last_seq = 0\<rparr>,
     sub_count = 0, event_seq = 0, ring_initialized = False, eb_mem = (\<lambda>_. 0), eb_signals = [], eb_calls = []\<rparr>"

definition eb_wit_entry :: "bytes \<Rightarrow> bytes" where
  "eb_wit_entry m = st m 261376 [2, 0, 3, 0, 65, 66, 1, 2, 3]"

definition eb_wit_two :: "((bytes \<Rightarrow> bytes) \<times> sel4_badge \<times> mrs) list" where
  "eb_wit_two = [(id, 7, (\<lambda>_. 0)(0 := 2, 2 := 9)), (id, 7, (\<lambda>_. 0)(0 := 6))]"

definition eb_wit_inps :: "((bytes \<Rightarrow> bytes) \<times> sel4_badge \<times> mrs) list" where
  "eb_wit_inps = eb_wit_two @ [(eb_wit_entry, 5, (\<lambda>_. 0)(0 := 0x25, 2 := 0x3FD0000000001))]"

abbreviation eb_wit_boot :: "sel4_msg \<times> eb_state" where
  "eb_wit_boot \<equiv> (empty_msg, register_with_nameserver 0 (event_bus_init eb_wit))"

abbreviation eb_wit_batch :: sel4_msg where
  "eb_wit_batch \<equiv> sel4_mrs_to_msg ((\<lambda>_. 0)(0 := 0x25, 2 := 0x3FD0000000001))"

lemma eb_requests_snoc:
  "eb_requests my_ep (xs @ [(w, inp)]) (rep, s) = eb_requests my_ep xs (rep, s) @
     (let m = w (eb_mem (snd (eb_passes my_ep xs (rep, s)))) in
      [(ld64 m hdr_tail, decode_request m (fst inp) (sel4_mrs_to_msg (snd inp)))])"
proof (induction xs arbitrary: rep s)
  case (Cons x xs)
  obtain v i where x: "x = (v, i)" by (cases x)
  obtain rep' s' where "server_pass (eb_srv my_ep) i (rep, s\<lparr>eb_mem := v (eb_mem s)\<rparr>) = (rep', s')" by fastforce
  with Cons show ?case by (simp add: x split_beta)
qed (simp add: Let_def)

lemma eb_polite_snoc:
  "eb_polite my_ep (xs @ [(w, inp)]) (rep, s) \<longleftrightarrow> eb_polite my_ep xs (rep, s) \<and>
     (let m = eb_mem (snd (eb_passes my_ep xs (rep, s))) in
      polite_write m (w m) \<and> polite_request (w m) (sel4_mrs_to_msg (snd inp)))"
proof (induction xs arbitrary: rep s)
  case (Cons x xs)
  obtain v i where x: "x = (v, i)" by (cases x)
  obtain rep' s' where "server_pass (eb_srv my_ep) i (rep, s\<lparr>eb_mem := v (eb_mem s)\<rparr>) = (rep', s')" by fastforce
  with Cons show ?case by (simp add: x split_beta)
qed (simp add: Let_def)

lemma eb_wit_batch_words:
  "ms_opcode eb_wit_batch = 0x25" "data_rd32 (ms_data eb_wit_batch) 0 = 1" "data_rd32 (ms_data eb_wit_batch) 4 = 0x3FD00"
  by code_simp+

lemma eb_wit_entry_bytes:
  "eb_wit_entry m 261376 = 2" "eb_wit_entry m 261377 = 0" "eb_wit_entry m 261378 = 3" "eb_wit_entry m 261379 = 0"
  "eb_wit_entry m 261380 = 65" "eb_wit_entry m 261381 = 66" "eb_wit_entry m 261382 = 1" "eb_wit_entry m 261383 = 2"
  "eb_wit_entry m 261384 = 3"
  by (simp_all add: eb_wit_entry_def st_def)

lemma eb_wit_entry_fields:
  "batch_topic_len (eb_wit_entry m) 261376 = 2" "batch_payload_len (eb_wit_entry m) 261376 = 3"
  "batch_kind (eb_wit_entry m) 261376 = 0x4241" "ld (eb_wit_entry m) 261382 3 = [1, 2, 3]"
proof -
  show t: "batch_topic_len (eb_wit_entry m) 261376 = 2" "batch_payload_len (eb_wit_entry m) 261376 = 3"
    by (simp_all add: batch_topic_len_def batch_payload_len_def ld16_def eb_wit_entry_bytes)
  have u: "[0..<2] = [0, 1 :: nat]" "[261382..<261382 + 3] = [261382, 261383, 261384 :: nat]" by (simp_all add: upt_rec)
  show "batch_kind (eb_wit_entry m) 261376 = 0x4241"
    by (simp add: batch_kind_def t u eb_wit_entry_bytes del: upt_rec_numeral)
  show "ld (eb_wit_entry m) 261382 3 = [1, 2, 3]"
    by (simp only: ld_def u list.map eb_wit_entry_bytes)
qed

lemma eb_wit_decode: "decode_request (eb_wit_entry m) 5 eb_wit_batch = BBatch 5 [(0x4241, [1, 2, 3])]"
  by (simp add: decode_request_def Let_def eb_wit_batch_words eb_opcodes batch_refused_def PUBLISH_BATCH_MAX_def
      EVENTBUS_RING_SIZE_def eb_wit_entry_fields)

lemma eb_wit_prefix:
  "eb_requests 1 eb_wit_two eb_wit_boot = [(0, BSubscribe 9 0), (0, BPublish 6 7)]"
  "ld64 (eb_mem (snd (eb_passes 1 eb_wit_two eb_wit_boot))) hdr_tail = 0"
  by code_simp+

lemma eb_wit_requests:
  "eb_requests 1 eb_wit_inps eb_wit_boot = [(0, BSubscribe 9 0), (0, BPublish 6 7), (0, BBatch 5 [(0x4241, [1, 2, 3])])]"
proof -
  have "ld64 (eb_wit_entry m) hdr_tail = ld64 m hdr_tail" for m
    by (rule field_cong) (simp add: hdr_tail_def eb_wit_entry_def st_outside)
  then show ?thesis
    by (simp add: eb_wit_inps_def eb_requests_snoc Let_def eb_wit_prefix eb_wit_decode)
qed

lemma eb_wit_run:
  "bus_run [(0, BSubscribe 9 0), (0, BPublish 6 7), (0, BBatch 5 [(0x4241, [1, 2, 3])])] empty_bus =
     ([(0, [0]), (0, []), (0, [1, 0])],
      \<lparr>bs_log = [\<lparr>be_seq = 0, be_kind = 6, be_source = 7, be_payload = []\<rparr>,
                 \<lparr>be_seq = 1, be_kind = 0x4241, be_source = 5, be_payload = [1, 2, 3]\<rparr>],
       bs_seq = 2, bs_dropped = 0, bs_subs = Some (9, 0) # replicate 63 None, bs_signals = [9, 9]\<rparr>)"
  by code_simp

lemma eb_wit_entry_polite:
  "polite_write m (eb_wit_entry m)" "polite_request (eb_wit_entry m) eb_wit_batch"
proof -
  show "polite_write m (eb_wit_entry m)"
    by (simp add: polite_write_def eb_wit_entry_def st_outside hdr_tail_def hdr_overflow_def)
  show "polite_request (eb_wit_entry m) eb_wit_batch"
    by (simp add: polite_request_def eb_wit_batch_words eb_wit_entry_fields EVENTBUS_RING_SIZE_def)
qed

lemma eb_wit_polite: "eb_polite 1 eb_wit_inps eb_wit_boot"
proof -
  have "ms_opcode (sel4_mrs_to_msg ((\<lambda>_. 0)(0 := 2, 2 := 9))) = 2" "ms_opcode (sel4_mrs_to_msg ((\<lambda>_. 0)(0 := 6))) = 6"
    by code_simp+
  then have pr: "polite_request m (sel4_mrs_to_msg ((\<lambda>_. 0)(0 := 2, 2 := 9)))" "polite_request m (sel4_mrs_to_msg ((\<lambda>_. 0)(0 := 6)))" for m
    by (simp_all only: polite_request_def OP_PUBLISH_BATCH_def) simp_all
  obtain rep s where p: "server_pass (eb_srv 1) (7, (\<lambda>_. 0)(0 := 2, 2 := 9)) eb_wit_boot = (rep, s)" by fastforce
  have "polite_write m m" for m by (simp add: polite_write_def)
  then have "eb_polite 1 eb_wit_two eb_wit_boot"
    unfolding eb_wit_two_def using p pr by (simp only: eb_polite.simps id_apply snd_conv) simp
  then show ?thesis
    by (simp add: eb_wit_inps_def eb_polite_snoc Let_def eb_wit_entry_polite)
qed

theorem event_bus_refines_witness:
  "map (\<lambda>r. (ms_opcode r, reply_words r)) (fst (event_bus_main 1 0 eb_wit_inps eb_wit)) = [(0, [0]), (0, []), (0, [1, 0])] \<and>
   slot_event (eb_mem (snd (event_bus_main 1 0 eb_wit_inps eb_wit))) 1 =
     \<lparr>be_seq = 1, be_kind = 0x4241, be_source = 5, be_payload = [1, 2, 3]\<rparr> \<and>
   eb_signals (snd (event_bus_main 1 0 eb_wit_inps eb_wit)) = [9, 9]"
proof -
  have "length (subscribers eb_wit) = MAX_SUBSCRIBERS" "eb_signals eb_wit = []"
    by (simp_all add: eb_wit_def MAX_SUBSCRIBERS_def)
  from event_bus_refines [OF this eb_wit_polite] show ?thesis
    unfolding eb_wit_requests eb_wit_run
    by (auto simp: eb_rel_def ring_rel_def ring_cap_def split_beta dest!: spec [of _ "Suc 0"])
qed

definition leak_wit :: eb_state where
  "leak_wit = (register_with_nameserver 0 (event_bus_init (eb_wit\<lparr>eb_mem := (\<lambda>x. if x = 0x3FFFE then 8 else if 0x40000 \<le> x then 0x5A else 0)\<rparr>)))"

definition leak_req :: sel4_msg where
  "leak_req = \<lparr>ms_opcode = OP_PUBLISH_BATCH, ms_length = 8, ms_data = data_wr32 (data_wr32 (replicate 48 0) 0 1) 4 0x3FFFC\<rparr>"

lemma leak_wit_high: "36 \<le> x \<Longrightarrow> eb_mem leak_wit x = (if x = 0x3FFFE then 8 else if 0x40000 \<le> x then 0x5A else 0)"
  by (simp add: leak_wit_def register_with_nameserver_def event_bus_init_def eventbus_init_ring_def Let_def eb_wit_def
      EVENTBUS_RING_VA_def eb_layout st_outside_field)

lemma leak_wit_mem:
  "batch_topic_len (eb_mem leak_wit) 0x3FFFC = 0" "batch_payload_len (eb_mem leak_wit) 0x3FFFC = 8"
  "ld (eb_mem leak_wit) 0x40000 8 = [0x5A, 0x5A, 0x5A, 0x5A, 0x5A, 0x5A, 0x5A, 0x5A]" "ld64 (eb_mem leak_wit) hdr_tail = 0"
proof -
  show "batch_topic_len (eb_mem leak_wit) 0x3FFFC = 0" "batch_payload_len (eb_mem leak_wit) 0x3FFFC = 8"
    by (simp_all add: batch_topic_len_def batch_payload_len_def ld16_def leak_wit_high)
  show "ld (eb_mem leak_wit) 0x40000 8 = [0x5A, 0x5A, 0x5A, 0x5A, 0x5A, 0x5A, 0x5A, 0x5A]"
    by (simp add: ld_def leak_wit_high)
  show "ld64 (eb_mem leak_wit) hdr_tail = 0"
    by (simp add: leak_wit_def register_with_nameserver_def event_bus_init_def eventbus_init_ring_def Let_def eb_wit_def
      EVENTBUS_RING_VA_def eb_layout)
qed

lemma leak_req_words: "data_rd32 (ms_data leak_req) 0 = 1" "data_rd32 (ms_data leak_req) 4 = EVENTBUS_RING_SIZE - 4"
  by code_simp+

theorem batch_reads_past_region_witness:
  "be_payload (slot_event (eb_mem (snd (snd (handle_publish_batch 3 leak_req empty_msg leak_wit)))) 0) = [0x5A, 0x5A, 0x5A, 0x5A, 0x5A, 0x5A, 0x5A, 0x5A]"
proof -
  have "eb_rel leak_wit empty_bus"
    unfolding leak_wit_def by (rule boot_rel) (simp_all add: eb_wit_def MAX_SUBSCRIBERS_def)
  from batch_reads_past_region [OF this _ leak_req_words, of 3 empty_msg] show ?thesis
    using leak_wit_mem by (simp add: EVENTBUS_RING_SIZE_def empty_bus_def ring_cap_def split_beta)
qed

end
