(* ===== verification/VmManager.thy ===== *)
theory VmManager
  imports Ipc Sel4Kernel
begin

text \<open>
  The VM lifecycle manager (\<open>services/vm-manager/vm_manager.c\<close>, with \<open>vm_manager.h\<close>, \<open>vmm_mux.h\<close>, the linked
  multiplexer \<open>platform/guest-vmm/vmm_mux_stub.c\<close>, \<open>guest_gic_mapping.h\<close> and \<open>guest_scheduling.h\<close>), in the
  dual-guest AArch64 MCS configuration: the guest profile endpoints, the slot table, the relayed guest
  protocol, the credit scheduler, all request handlers and the service loop.  The kernel and the guest
  VMM domains answer from the history of events; replies arrive through message registers.  Debug output
  is not modelled, nor are the slot fields that the manager never reads or writes.
\<close>

unbundle bit_operations_syntax

section \<open>Constants\<close>

definition VM_MAX_SLOTS :: nat where "VM_MAX_SLOTS = 4"
definition VM_SLOT_RAM_SIZE :: u64 where "VM_SLOT_RAM_SIZE = 0x20000000"
definition VM_SLOT_RAM_BASE :: "u64 \<Rightarrow> u64" where "VM_SLOT_RAM_BASE n = 0x40000000 + n * VM_SLOT_RAM_SIZE"
definition OP_VM_CREATE :: u32 where "OP_VM_CREATE = 0x10"
definition OP_VM_DESTROY :: u32 where "OP_VM_DESTROY = 0x11"
definition OP_VM_START :: u32 where "OP_VM_START = 0x12"
definition OP_VM_STOP :: u32 where "OP_VM_STOP = 0x13"
definition OP_VM_PAUSE :: u32 where "OP_VM_PAUSE = 0x14"
definition OP_VM_RESUME :: u32 where "OP_VM_RESUME = 0x15"
definition OP_VM_CONSOLE :: u32 where "OP_VM_CONSOLE = 0x16"
definition OP_VM_INFO :: u32 where "OP_VM_INFO = 0x17"
definition OP_VM_LIST :: u32 where "OP_VM_LIST = 0x18"
definition OP_VM_SNAPSHOT :: u32 where "OP_VM_SNAPSHOT = 0x19"
definition OP_VM_RESTORE :: u32 where "OP_VM_RESTORE = 0x1A"
definition OP_VM_CONFIGURE :: u32 where "OP_VM_CONFIGURE = 0x1B"
definition OP_VM_SEND_INPUT :: u32 where "OP_VM_SEND_INPUT = 0x1F"
definition OP_VM_CONSOLE_DRAIN :: u32 where "OP_VM_CONSOLE_DRAIN = 0x20"
definition OP_VM_SET_QUOTA :: u32 where "OP_VM_SET_QUOTA = 0x30"
definition OP_VM_GET_STATS :: u32 where "OP_VM_GET_STATS = 0x31"
definition OP_VM_SET_AFFINITY :: u32 where "OP_VM_SET_AFFINITY = 0x32"
definition OP_VM_INJECT_IRQ :: u32 where "OP_VM_INJECT_IRQ = 0x33"
definition VM_OK :: u32 where "VM_OK = 0"
definition VM_ERR :: u32 where "VM_ERR = 1"
definition VM_NOT_IMPL :: u32 where "VM_NOT_IMPL = 0xFE"
definition VM_SCHED_IPC_QUANTUM :: u32 where "VM_SCHED_IPC_QUANTUM = 16"
definition SCHED_CREDIT_QUANTUM :: u32 where "SCHED_CREDIT_QUANTUM = 1"
definition SCHED_CREDITS_PER_PCT :: u32 where "SCHED_CREDITS_PER_PCT = 4"
definition VM_PROFILE_PRIMARY :: u32 where "VM_PROFILE_PRIMARY = 0"
definition VM_PROFILE_SECONDARY :: u32 where "VM_PROFILE_SECONDARY = 1"
definition VM_MANAGER_CONSOLE_INLINE_BYTES :: u32 where "VM_MANAGER_CONSOLE_INLINE_BYTES = 48 - 8"
definition MSG_GUEST_CREATE :: u32 where "MSG_GUEST_CREATE = 0x2A01"
definition MSG_GUEST_BOOT :: u32 where "MSG_GUEST_BOOT = 0x2A04"
definition MSG_GUEST_SUSPEND :: u32 where "MSG_GUEST_SUSPEND = 0x2A05"
definition MSG_GUEST_RESUME :: u32 where "MSG_GUEST_RESUME = 0x2A06"
definition MSG_GUEST_DESTROY :: u32 where "MSG_GUEST_DESTROY = 0x2A07"
definition MSG_GUEST_SEND_INPUT :: u32 where "MSG_GUEST_SEND_INPUT = 0x2A08"
definition MSG_GUEST_CONSOLE_DRAIN :: u32 where "MSG_GUEST_CONSOLE_DRAIN = 0x2A09"
definition GUEST_DESTROY_NORMAL :: u8 where "GUEST_DESTROY_NORMAL = 0"
definition GUEST_OK :: u32 where "GUEST_OK = 0"
definition SVC_ID_GUEST_VMM_PRIMARY :: u32 where "SVC_ID_GUEST_VMM_PRIMARY = 16"
definition SVC_ID_GUEST_VMM_SECONDARY :: u32 where "SVC_ID_GUEST_VMM_SECONDARY = 17"
definition PD_CNODE_SLOT_GUEST_VMM_PRIMARY_EP :: u64 where "PD_CNODE_SLOT_GUEST_VMM_PRIMARY_EP = 11"
definition PD_CNODE_SLOT_GUEST_VMM_SECONDARY_EP :: u64 where "PD_CNODE_SLOT_GUEST_VMM_SECONDARY_EP = 12"
definition AOS_PRIMARY_GUEST_RAM_BASE :: u64 where "AOS_PRIMARY_GUEST_RAM_BASE = 0xc0000000"
definition AOS_SECONDARY_GUEST_RAM_BASE :: u64 where "AOS_SECONDARY_GUEST_RAM_BASE = 0x80000000"
definition AOS_PRIMARY_GUEST_RAM_SIZE :: u64 where "AOS_PRIMARY_GUEST_RAM_SIZE = 0x40000000"
definition AOS_SECONDARY_GUEST_RAM_SIZE :: u64 where "AOS_SECONDARY_GUEST_RAM_SIZE = 0x10000000"
definition AOS_PRIMARY_GUEST_RAM_MB :: u32 where "AOS_PRIMARY_GUEST_RAM_MB = ucast (drop_bit 20 AOS_PRIMARY_GUEST_RAM_SIZE)"
definition AOS_SECONDARY_GUEST_RAM_MB :: u32 where "AOS_SECONDARY_GUEST_RAM_MB = ucast (drop_bit 20 AOS_SECONDARY_GUEST_RAM_SIZE)"
definition AOS_GUEST_SCHED_EXCHANGE_BITS :: u8 where "AOS_GUEST_SCHED_EXCHANGE_BITS = 2"
definition AOS_GUEST_SCHED_TCB :: u64 where "AOS_GUEST_SCHED_TCB = 0"
definition AOS_GUEST_SCHED_SC :: u64 where "AOS_GUEST_SCHED_SC = 1"
definition AOS_GUEST_SCHED_FAULT_EP :: u64 where "AOS_GUEST_SCHED_FAULT_EP = 2"
definition AOS_GUEST_SCHED_OBJECTS :: nat where "AOS_GUEST_SCHED_OBJECTS = 3"
definition AOS_GUEST_SCHED_CLIENTS :: u32 where "AOS_GUEST_SCHED_CLIENTS = 2"
definition AOS_GUEST_SCHED_MANAGER_CNODE :: u64 where "AOS_GUEST_SCHED_MANAGER_CNODE = 600"
definition AOS_GUEST_SCHED_AUTHORITY :: u64 where "AOS_GUEST_SCHED_AUTHORITY = 601"
definition AOS_GUEST_SCHED_EXCHANGE_BASE :: u64 where "AOS_GUEST_SCHED_EXCHANGE_BASE = 602"
definition AOS_GUEST_SCHED_CONTROL_BASE :: u64 where "AOS_GUEST_SCHED_CONTROL_BASE = 604"
definition AOS_GUEST_SCHED_SCRATCH_BASE :: u64 where "AOS_GUEST_SCHED_SCRATCH_BASE = 606"
definition AOS_GUEST_SCHED_MANAGER_BITS :: u8 where "AOS_GUEST_SCHED_MANAGER_BITS = 10"
definition AOS_GUEST_SCHED_PRIORITY :: u64 where "AOS_GUEST_SCHED_PRIORITY = 150"
definition AOS_GUEST_SCHED_BUDGET_US :: u64 where "AOS_GUEST_SCHED_BUDGET_US = 25000"
definition AOS_GUEST_SCHED_PERIOD_US :: u64 where "AOS_GUEST_SCHED_PERIOD_US = 100000"
definition AOS_GUEST_GIC_VSPACE_EXCHANGE_SLOT :: u64 where "AOS_GUEST_GIC_VSPACE_EXCHANGE_SLOT = 3"
definition AOS_GUEST_GIC_VSPACE_SCRATCH :: u64 where "AOS_GUEST_GIC_VSPACE_SCRATCH = 609"
definition AOS_GUEST_GIC_FRAME_BASE :: u64 where "AOS_GUEST_GIC_FRAME_BASE = 610"
definition AOS_GUEST_GIC_IPA :: u64 where "AOS_GUEST_GIC_IPA = 0x08010000"
definition SEL4_ERR_NOT_FOUND :: u32 where "SEL4_ERR_NOT_FOUND = 2"
definition SEL4_ERR_BUSY :: u32 where "SEL4_ERR_BUSY = 6"
definition SEL4_ERR_INTERNAL :: u32 where "SEL4_ERR_INTERNAL = 8"

section \<open>State\<close>

datatype vm_slot_state =
    VM_SLOT_FREE
  | VM_SLOT_BOOTING
  | VM_SLOT_RUNNING
  | VM_SLOT_SUSPENDED
  | VM_SLOT_HALTED
  | VM_SLOT_ERROR

fun slot_state_code :: "vm_slot_state \<Rightarrow> u32" where
  "slot_state_code VM_SLOT_FREE = 0"
| "slot_state_code VM_SLOT_BOOTING = 1"
| "slot_state_code VM_SLOT_RUNNING = 2"
| "slot_state_code VM_SLOT_SUSPENDED = 3"
| "slot_state_code VM_SLOT_HALTED = 4"
| "slot_state_code VM_SLOT_ERROR = 5"

record vm_slot =
  sl_id :: u8
  sl_state :: vm_slot_state
  sl_ram_vaddr :: u64
  sl_ram_size :: u64
  sl_ram_paddr :: u64
  sl_vcpu_id :: u32
  sl_label :: "u8 list"

record vm_slot_quota =
  qt_max_cpu_pct :: u8
  qt_credits :: int
  qt_run_ticks :: u64
  qt_preempt_count :: u64

record vm_manager_list_entry =
  vl_slot_id :: u8
  vl_state :: u8
  vl_vm_type :: u8
  vl_reserved :: u8
  vl_ram_mb :: u32
  vl_label :: "u8 list"
  vl_ram_gpa :: u64
  vl_device_flags :: u32
  vl_vmm_service_id :: u32

record vm_stats =
  st_slot_id :: u8
  st_state :: u8
  st_max_cpu_pct :: u8
  st_ram_mb :: u32
  st_run_ticks :: u64
  st_preempt_count :: u64
  st_label :: "u8 list"

text \<open>Copies of capabilities between the manager's and a guest's CNode, kernel invocations, and calls to VMM domains.\<close>

datatype vm_event =
    VmCopy (vc_dest: u64) (vc_src_root: u64) (vc_src_index: u64) seL4_Error
  | VmInv sel4_call seL4_Error
  | VmRpc (vr_ep: u64) (vr_req: sel4_msg) (vr_rep: sel4_msg)
  | VmRegister u64 sel4_msg

record vm_env =
  ve_copy :: "vm_event list \<Rightarrow> u64 \<Rightarrow> u64 \<Rightarrow> u64 \<Rightarrow> seL4_Error"
  ve_invoke :: "vm_event list \<Rightarrow> sel4_call \<Rightarrow> seL4_Error"
  ve_vmm :: "vm_event list \<Rightarrow> u64 \<Rightarrow> sel4_msg \<Rightarrow> mrs"

record vm_state =
  mx_slots :: "vm_slot list"
  mx_active_slot :: u8
  mx_slot_count :: u8
  g_vm_types :: "u8 list"
  g_vm_flags :: "u32 list"
  g_primary_vmm_ep :: u64
  g_secondary_vmm_ep :: u64
  g_slot_vmm_ep :: "u64 list"
  g_slot_guest_id :: "u32 list"
  g_slot_guest_bound :: "bool list"
  g_quotas :: "vm_slot_quota list"
  g_sched_current :: u8
  g_affinity :: "u32 list"
  g_ipc_counter :: u32
  vm_list_shmem :: "vm_manager_list_entry list option"
  vm_trace :: "vm_event list"

section \<open>The multiplexer linked into the manager (vmm_mux_stub.c)\<close>

definition set_slot_state :: "nat \<Rightarrow> vm_slot_state \<Rightarrow> vm_state \<Rightarrow> vm_state" where
  "set_slot_state i st s = s\<lparr>mx_slots := (mx_slots s)[i := (mx_slots s ! i)\<lparr>sl_state := st\<rparr>]\<rparr>"

definition vmm_mux_init :: "vm_state \<Rightarrow> vm_state" where
  "vmm_mux_init s = s\<lparr>mx_slots := map (\<lambda>e. e\<lparr>sl_state := VM_SLOT_FREE\<rparr>) (mx_slots s), mx_active_slot := 0, mx_slot_count := 0\<rparr>"

definition vmm_mux_create :: "vm_state \<Rightarrow> u8 \<times> vm_state" where "vmm_mux_create s = (0xFF, s)"
definition vmm_mux_destroy :: "u8 \<Rightarrow> vm_state \<Rightarrow> int \<times> vm_state" where "vmm_mux_destroy slot_id s = (- 1, s)"
definition vmm_mux_pause :: "u8 \<Rightarrow> vm_state \<Rightarrow> int \<times> vm_state" where "vmm_mux_pause slot_id s = (- 1, s)"
definition vmm_mux_resume :: "u8 \<Rightarrow> vm_state \<Rightarrow> int \<times> vm_state" where "vmm_mux_resume slot_id s = (- 1, s)"
definition vmm_mux_switch :: "u8 \<Rightarrow> vm_state \<Rightarrow> int \<times> vm_state" where "vmm_mux_switch slot_id s = (- 1, s)"

section \<open>Kernel and VMM calls\<close>

definition vm_copy :: "vm_env \<Rightarrow> u64 \<Rightarrow> u64 \<Rightarrow> u64 \<Rightarrow> vm_state \<Rightarrow> seL4_Error \<times> vm_state" where
  "vm_copy en dest src_root src_index s =
     (let err = ve_copy en (vm_trace s) dest src_root src_index in
      (err, s\<lparr>vm_trace := vm_trace s @ [VmCopy dest src_root src_index err]\<rparr>))"

definition vm_invoke :: "vm_env \<Rightarrow> sel4_call \<Rightarrow> vm_state \<Rightarrow> seL4_Error \<times> vm_state" where
  "vm_invoke en c s =
     (let err = ve_invoke en (vm_trace s) c in (err, s\<lparr>vm_trace := vm_trace s @ [VmInv c err]\<rparr>))"

definition vmm_call :: "vm_env \<Rightarrow> u64 \<Rightarrow> sel4_msg \<Rightarrow> vm_state \<Rightarrow> sel4_msg \<times> vm_state" where
  "vmm_call en ep req s =
     (let rep = sel4_mrs_to_msg (ve_vmm en (vm_trace s) ep req) in
      (rep, s\<lparr>vm_trace := vm_trace s @ [VmRpc ep req rep]\<rparr>))"

definition vm_delete :: "vm_env \<Rightarrow> u64 \<Rightarrow> vm_state \<Rightarrow> seL4_Error \<times> vm_state" where
  "vm_delete en slot s = vm_invoke en (CNode_Delete AOS_GUEST_SCHED_MANAGER_CNODE slot AOS_GUEST_SCHED_MANAGER_BITS) s"

definition aos_guest_gic_prepare :: "vm_env \<Rightarrow> u32 \<Rightarrow> vm_state \<Rightarrow> bool \<times> vm_state" where
  "aos_guest_gic_prepare en client s =
     (if AOS_GUEST_SCHED_CLIENTS \<le> client then (False, s)
      else case vm_copy en AOS_GUEST_GIC_VSPACE_SCRATCH (AOS_GUEST_SCHED_EXCHANGE_BASE + ucast client)
             AOS_GUEST_GIC_VSPACE_EXCHANGE_SLOT s of (err, s1) \<Rightarrow>
        if err \<noteq> seL4_NoError then (False, s1)
        else let frame = AOS_GUEST_GIC_FRAME_BASE + ucast client in
          case vm_invoke en (ARM_Page_Unmap frame) s1 of (e2, s2) \<Rightarrow>
          case (if e2 = seL4_NoError
                then vm_invoke en (ARM_Page_Map frame AOS_GUEST_GIC_VSPACE_SCRATCH AOS_GUEST_GIC_IPA seL4_AllRights) s2
                else (e2, s2)) of (e3, s3) \<Rightarrow>
          case vm_delete en AOS_GUEST_GIC_VSPACE_SCRATCH s3 of (e4, s4) \<Rightarrow>
            (e3 = seL4_NoError \<and> e4 = seL4_NoError, s4))"

fun copy_objects :: "vm_env \<Rightarrow> u32 \<Rightarrow> nat \<Rightarrow> nat \<Rightarrow> vm_state \<Rightarrow> bool \<times> nat \<times> vm_state" where
  "copy_objects en client 0 copied s = (True, copied, s)"
| "copy_objects en client (Suc n) copied s =
     (case vm_copy en (AOS_GUEST_SCHED_SCRATCH_BASE + of_nat copied) (AOS_GUEST_SCHED_EXCHANGE_BASE + ucast client)
             (of_nat copied) s of (err, s1) \<Rightarrow>
        if err \<noteq> seL4_NoError then (False, copied, s1) else copy_objects en client n (copied + 1) s1)"

fun delete_objects :: "vm_env \<Rightarrow> nat \<Rightarrow> bool \<Rightarrow> vm_state \<Rightarrow> bool \<times> vm_state" where
  "delete_objects en 0 ok s = (ok, s)"
| "delete_objects en (Suc copied) ok s =
     (case vm_delete en (AOS_GUEST_SCHED_SCRATCH_BASE + of_nat copied) s of (err, s1) \<Rightarrow>
        delete_objects en copied (if err \<noteq> seL4_NoError then False else ok) s1)"

definition aos_guest_scheduling_configure :: "vm_env \<Rightarrow> u32 \<Rightarrow> vm_state \<Rightarrow> bool \<times> vm_state" where
  "aos_guest_scheduling_configure en client s =
     (if AOS_GUEST_SCHED_CLIENTS \<le> client then (False, s)
      else case copy_objects en client AOS_GUEST_SCHED_OBJECTS 0 s of (ok1, copied, s1) \<Rightarrow>
        case (if ok1 then vm_invoke en (SchedControl_ConfigureFlags (AOS_GUEST_SCHED_CONTROL_BASE + ucast client)
                (AOS_GUEST_SCHED_SCRATCH_BASE + AOS_GUEST_SCHED_SC) AOS_GUEST_SCHED_BUDGET_US
                AOS_GUEST_SCHED_PERIOD_US 0 0 0) s1 else (seL4_InvalidArgument, s1)) of (e2, s2) \<Rightarrow>
        case (if ok1 \<and> e2 = seL4_NoError
              then vm_invoke en (TCB_SetSchedParams (AOS_GUEST_SCHED_SCRATCH_BASE + AOS_GUEST_SCHED_TCB)
                AOS_GUEST_SCHED_AUTHORITY AOS_GUEST_SCHED_PRIORITY AOS_GUEST_SCHED_PRIORITY
                (AOS_GUEST_SCHED_SCRATCH_BASE + AOS_GUEST_SCHED_SC)
                (AOS_GUEST_SCHED_SCRATCH_BASE + AOS_GUEST_SCHED_FAULT_EP)) s2
              else (seL4_InvalidArgument, s2)) of (e3, s3) \<Rightarrow>
        delete_objects en copied (ok1 \<and> e2 = seL4_NoError \<and> e3 = seL4_NoError) s3)"

section \<open>Requests and profiles\<close>

definition rep_u64 :: "u32 \<Rightarrow> u64 \<Rightarrow> sel4_msg \<Rightarrow> sel4_msg" where
  "rep_u64 off v m = rep_u32 (off + 4) (ucast (drop_bit 32 v)) (rep_u32 off (ucast (v AND 0xFFFFFFFF)) m)"

definition vm_arg_u32 :: "sel4_msg \<Rightarrow> u32 \<Rightarrow> u32" where
  "vm_arg_u32 req arg =
     (let raw_off = arg * 4 in
      if raw_off + 4 \<le> ms_length req then msg_u32 req raw_off else msg_u32 req (raw_off + 4))"

definition vm_create_vm_type :: "sel4_msg \<Rightarrow> u32" where
  "vm_create_vm_type req =
     (let first = msg_u32 req 0 in
      if first = VM_PROFILE_PRIMARY \<or> first = VM_PROFILE_SECONDARY then first else VM_PROFILE_PRIMARY)"

definition vm_create_ram_mb :: "sel4_msg \<Rightarrow> u32" where
  "vm_create_ram_mb req =
     (let first = msg_u32 req 0 in
      if first = VM_PROFILE_PRIMARY \<or> first = VM_PROFILE_SECONDARY then msg_u32 req 4
      else if first = OP_VM_CREATE then msg_u32 req 8
      else msg_u32 req 4)"

definition vm_create_flags :: "sel4_msg \<Rightarrow> u32" where
  "vm_create_flags req =
     (let first = msg_u32 req 0 in
      if first = VM_PROFILE_PRIMARY \<or> first = VM_PROFILE_SECONDARY then msg_u32 req 8 else 0)"

definition vm_label_copy :: "u8 list \<Rightarrow> u8 list \<Rightarrow> nat \<Rightarrow> u8 list" where
  "vm_label_copy dst src n =
     (if n = 0 then dst
      else let t = take (n - 1) (takeWhile (\<lambda>c. c \<noteq> 0) src) in t @ [0] @ drop (length t + 1) dst)"

definition profile_label :: "u32 \<Rightarrow> u8 list" where
  "profile_label vm_type = map of_char (if vm_type = VM_PROFILE_SECONDARY then ''secondary'' else ''primary'')"

definition vm_endpoint_for_type :: "u32 \<Rightarrow> vm_state \<Rightarrow> u64" where
  "vm_endpoint_for_type vm_type s =
     (if vm_type = VM_PROFILE_SECONDARY then g_secondary_vmm_ep s else g_primary_vmm_ep s)"

definition vm_service_for_type :: "u32 \<Rightarrow> u32" where
  "vm_service_for_type vm_type =
     (if vm_type = VM_PROFILE_SECONDARY then SVC_ID_GUEST_VMM_SECONDARY else SVC_ID_GUEST_VMM_PRIMARY)"

definition dedicated_vmm_os_type :: "u32 \<Rightarrow> u32" where "dedicated_vmm_os_type vm_type = vm_type + 1"

definition dedicated_ram_base :: "u32 \<Rightarrow> u8 \<Rightarrow> u64" where
  "dedicated_ram_base vm_type slot_id =
     (if vm_type = VM_PROFILE_SECONDARY then AOS_SECONDARY_GUEST_RAM_BASE
      else if vm_type = VM_PROFILE_PRIMARY then AOS_PRIMARY_GUEST_RAM_BASE
      else VM_SLOT_RAM_BASE (ucast slot_id))"

definition dedicated_ram_capacity_mb :: "u32 \<Rightarrow> u32" where
  "dedicated_ram_capacity_mb vm_type =
     (if vm_type = VM_PROFILE_SECONDARY then AOS_SECONDARY_GUEST_RAM_MB else AOS_PRIMARY_GUEST_RAM_MB)"

definition dedicated_slot_for_type :: "u32 \<Rightarrow> vm_state \<Rightarrow> u8" where
  "dedicated_slot_for_type vm_type s =
     (if g_primary_vmm_ep s \<noteq> 0 \<and> g_secondary_vmm_ep s \<noteq> 0
      then (if vm_type = VM_PROFILE_PRIMARY then 0 else 1) else 0)"

section \<open>The guest protocol\<close>

definition guest_request :: "u32 \<Rightarrow> u8 list \<Rightarrow> sel4_msg" where
  "guest_request opcode payload =
     \<lparr>ms_opcode = opcode, ms_length = of_nat (length payload),
      ms_data = payload @ replicate (48 - length payload) 0\<rparr>"

text \<open>The result code and, for a successful call, the reply.\<close>

definition dedicated_guest_rpc :: "vm_env \<Rightarrow> u8 \<Rightarrow> u32 \<Rightarrow> u8 list \<Rightarrow> vm_state \<Rightarrow> (u32 \<times> sel4_msg) \<times> vm_state" where
  "dedicated_guest_rpc en slot_id opcode payload s =
     (let i = unat slot_id in
      if VM_MAX_SLOTS \<le> i \<or> g_slot_vmm_ep s ! i = 0 then ((VM_ERR, empty_msg), s)
      else if 48 < length payload then ((VM_ERR, empty_msg), s)
      else if opcode \<noteq> MSG_GUEST_CREATE \<and> (\<not> g_slot_guest_bound s ! i \<or> length payload < 4)
      then ((VM_ERR, empty_msg), s)
      else
        let req0 = guest_request opcode payload;
            req = (if opcode \<noteq> MSG_GUEST_CREATE then rep_u32 0 (g_slot_guest_id s ! i) req0 else req0) in
        case vmm_call en (g_slot_vmm_ep s ! i) req s of (rep, s1) \<Rightarrow>
          if ms_opcode rep \<noteq> GUEST_OK then ((VM_ERR, empty_msg), s1)
          else if opcode = MSG_GUEST_CREATE then
            (if ms_length rep \<noteq> 8 \<or> msg_u32 rep 0 \<noteq> GUEST_OK then ((VM_ERR, empty_msg), s1)
             else ((VM_OK, rep), s1\<lparr>g_slot_guest_id := (g_slot_guest_id s1)[i := msg_u32 rep 4],
                     g_slot_guest_bound := (g_slot_guest_bound s1)[i := True]\<rparr>))
          else ((VM_OK, rep), s1))"

definition dedicated_guest_call :: "vm_env \<Rightarrow> u8 \<Rightarrow> u32 \<Rightarrow> vm_slot_state \<Rightarrow> vm_state \<Rightarrow> u32 \<times> vm_state" where
  "dedicated_guest_call en slot_id opcode next_state s =
     (let payload = (if opcode = MSG_GUEST_DESTROY then [0, 0, 0, 0, GUEST_DESTROY_NORMAL, 0, 0, 0] else [0, 0, 0, 0]) in
      case dedicated_guest_rpc en slot_id opcode payload s of ((rc, _), s1) \<Rightarrow>
        if rc \<noteq> VM_OK then (VM_ERR, s1) else (VM_OK, set_slot_state (unat slot_id) next_state s1))"

definition release_slot :: "nat \<Rightarrow> vm_state \<Rightarrow> vm_state" where
  "release_slot i s =
     (let s1 = set_slot_state i VM_SLOT_FREE s in
      s1\<lparr>g_slot_vmm_ep := (g_slot_vmm_ep s1)[i := 0], g_slot_guest_id := (g_slot_guest_id s1)[i := 0],
         g_slot_guest_bound := (g_slot_guest_bound s1)[i := False],
         g_vm_types := (g_vm_types s1)[i := ucast VM_PROFILE_PRIMARY], g_vm_flags := (g_vm_flags s1)[i := 0],
         mx_slot_count := (if 0 < mx_slot_count s1 then mx_slot_count s1 - 1 else mx_slot_count s1)\<rparr>)"

definition claim_slot :: "u32 \<Rightarrow> u32 \<Rightarrow> u8 \<Rightarrow> vm_state \<Rightarrow> vm_state" where
  "claim_slot vm_type flags slot_id s =
     (let i = unat slot_id; ram_base = dedicated_ram_base vm_type slot_id;
          sl = (mx_slots s ! i)\<lparr>sl_id := slot_id, sl_state := VM_SLOT_RUNNING, sl_ram_vaddr := ram_base,
            sl_ram_size := push_bit 20 (ucast (dedicated_ram_capacity_mb vm_type)), sl_ram_paddr := ram_base,
            sl_vcpu_id := ucast slot_id,
            sl_label := vm_label_copy (sl_label (mx_slots s ! i)) (profile_label vm_type) 16\<rparr> in
      s\<lparr>mx_slots := (mx_slots s)[i := sl], g_vm_types := (g_vm_types s)[i := ucast vm_type],
        g_vm_flags := (g_vm_flags s)[i := flags],
        g_slot_vmm_ep := (g_slot_vmm_ep s)[i := vm_endpoint_for_type vm_type s],
        g_slot_guest_id := (g_slot_guest_id s)[i := 0],
        g_slot_guest_bound := (g_slot_guest_bound s)[i := False],
        mx_slot_count := mx_slot_count s + 1, mx_active_slot := slot_id\<rparr>)"

text \<open>CREATE, the two preparations and BOOT, stopping at the first that fails.\<close>

definition start_guest :: "vm_env \<Rightarrow> u32 \<Rightarrow> u8 \<Rightarrow> u64 \<Rightarrow> vm_state \<Rightarrow> bool \<times> vm_state" where
  "start_guest en vm_type slot_id ep s =
     (let os_type = dedicated_vmm_os_type vm_type;
          payload = [ucast (os_type AND 0xff), ucast (drop_bit 8 os_type AND 0xff),
                     ucast (drop_bit 16 os_type AND 0xff), ucast (drop_bit 24 os_type AND 0xff)] in
      case dedicated_guest_rpc en slot_id MSG_GUEST_CREATE payload s of ((rc, _), s1) \<Rightarrow>
        if rc \<noteq> VM_OK then (False, s1)
        else
          let client = (if ep = g_secondary_vmm_ep s1 then 1 else 0) in
          case aos_guest_gic_prepare en client s1 of (ok2, s2) \<Rightarrow>
            if \<not> ok2 then (False, s2)
            else case aos_guest_scheduling_configure en client s2 of (ok3, s3) \<Rightarrow>
              if \<not> ok3 then (False, s3)
              else case dedicated_guest_call en slot_id MSG_GUEST_BOOT VM_SLOT_RUNNING s3 of (rc4, s4) \<Rightarrow>
                (rc4 = VM_OK, s4))"

definition dedicated_create :: "vm_env \<Rightarrow> u32 \<Rightarrow> u32 \<Rightarrow> u32 \<Rightarrow> vm_state \<Rightarrow> (int \<times> u8) \<times> vm_state" where
  "dedicated_create en vm_type ram_mb flags s =
     (let ep = vm_endpoint_for_type vm_type s; capacity_mb = dedicated_ram_capacity_mb vm_type in
      if ep = 0 then ((- 1, 0xFF), s)
      else if capacity_mb < ram_mb then ((- 4, 0xFF), s)
      else
        let slot_id = dedicated_slot_for_type vm_type s in
        if VM_MAX_SLOTS \<le> unat slot_id then ((- 2, 0xFF), s)
        else if sl_state (mx_slots s ! unat slot_id) \<noteq> VM_SLOT_FREE then ((- 2, 0xFF), s)
        else case start_guest en vm_type slot_id ep (claim_slot vm_type flags slot_id s) of (ok, s1) \<Rightarrow>
          if \<not> ok then ((- 3, 0xFF), release_slot (unat slot_id) s1) else ((0, slot_id), s1))"

definition dedicated_destroy :: "vm_env \<Rightarrow> u8 \<Rightarrow> vm_state \<Rightarrow> u32 \<times> vm_state" where
  "dedicated_destroy en slot_id s =
     (case dedicated_guest_call en slot_id MSG_GUEST_DESTROY VM_SLOT_HALTED s of (rc, s1) \<Rightarrow>
        if rc \<noteq> VM_OK then (VM_ERR, s1) else (VM_OK, release_slot (unat slot_id) s1))"

section \<open>The credit scheduler\<close>

definition slot_runs :: "nat \<Rightarrow> vm_state \<Rightarrow> bool" where
  "slot_runs i s \<longleftrightarrow> sl_state (mx_slots s ! i) = VM_SLOT_RUNNING \<or> sl_state (mx_slots s ! i) = VM_SLOT_BOOTING"

definition runnable :: "nat \<Rightarrow> vm_state \<Rightarrow> bool" where
  "runnable i s \<longleftrightarrow> slot_runs i s \<and> 0 < qt_max_cpu_pct (g_quotas s ! i)"

definition quota_credits :: "u8 \<Rightarrow> int" where
  "quota_credits pct = sint (ucast pct * SCHED_CREDITS_PER_PCT :: u32)"

definition set_quota :: "nat \<Rightarrow> (vm_slot_quota \<Rightarrow> vm_slot_quota) \<Rightarrow> vm_state \<Rightarrow> vm_state" where
  "set_quota i f s = s\<lparr>g_quotas := (g_quotas s)[i := f (g_quotas s ! i)]\<rparr>"

definition recharge :: "nat \<Rightarrow> vm_state \<Rightarrow> vm_state" where
  "recharge i s = set_quota i (\<lambda>q. q\<lparr>qt_credits := quota_credits (qt_max_cpu_pct q)\<rparr>) s"

definition vm_sched_tick :: "vm_state \<Rightarrow> vm_state" where
  "vm_sched_tick s =
     (let cur = unat (g_sched_current s);
          s1 = fold (\<lambda>i s. if slot_runs i s then set_quota i (\<lambda>q. q\<lparr>qt_run_ticks := qt_run_ticks q + 1\<rparr>) s else s)
                 [0..<VM_MAX_SLOTS] s in
      if \<not> runnable cur s1 then
        (case find (\<lambda>i. runnable i s1) [0..<VM_MAX_SLOTS] of
           None \<Rightarrow> s1
         | Some i \<Rightarrow> recharge i (s1\<lparr>g_sched_current := of_nat i\<rparr>))
      else
        let s2 = set_quota cur (\<lambda>q. q\<lparr>qt_credits := qt_credits q - sint SCHED_CREDIT_QUANTUM\<rparr>) s1 in
        if 0 < qt_credits (g_quotas s2 ! cur) then s2
        else
          case find (\<lambda>i. runnable i s2 \<and> i \<noteq> cur) (map (\<lambda>step. (cur + step) mod VM_MAX_SLOTS) [1..<VM_MAX_SLOTS + 1]) of
            None \<Rightarrow> recharge cur s2
          | Some next \<Rightarrow>
              let s3 = set_quota cur (\<lambda>q. q\<lparr>qt_preempt_count := qt_preempt_count q + 1\<rparr>) s2;
                  s4 = snd (vmm_mux_pause (of_nat cur) s3);
                  s5 = recharge next s4;
                  s6 = snd (vmm_mux_resume (of_nat next) s5) in
              s6\<lparr>g_sched_current := of_nat next\<rparr>)"

definition vm_set_quota :: "u8 \<Rightarrow> u8 \<Rightarrow> vm_state \<Rightarrow> int \<times> vm_state" where
  "vm_set_quota slot_id cpu_pct s =
     (if VM_MAX_SLOTS \<le> unat slot_id then (- 1, s)
      else let pct = (if 100 < cpu_pct then 100 else cpu_pct) in
        (0, set_quota (unat slot_id) (\<lambda>q. q\<lparr>qt_max_cpu_pct := pct, qt_credits := quota_credits pct\<rparr>) s))"

definition label_prefix :: "u8 list \<Rightarrow> u8 list \<Rightarrow> u8 list" where
  "label_prefix dst src =
     (let t = takeWhile (\<lambda>c. c \<noteq> 0) (take 15 src);
          t' = (if length t < 15 then t @ [0] else t) in
      (t' @ drop (length t') dst)[15 := 0])"

definition vm_get_stats :: "u8 \<Rightarrow> u8 list \<Rightarrow> vm_state \<Rightarrow> vm_stats option" where
  "vm_get_stats slot_id label0 s =
     (if VM_MAX_SLOTS \<le> unat slot_id then None
      else let sl = mx_slots s ! unat slot_id; q = g_quotas s ! unat slot_id in
        Some \<lparr>st_slot_id = slot_id, st_state = ucast (slot_state_code (sl_state sl)), st_max_cpu_pct = qt_max_cpu_pct q,
          st_ram_mb = ucast (drop_bit 20 (sl_ram_size sl)), st_run_ticks = qt_run_ticks q,
          st_preempt_count = qt_preempt_count q, st_label = label_prefix label0 (sl_label sl)\<rparr>)"

definition vmm_set_affinity :: "u8 \<Rightarrow> u32 \<Rightarrow> vm_state \<Rightarrow> int \<times> vm_state" where
  "vmm_set_affinity slot_id cpu_mask s =
     (if VM_MAX_SLOTS \<le> unat slot_id then (- 1, s)
      else (0, s\<lparr>g_affinity := (g_affinity s)[unat slot_id := cpu_mask]\<rparr>))"

definition vmm_inject_irq :: "u8 \<Rightarrow> u32 \<Rightarrow> vm_state \<Rightarrow> int \<times> vm_state" where
  "vmm_inject_irq slot_id irq_num s = (if VM_MAX_SLOTS \<le> unat slot_id then (- 1, s) else (0, s))"

section \<open>Request handlers\<close>

type_synonym vm_out = "u32 \<times> sel4_msg \<times> vm_state"

definition reply4 :: "u32 \<Rightarrow> sel4_msg \<Rightarrow> sel4_msg" where
  "reply4 v rep = (rep_u32 0 v rep)\<lparr>ms_length := 4\<rparr>"

definition reply8 :: "u32 \<Rightarrow> u32 \<Rightarrow> sel4_msg \<Rightarrow> sel4_msg" where
  "reply8 v w rep = (rep_u32 4 w (rep_u32 0 v rep))\<lparr>ms_length := 8\<rparr>"

definition result_code :: "int \<Rightarrow> u32" where
  "result_code r = (if r = 0 then VM_OK else VM_ERR)"

definition rebalance :: "vm_state \<Rightarrow> vm_state" where
  "rebalance s =
     (let active = mx_slot_count s; share = (if 0 < active then 100 div active else 100) in
      fold (\<lambda>i s. if sl_state (mx_slots s ! i) \<noteq> VM_SLOT_FREE
              then set_quota i (\<lambda>q. q\<lparr>qt_max_cpu_pct := share, qt_credits := quota_credits share\<rparr>) s else s)
        [0..<VM_MAX_SLOTS] s)"

definition h_create :: "vm_env \<Rightarrow> sel4_msg \<Rightarrow> sel4_msg \<Rightarrow> vm_state \<Rightarrow> vm_out" where
  "h_create en req rep s =
     (let vm_type = vm_create_vm_type req; ram_mb = vm_create_ram_mb req; flags = vm_create_flags req in
      if vm_type \<noteq> VM_PROFILE_PRIMARY \<and> vm_type \<noteq> VM_PROFILE_SECONDARY then (SEL4_ERR_BAD_ARG, reply4 VM_ERR rep, s)
      else if ram_mb \<noteq> 0 \<and> (ram_mb < 64 \<or> ram_mb AND 3 \<noteq> 0) then (SEL4_ERR_BAD_ARG, reply4 VM_ERR rep, s)
      else case dedicated_create en vm_type ram_mb flags s of ((rc, slot_id), s1) \<Rightarrow>
        if rc = - 2 then (SEL4_ERR_BUSY, reply4 VM_ERR rep, s1)
        else if rc = - 3 then (SEL4_ERR_INTERNAL, reply4 VM_ERR rep, s1)
        else if rc = - 4 then (SEL4_ERR_BAD_ARG, reply4 VM_ERR rep, s1)
        else if rc = 0 then (SEL4_ERR_OK, reply8 VM_OK (ucast slot_id) rep, s1)
        else case vmm_mux_create s1 of (slot, s2) \<Rightarrow>
          if slot = 0xFF then (SEL4_ERR_NO_MEM, reply4 VM_ERR rep, s2)
          else
            let s3 = s2\<lparr>g_vm_types := (g_vm_types s2)[unat slot := ucast vm_type],
                        g_vm_flags := (g_vm_flags s2)[unat slot := flags]\<rparr> in
            (SEL4_ERR_OK, reply8 VM_OK (ucast slot) rep, rebalance s3))"

definition has_vmm :: "u8 \<Rightarrow> vm_state \<Rightarrow> bool" where
  "has_vmm slot_id s \<longleftrightarrow> unat slot_id < VM_MAX_SLOTS \<and> g_slot_vmm_ep s ! unat slot_id \<noteq> 0"

definition slot_used :: "u8 \<Rightarrow> vm_state \<Rightarrow> bool" where
  "slot_used slot_id s \<longleftrightarrow> unat slot_id < VM_MAX_SLOTS \<and> sl_state (mx_slots s ! unat slot_id) \<noteq> VM_SLOT_FREE"

definition h_destroy :: "vm_env \<Rightarrow> sel4_msg \<Rightarrow> sel4_msg \<Rightarrow> vm_state \<Rightarrow> vm_out" where
  "h_destroy en req rep s =
     (let slot_id = (ucast (vm_arg_u32 req 0) :: u8) in
      if has_vmm slot_id s then
        (case dedicated_destroy en slot_id s of (rc, s1) \<Rightarrow> (SEL4_ERR_OK, reply4 rc rep, s1))
      else case vmm_mux_destroy slot_id s of (r, s1) \<Rightarrow>
        let s2 = (if r = 0 \<and> unat slot_id < VM_MAX_SLOTS
          then s1\<lparr>g_vm_types := (g_vm_types s1)[unat slot_id := ucast VM_PROFILE_PRIMARY],
                  g_vm_flags := (g_vm_flags s1)[unat slot_id := 0]\<rparr> else s1) in
        (SEL4_ERR_OK, reply4 (result_code r) rep, s2))"

definition h_start :: "vm_env \<Rightarrow> sel4_msg \<Rightarrow> sel4_msg \<Rightarrow> vm_state \<Rightarrow> vm_out" where
  "h_start en req rep s =
     (let slot_id = (ucast (vm_arg_u32 req 0) :: u8) in
      case (if slot_used slot_id s then
              (if g_slot_vmm_ep s ! unat slot_id \<noteq> 0
               then dedicated_guest_call en slot_id MSG_GUEST_RESUME VM_SLOT_RUNNING s
               else if slot_runs (unat slot_id) s then (VM_OK, s)
               else case vmm_mux_resume slot_id s of (r, s1) \<Rightarrow> (result_code r, s1))
            else (VM_ERR, s)) of (result, s1) \<Rightarrow> (SEL4_ERR_OK, reply4 result rep, s1))"

definition h_stop :: "vm_env \<Rightarrow> sel4_msg \<Rightarrow> sel4_msg \<Rightarrow> vm_state \<Rightarrow> vm_out" where
  "h_stop en req rep s =
     (let slot_id = (ucast (vm_arg_u32 req 0) :: u8) in
      case (if slot_used slot_id s then
              (if g_slot_vmm_ep s ! unat slot_id \<noteq> 0
               then dedicated_guest_call en slot_id MSG_GUEST_SUSPEND VM_SLOT_SUSPENDED s
               else case vmm_mux_pause slot_id s of (r, s1) \<Rightarrow> (result_code r, s1))
            else (VM_ERR, s)) of (result, s1) \<Rightarrow> (SEL4_ERR_OK, reply4 result rep, s1))"

definition h_pause :: "vm_env \<Rightarrow> sel4_msg \<Rightarrow> sel4_msg \<Rightarrow> vm_state \<Rightarrow> vm_out" where
  "h_pause en req rep s =
     (let slot_id = (ucast (vm_arg_u32 req 0) :: u8) in
      if has_vmm slot_id s then
        (case dedicated_guest_call en slot_id MSG_GUEST_SUSPEND VM_SLOT_SUSPENDED s of (rc, s1) \<Rightarrow>
           (SEL4_ERR_OK, reply4 rc rep, s1))
      else case vmm_mux_pause slot_id s of (r, s1) \<Rightarrow> (SEL4_ERR_OK, reply4 (result_code r) rep, s1))"

definition h_resume :: "vm_env \<Rightarrow> sel4_msg \<Rightarrow> sel4_msg \<Rightarrow> vm_state \<Rightarrow> vm_out" where
  "h_resume en req rep s =
     (let slot_id = (ucast (vm_arg_u32 req 0) :: u8) in
      if has_vmm slot_id s then
        (case dedicated_guest_call en slot_id MSG_GUEST_RESUME VM_SLOT_RUNNING s of (rc, s1) \<Rightarrow>
           (SEL4_ERR_OK, reply4 rc rep, s1))
      else case vmm_mux_resume slot_id s of (r, s1) \<Rightarrow> (SEL4_ERR_OK, reply4 (result_code r) rep, s1))"

definition h_console :: "sel4_msg \<Rightarrow> sel4_msg \<Rightarrow> vm_state \<Rightarrow> vm_out" where
  "h_console req rep s =
     (let slot_id = (ucast (vm_arg_u32 req 0) :: u8) in
      if has_vmm slot_id s then (SEL4_ERR_OK, reply4 VM_OK rep, s\<lparr>mx_active_slot := slot_id\<rparr>)
      else case vmm_mux_switch slot_id s of (r, s1) \<Rightarrow> (SEL4_ERR_OK, reply4 (result_code r) rep, s1))"

definition h_send_input :: "vm_env \<Rightarrow> sel4_msg \<Rightarrow> sel4_msg \<Rightarrow> vm_state \<Rightarrow> vm_out" where
  "h_send_input en req rep s =
     (let slot_id = (ucast (vm_arg_u32 req 0) :: u8) in
      if \<not> slot_used slot_id s \<or> g_slot_vmm_ep s ! unat slot_id = 0 then (SEL4_ERR_NOT_FOUND, reply4 VM_ERR rep, s)
      else if ms_length req < 28 \<or> SEL4_MSG_DATA_BYTES < ms_length req then (SEL4_ERR_BAD_ARG, reply4 VM_ERR rep, s)
      else
        let input_len = unat (ms_length req - 4);
            payload = [0, 0, 0, 0] @ take input_len (drop 4 (ms_data req)) in
        case dedicated_guest_rpc en slot_id MSG_GUEST_SEND_INPUT payload s of ((rc, _), s1) \<Rightarrow>
          (if rc = VM_OK then SEL4_ERR_OK else SEL4_ERR_INTERNAL, reply4 rc rep, s1))"

definition h_console_drain :: "vm_env \<Rightarrow> sel4_msg \<Rightarrow> sel4_msg \<Rightarrow> vm_state \<Rightarrow> vm_out" where
  "h_console_drain en req rep s =
     (let slot_id = (ucast (vm_arg_u32 req 0) :: u8);
          max0 = vm_arg_u32 req 1;
          mx = (if VM_MANAGER_CONSOLE_INLINE_BYTES < max0 then VM_MANAGER_CONSOLE_INLINE_BYTES else max0) in
      if \<not> slot_used slot_id s \<or> g_slot_vmm_ep s ! unat slot_id = 0 then (SEL4_ERR_NOT_FOUND, reply8 VM_ERR 0 rep, s)
      else
        let payload = [0, 0, 0, 0, ucast (mx AND 0xff), ucast (drop_bit 8 mx AND 0xff),
                       ucast (drop_bit 16 mx AND 0xff), ucast (drop_bit 24 mx AND 0xff)] in
        case dedicated_guest_rpc en slot_id MSG_GUEST_CONSOLE_DRAIN payload s of ((rc, vrep), s1) \<Rightarrow>
          if rc \<noteq> VM_OK then (SEL4_ERR_INTERNAL, reply8 VM_ERR 0 rep, s1)
          else
            let n0 = ms_length vrep; n1 = (if mx < n0 then mx else n0);
                n = (if VM_MANAGER_CONSOLE_INLINE_BYTES < n1 then VM_MANAGER_CONSOLE_INLINE_BYTES else n1);
                m = rep_u32 4 n (rep_u32 0 VM_OK rep);
                d = fold (\<lambda>i d. d[8 + i := ms_data vrep ! i]) [0..<unat n] (ms_data m) in
            (SEL4_ERR_OK, m\<lparr>ms_data := d, ms_length := 8 + n\<rparr>, s1))"

definition h_info :: "sel4_msg \<Rightarrow> sel4_msg \<Rightarrow> vm_state \<Rightarrow> vm_out" where
  "h_info req rep s =
     (let slot_id = (ucast (vm_arg_u32 req 0) :: u8); i = unat slot_id in
      if VM_MAX_SLOTS \<le> i then (SEL4_ERR_BAD_ARG, reply4 VM_ERR rep, s)
      else
        let sl = mx_slots s ! i;
            m1 = rep_u32 12 (ucast (drop_bit 20 (sl_ram_size sl))) (rep_u32 8 (ucast (g_vm_types s ! i))
                   (rep_u32 4 (slot_state_code (sl_state sl)) (rep_u32 0 VM_OK rep)));
            m2 = rep_u64 36 (sl_ram_paddr sl) (rep_u64 28 (sl_ram_vaddr sl) (rep_u64 20 0 (rep_u32 16 1 m1)));
            m3 = rep_u32 44 (g_vm_flags s ! i) m2 in
        (SEL4_ERR_OK, m3\<lparr>ms_length := 48\<rparr>, s))"

fun list_slots :: "nat list \<Rightarrow> nat \<Rightarrow> vm_manager_list_entry list \<Rightarrow> vm_state \<Rightarrow> nat \<times> vm_manager_list_entry list" where
  "list_slots [] count entries s = (count, entries)"
| "list_slots (i # is) count entries s =
     (let sl = mx_slots s ! i in
      if sl_state sl \<noteq> VM_SLOT_FREE
      then list_slots is (count + 1)
        (entries[count := \<lparr>vl_slot_id = of_nat i, vl_state = ucast (slot_state_code (sl_state sl)),
           vl_vm_type = g_vm_types s ! i, vl_reserved = 0, vl_ram_mb = ucast (drop_bit 20 (sl_ram_size sl)),
           vl_label = label_prefix (vl_label (entries ! count)) (sl_label sl), vl_ram_gpa = sl_ram_paddr sl,
           vl_device_flags = g_vm_flags s ! i, vl_vmm_service_id = vm_service_for_type (ucast (g_vm_types s ! i))\<rparr>]) s
      else list_slots is count entries s)"

definition h_list :: "sel4_msg \<Rightarrow> vm_state \<Rightarrow> vm_out" where
  "h_list rep s =
     (case vm_list_shmem s of
        None \<Rightarrow> (SEL4_ERR_OK, reply8 VM_OK 0 rep, s)
      | Some entries \<Rightarrow>
          case list_slots [0..<VM_MAX_SLOTS] 0 entries s of (count, entries') \<Rightarrow>
            (SEL4_ERR_OK, reply8 VM_OK (of_nat count) rep, s\<lparr>vm_list_shmem := Some entries'\<rparr>))"

definition h_snapshot_restore :: "sel4_msg \<Rightarrow> vm_state \<Rightarrow> vm_out" where
  "h_snapshot_restore rep s = (SEL4_ERR_OK, reply4 VM_NOT_IMPL rep, s)"

definition h_configure :: "sel4_msg \<Rightarrow> sel4_msg \<Rightarrow> vm_state \<Rightarrow> vm_out" where
  "h_configure req rep s =
     (let slot_id = (ucast (vm_arg_u32 req 0) :: u8); new_ram_mb = vm_arg_u32 req 1;
          cpu_budget_us = vm_arg_u32 req 2; cpu_period_us = vm_arg_u32 req 3 in
      if \<not> slot_used slot_id s then (SEL4_ERR_NOT_FOUND, reply4 VM_ERR rep, s)
      else
        let current_ram_mb = ucast (drop_bit 20 (sl_ram_size (mx_slots s ! unat slot_id))) in
        if new_ram_mb \<noteq> 0 \<and> new_ram_mb \<noteq> current_ram_mb then (SEL4_ERR_OK, reply4 VM_NOT_IMPL rep, s)
        else
          let s1 = (if cpu_budget_us \<noteq> 0 \<and> cpu_period_us \<noteq> 0 then
                let pct = (if cpu_period_us \<le> cpu_budget_us then 100 else cpu_budget_us * 100 div cpu_period_us) in
                snd (vm_set_quota slot_id (ucast pct) s) else s) in
          (SEL4_ERR_OK, reply4 VM_OK rep, s1))"

definition h_set_quota :: "sel4_msg \<Rightarrow> sel4_msg \<Rightarrow> vm_state \<Rightarrow> vm_out" where
  "h_set_quota req rep s =
     (case vm_set_quota (ucast (vm_arg_u32 req 0)) (ucast (vm_arg_u32 req 1)) s of (r, s1) \<Rightarrow>
        (SEL4_ERR_OK, reply4 (result_code r) rep, s1))"

definition h_get_stats :: "sel4_msg \<Rightarrow> sel4_msg \<Rightarrow> vm_state \<Rightarrow> vm_out" where
  "h_get_stats req rep s =
     (case vm_get_stats (ucast (vm_arg_u32 req 0)) (replicate 16 0) s of
        None \<Rightarrow> (SEL4_ERR_NOT_FOUND, reply4 VM_ERR rep, s)
      | Some stats \<Rightarrow>
          (SEL4_ERR_OK,
           (rep_u64 20 (st_preempt_count stats) (rep_u64 12 (st_run_ticks stats)
             (rep_u32 8 (ucast (st_max_cpu_pct stats)) (rep_u32 4 (ucast (st_state stats)) (rep_u32 0 VM_OK rep)))))
             \<lparr>ms_length := 28\<rparr>, s))"

definition h_set_affinity :: "sel4_msg \<Rightarrow> sel4_msg \<Rightarrow> vm_state \<Rightarrow> vm_out" where
  "h_set_affinity req rep s =
     (case vmm_set_affinity (ucast (vm_arg_u32 req 0)) (vm_arg_u32 req 1) s of (r, s1) \<Rightarrow>
        (SEL4_ERR_OK, reply4 (result_code r) rep, s1))"

definition h_inject_irq :: "sel4_msg \<Rightarrow> sel4_msg \<Rightarrow> vm_state \<Rightarrow> vm_out" where
  "h_inject_irq req rep s =
     (case vmm_inject_irq (ucast (vm_arg_u32 req 0)) (vm_arg_u32 req 1) s of (r, s1) \<Rightarrow>
        (SEL4_ERR_OK, reply4 (result_code r) rep, s1))"


section \<open>Start-up and service loop\<close>

definition vm_register_msg :: sel4_msg where
  "vm_register_msg =
     \<lparr>ms_opcode = 0xD0, ms_length = 48,
      ms_data = replicate 12 0 @ [1, 0, 0, 0] @ map of_char ''vm_manager'' @ replicate 22 0\<rparr>"

definition vm_manager_register_with_nameserver :: "u64 \<Rightarrow> vm_state \<Rightarrow> vm_state" where
  "vm_manager_register_with_nameserver ns_ep s =
     (if ns_ep = 0 then s else s\<lparr>vm_trace := vm_trace s @ [VmRegister ns_ep vm_register_msg]\<rparr>)"

definition vm_manager_init :: "vm_state \<Rightarrow> vm_state" where
  "vm_manager_init s =
     (vmm_mux_init s)\<lparr>g_primary_vmm_ep := PD_CNODE_SLOT_GUEST_VMM_PRIMARY_EP,
       g_secondary_vmm_ep := PD_CNODE_SLOT_GUEST_VMM_SECONDARY_EP,
       g_quotas := replicate VM_MAX_SLOTS
         \<lparr>qt_max_cpu_pct = 100 div of_nat VM_MAX_SLOTS, qt_credits = 0, qt_run_ticks = 0, qt_preempt_count = 0\<rparr>,
       g_affinity := replicate VM_MAX_SLOTS 0xFFFFFFFF,
       g_vm_types := replicate VM_MAX_SLOTS (ucast VM_PROFILE_PRIMARY),
       g_vm_flags := replicate VM_MAX_SLOTS 0,
       g_slot_vmm_ep := replicate VM_MAX_SLOTS 0,
       g_slot_guest_id := replicate VM_MAX_SLOTS 0,
       g_slot_guest_bound := replicate VM_MAX_SLOTS False,
       g_sched_current := 0\<rparr>"

definition vm_handlers :: "vm_env \<Rightarrow> (u32 \<times> vm_state handler) list" where
  "vm_handlers en =
    [(OP_VM_CREATE, \<lambda>r ba. h_create en), (OP_VM_DESTROY, \<lambda>r ba. h_destroy en), (OP_VM_START, \<lambda>r ba. h_start en),
     (OP_VM_STOP, \<lambda>r ba. h_stop en), (OP_VM_PAUSE, \<lambda>r ba. h_pause en), (OP_VM_RESUME, \<lambda>r ba. h_resume en),
     (OP_VM_CONSOLE, \<lambda>r ba. h_console), (OP_VM_INFO, \<lambda>r ba. h_info), (OP_VM_LIST, \<lambda>r ba req. h_list),
     (OP_VM_SNAPSHOT, \<lambda>r ba req. h_snapshot_restore), (OP_VM_RESTORE, \<lambda>r ba req. h_snapshot_restore),
     (OP_VM_CONFIGURE, \<lambda>r ba. h_configure), (OP_VM_SEND_INPUT, \<lambda>r ba. h_send_input en),
     (OP_VM_CONSOLE_DRAIN, \<lambda>r ba. h_console_drain en), (OP_VM_SET_QUOTA, \<lambda>r ba. h_set_quota),
     (OP_VM_GET_STATS, \<lambda>r ba. h_get_stats), (OP_VM_SET_AFFINITY, \<lambda>r ba. h_set_affinity),
     (OP_VM_INJECT_IRQ, \<lambda>r ba. h_inject_irq)]"

definition vm_srv :: "vm_env \<Rightarrow> u64 \<Rightarrow> vm_state sel4_server" where
  "vm_srv en my_ep =
     fold (\<lambda>(opcode, fn) srv. snd (sel4_server_register opcode fn srv)) (vm_handlers en) (sel4_server_init my_ep)"

definition vm_count_ipc :: "vm_state \<Rightarrow> vm_state" where
  "vm_count_ipc s =
     (let c = g_ipc_counter s + 1 in
      if VM_SCHED_IPC_QUANTUM \<le> c then vm_sched_tick (s\<lparr>g_ipc_counter := 0\<rparr>) else s\<lparr>g_ipc_counter := c\<rparr>)"

text \<open>The manager's own loop: the server pass of \<open>sel4_server.h\<close> with the tick before the dispatch.\<close>

fun vm_passes :: "vm_env \<Rightarrow> u64 \<Rightarrow> (sel4_badge \<times> mrs) list \<Rightarrow> sel4_msg \<times> vm_state \<Rightarrow> mrs list \<times> vm_state" where
  "vm_passes en my_ep [] st = ([], snd st)"
| "vm_passes en my_ep (inp # inps) st =
     (let st' = server_pass (vm_srv en my_ep) inp (fst st, vm_count_ipc (snd st)) in
      case vm_passes en my_ep inps st' of (reps, s) \<Rightarrow> (sel4_msg_to_mrs (fst st') (snd inp) # reps, s))"

definition vm_manager_main :: "vm_env \<Rightarrow> u64 \<Rightarrow> u64 \<Rightarrow> (sel4_badge \<times> mrs) list \<Rightarrow> vm_state \<Rightarrow> mrs list \<times> vm_state" where
  "vm_manager_main en my_ep ns_ep inps s =
     vm_passes en my_ep inps (empty_msg, vm_manager_register_with_nameserver ns_ep (vm_manager_init s))"

end
