(* ===== verification/VmSched.thy ===== *)
theory VmSched
  imports VmManager
begin

text \<open>
  The VM manager's credit scheduler: the tick of \<open>vm_sched_tick\<close> refines a step on the current slot and the
  credits of the slots, and a runnable slot becomes the current one after a bounded number of ticks.
\<close>

section \<open>The credit scheduler\<close>

text \<open>The scheduler as a step on the current slot and the credits, for given shares and a given set of runnable slots.\<close>

type_synonym sched = "nat \<times> (nat \<Rightarrow> int)"

definition rotation :: "nat \<Rightarrow> nat list" where
  "rotation cur = map (\<lambda>step. (cur + step) mod VM_MAX_SLOTS) [1..<VM_MAX_SLOTS + 1]"

definition tick_spec :: "(nat \<Rightarrow> bool) \<Rightarrow> (nat \<Rightarrow> int) \<Rightarrow> sched \<Rightarrow> sched" where
  "tick_spec run share sc =
     (case sc of (cur, cr) \<Rightarrow>
        if \<not> run cur then
          (case find run [0..<VM_MAX_SLOTS] of None \<Rightarrow> (cur, cr) | Some i \<Rightarrow> (i, cr(i := share i)))
        else if 1 < cr cur then (cur, cr(cur := cr cur - 1))
        else
          case find (\<lambda>i. run i \<and> i \<noteq> cur) (rotation cur) of
            None \<Rightarrow> (cur, cr(cur := share cur))
          | Some n \<Rightarrow> (n, cr(cur := cr cur - 1, n := share n)))"

definition slot_share :: "vm_state \<Rightarrow> nat \<Rightarrow> int" where
  "slot_share s i = quota_credits (qt_max_cpu_pct (g_quotas s ! i))"

definition sched_abs :: "vm_state \<Rightarrow> sched" where
  "sched_abs s = (unat (g_sched_current s), \<lambda>i. if i < VM_MAX_SLOTS then qt_credits (g_quotas s ! i) else 0)"

text \<open>States that differ in the quotas' credits and statistics and in the current slot only.\<close>

definition same_but_sched :: "vm_state \<Rightarrow> vm_state \<Rightarrow> bool" where
  "same_but_sched s s' \<longleftrightarrow> s' = s\<lparr>g_quotas := g_quotas s', g_sched_current := g_sched_current s'\<rparr> \<and>
     length (g_quotas s') = length (g_quotas s) \<and>
     (\<forall>i < length (g_quotas s). qt_max_cpu_pct (g_quotas s' ! i) = qt_max_cpu_pct (g_quotas s ! i))"

lemma same_sched_refl [simp]: "same_but_sched s s"
  by (simp add: same_but_sched_def)

lemma same_sched_trans:
  assumes "same_but_sched s t" "same_but_sched t u" shows "same_but_sched s u"
proof -
  obtain Q c where "t = s\<lparr>g_quotas := Q, g_sched_current := c\<rparr>"
    using assms(1) by (simp only: same_but_sched_def) blast
  moreover obtain Q' c' where "u = t\<lparr>g_quotas := Q', g_sched_current := c'\<rparr>"
    using assms(2) by (simp only: same_but_sched_def) blast
  ultimately have "u = s\<lparr>g_quotas := g_quotas u, g_sched_current := g_sched_current u\<rparr>" by simp
  with assms show ?thesis by (simp add: same_but_sched_def)
qed

lemma set_quota_same:
  "(\<And>q. qt_max_cpu_pct (f q) = qt_max_cpu_pct q) \<Longrightarrow> same_but_sched s (set_quota i f s)"
  by (cases "i < length (g_quotas s)")
    (auto simp: same_but_sched_def set_quota_def nth_list_update list_update_beyond not_less)

lemma same_sched_current: "same_but_sched s (s\<lparr>g_sched_current := c\<rparr>)"
  by (simp add: same_but_sched_def)

lemma same_schedE:
  assumes "same_but_sched s s'"
  obtains Q c where "s' = s\<lparr>g_quotas := Q, g_sched_current := c\<rparr>" "length Q = length (g_quotas s)"
    "\<And>i. i < length (g_quotas s) \<Longrightarrow> qt_max_cpu_pct (Q ! i) = qt_max_cpu_pct (g_quotas s ! i)"
proof (rule that)
  show "s' = s\<lparr>g_quotas := g_quotas s', g_sched_current := g_sched_current s'\<rparr>"
    using assms by (simp only: same_but_sched_def)
qed (use assms in \<open>simp_all only: same_but_sched_def\<close>)

lemma same_sched_runnable:
  assumes "same_but_sched s s'" "length (g_quotas s) = VM_MAX_SLOTS" "i < VM_MAX_SLOTS"
  shows "runnable i s' = runnable i s" "slot_share s' i = slot_share s i"
proof -
  obtain Q c where "s' = s\<lparr>g_quotas := Q, g_sched_current := c\<rparr>"
    "qt_max_cpu_pct (Q ! i) = qt_max_cpu_pct (g_quotas s ! i)"
    using assms by (auto elim!: same_schedE)
  then show "runnable i s' = runnable i s" "slot_share s' i = slot_share s i"
    by (simp_all add: runnable_def slot_runs_def slot_share_def)
qed

lemma sched_abs_set_quota:
  "length (g_quotas s) = VM_MAX_SLOTS \<Longrightarrow> i < VM_MAX_SLOTS \<Longrightarrow>
     sched_abs (set_quota i f s) = (fst (sched_abs s), (snd (sched_abs s))(i := qt_credits (f (g_quotas s ! i))))"
  by (auto simp: sched_abs_def set_quota_def nth_list_update)

lemma sched_abs_stats:
  "length (g_quotas s) = VM_MAX_SLOTS \<Longrightarrow> (\<And>q. qt_credits (f q) = qt_credits q) \<Longrightarrow> sched_abs (set_quota i f s) = sched_abs s"
  by (cases "i < VM_MAX_SLOTS")
    (auto simp: sched_abs_def set_quota_def nth_list_update list_update_beyond not_less fun_eq_iff)

lemma count_run_ticks:
  assumes "length (g_quotas s) = VM_MAX_SLOTS"
  defines "f \<equiv> \<lambda>i s. if slot_runs i s then set_quota i (\<lambda>q. q\<lparr>qt_run_ticks := qt_run_ticks q + 1\<rparr>) s else s"
  shows "same_but_sched s (fold f is s) \<and> sched_abs (fold f is s) = sched_abs s"
  using assms(1)
proof (induction "is" arbitrary: s)
  case (Cons i "is")
  have "same_but_sched s (f i s)" "sched_abs (f i s) = sched_abs s"
    using Cons.prems by (simp_all add: f_def set_quota_same sched_abs_stats)
  moreover have "length (g_quotas (f i s)) = VM_MAX_SLOTS" using Cons.prems by (simp add: f_def set_quota_def)
  ultimately show ?case using Cons.IH same_sched_trans by fastforce
qed simp


lemma unat_slot [simp]: "i < VM_MAX_SLOTS \<Longrightarrow> unat (of_nat i :: u8) = i"
  by (simp add: VM_MAX_SLOTS_def unat_of_nat)

lemma recharge_same: "same_but_sched s (recharge i s)"
  by (simp add: recharge_def set_quota_same)

lemma sched_abs_recharge:
  "length (g_quotas s) = VM_MAX_SLOTS \<Longrightarrow> i < VM_MAX_SLOTS \<Longrightarrow>
     sched_abs (recharge i s) = (fst (sched_abs s), (snd (sched_abs s))(i := slot_share s i))"
  by (simp add: recharge_def sched_abs_set_quota slot_share_def)

lemma sched_abs_current:
  "i < VM_MAX_SLOTS \<Longrightarrow> sched_abs (s\<lparr>g_sched_current := of_nat i\<rparr>) = (i, snd (sched_abs s))"
  by (simp add: sched_abs_def fun_eq_iff)

lemma set_quota_length [simp]:
  "length (g_quotas (set_quota i f s)) = length (g_quotas s)" "length (g_quotas (recharge i s)) = length (g_quotas s)"
  by (simp_all add: recharge_def set_quota_def)

lemma slot_share_other [simp]:
  "slot_share (s\<lparr>g_sched_current := c\<rparr>) = slot_share s"
  by (simp add: slot_share_def fun_eq_iff)

lemma find_slot: "find P xs = Some i \<Longrightarrow> set xs \<subseteq> {..<n} \<Longrightarrow> i < n \<and> P i"
  by (auto simp: find_Some_iff dest!: nth_mem)

lemma find_runnable:
  assumes "same_but_sched s s'" "length (g_quotas s) = VM_MAX_SLOTS" "set xs \<subseteq> {..<VM_MAX_SLOTS}"
  shows "find (\<lambda>i. runnable i s' \<and> P i) xs = find (\<lambda>i. runnable i s \<and> P i) xs"
  by (rule find_cong [OF refl]) (use assms same_sched_runnable(1) in auto)

lemma rotation_slots: "set (rotation cur) \<subseteq> {..<VM_MAX_SLOTS}"
  by (auto simp: rotation_def VM_MAX_SLOTS_def)

text \<open>What follows the statistics: the credits and the choice of the next slot.\<close>

definition tick_choice :: "vm_state \<Rightarrow> vm_state" where
  "tick_choice s =
     (let cur = unat (g_sched_current s) in
      if \<not> runnable cur s then
        (case find (\<lambda>i. runnable i s) [0..<VM_MAX_SLOTS] of
           None \<Rightarrow> s
         | Some i \<Rightarrow> recharge i (s\<lparr>g_sched_current := of_nat i\<rparr>))
      else
        let s2 = set_quota cur (\<lambda>q. q\<lparr>qt_credits := qt_credits q - 1\<rparr>) s in
        if 0 < qt_credits (g_quotas s2 ! cur) then s2
        else
          case find (\<lambda>i. runnable i s2 \<and> i \<noteq> cur) (rotation cur) of
            None \<Rightarrow> recharge cur s2
          | Some next \<Rightarrow>
              (recharge next (set_quota cur (\<lambda>q. q\<lparr>qt_preempt_count := qt_preempt_count q + 1\<rparr>) s2))
                \<lparr>g_sched_current := of_nat next\<rparr>)"

lemma vm_sched_tick_eq:
  "vm_sched_tick s = tick_choice
     (fold (\<lambda>i s. if slot_runs i s then set_quota i (\<lambda>q. q\<lparr>qt_run_ticks := qt_run_ticks q + 1\<rparr>) s else s) [0..<VM_MAX_SLOTS] s)"
  (is "_ = tick_choice (fold ?f ?is s)")
proof -
  have "g_sched_current (fold ?f js s) = g_sched_current s" for js
    by (induction js arbitrary: s) (simp_all add: set_quota_def)
  then show ?thesis
    by (simp add: vm_sched_tick_def tick_choice_def rotation_def Let_def vmm_mux_pause_def vmm_mux_resume_def
        SCHED_CREDIT_QUANTUM_def cong: option.case_cong if_cong)
qed

lemma tick_choice_idle:
  assumes len: "length (g_quotas s) = VM_MAX_SLOTS" and idle: "\<not> runnable (unat (g_sched_current s)) s"
  shows "same_but_sched s (tick_choice s) \<and>
    sched_abs (tick_choice s) = tick_spec (\<lambda>i. runnable i s) (slot_share s) (sched_abs s)"
proof -
  obtain cr where ab: "sched_abs s = (unat (g_sched_current s), cr)" by (simp add: sched_abs_def)
  show ?thesis
  proof (cases "find (\<lambda>i. runnable i s) [0..<VM_MAX_SLOTS]")
    case None
    then show ?thesis using idle by (simp add: tick_choice_def tick_spec_def ab)
  next
    case (Some i)
    then have "i < VM_MAX_SLOTS" using find_slot [OF Some, of VM_MAX_SLOTS] by (simp add: lessThan_atLeast0)
    then show ?thesis
      using idle Some len same_sched_trans [OF same_sched_current recharge_same]
      by (simp add: tick_choice_def tick_spec_def sched_abs_recharge sched_abs_current ab)
  qed
qed

lemma tick_choice_refines:
  assumes len: "length (g_quotas s) = VM_MAX_SLOTS" and cur: "unat (g_sched_current s) < VM_MAX_SLOTS"
  shows "same_but_sched s (tick_choice s) \<and>
    sched_abs (tick_choice s) = tick_spec (\<lambda>i. runnable i s) (slot_share s) (sched_abs s)"
proof -
  let ?cur = "unat (g_sched_current s)"
  let ?s2 = "set_quota ?cur (\<lambda>q. q\<lparr>qt_credits := qt_credits q - 1\<rparr>) s"
  let ?s3 = "set_quota ?cur (\<lambda>q. q\<lparr>qt_preempt_count := qt_preempt_count q + 1\<rparr>) ?s2"
  have s2: "same_but_sched s ?s2" by (simp add: set_quota_same)
  have s3: "same_but_sched s ?s3" by (rule same_sched_trans [OF s2 set_quota_same]) simp
  have abs2: "sched_abs ?s2 = (?cur, (snd (sched_abs s))(?cur := snd (sched_abs s) ?cur - 1))"
    using len cur by (simp add: sched_abs_set_quota) (simp add: sched_abs_def)
  have abs3: "sched_abs ?s3 = sched_abs ?s2" using len by (simp add: sched_abs_stats)
  have cr2: "qt_credits (g_quotas ?s2 ! ?cur) = snd (sched_abs s) ?cur - 1"
    using len cur by (simp add: set_quota_def sched_abs_def)
  obtain cr where ab: "sched_abs s = (?cur, cr)" by (simp add: sched_abs_def)
  note fr = find_runnable [OF s2 len rotation_slots, of "\<lambda>i. i \<noteq> ?cur" ?cur]
  consider "\<not> runnable ?cur s" | "runnable ?cur s" "1 < snd (sched_abs s) ?cur" | "runnable ?cur s" "\<not> 1 < snd (sched_abs s) ?cur"
    by blast
  then show ?thesis
  proof cases
    case 1
    then show ?thesis using tick_choice_idle [OF len] by simp
  next
    case 2
    then show ?thesis using s2 abs2 cr2 ab by (simp add: tick_choice_def tick_spec_def Let_def)
  next
    case 3
    show ?thesis
    proof (cases "find (\<lambda>i. runnable i s \<and> i \<noteq> ?cur) (rotation ?cur)")
      case None
      then have "tick_choice s = recharge ?cur ?s2" using 3 fr cr2 by (simp add: tick_choice_def Let_def)
      then show ?thesis
        using 3 None len cur s2 abs2 same_sched_trans [OF s2 recharge_same] same_sched_runnable(2) [OF s2 len cur]
        by (simp add: tick_spec_def sched_abs_recharge ab)
    next
      case (Some n)
      then have n: "n < VM_MAX_SLOTS" using find_slot rotation_slots by blast
      have "tick_choice s = (recharge n ?s3)\<lparr>g_sched_current := of_nat n\<rparr>"
        using 3 fr cr2 Some by (simp add: tick_choice_def Let_def)
      then show ?thesis
        using 3 Some len cur n abs2 abs3 same_sched_runnable(2) [OF s3 len n]
          same_sched_trans [OF same_sched_trans [OF s3 recharge_same] same_sched_current]
        by (simp add: tick_spec_def sched_abs_recharge sched_abs_current ab)
    qed
  qed
qed


lemma tick_spec_cong:
  assumes "\<And>i. i < VM_MAX_SLOTS \<Longrightarrow> run i = run' i" "\<And>i. i < VM_MAX_SLOTS \<Longrightarrow> share i = share' i" "fst sc < VM_MAX_SLOTS"
  shows "tick_spec run share sc = tick_spec run' share' sc"
proof -
  have "find run [0..<VM_MAX_SLOTS] = find run' [0..<VM_MAX_SLOTS]"
    by (rule find_cong [OF refl]) (use assms in auto)
  moreover have "find (\<lambda>i. run i \<and> i \<noteq> fst sc) (rotation (fst sc)) =
      find (\<lambda>i. run' i \<and> i \<noteq> fst sc) (rotation (fst sc))"
    by (rule find_cong [OF refl]) (use assms rotation_slots [of "fst sc"] in auto)
  moreover have "i < VM_MAX_SLOTS" if "find run' [0..<VM_MAX_SLOTS] = Some i" for i
    using find_slot [OF that, of VM_MAX_SLOTS] by (simp add: lessThan_atLeast0)
  moreover have "i < VM_MAX_SLOTS" if "find (\<lambda>i. run' i \<and> i \<noteq> fst sc) (rotation (fst sc)) = Some i" for i
    using find_slot [OF that rotation_slots] by simp
  ultimately show ?thesis
    using assms by (cases sc) (auto simp: tick_spec_def split: option.splits)
qed

lemma tick_refines:
  assumes len: "length (g_quotas s) = VM_MAX_SLOTS" and cur: "unat (g_sched_current s) < VM_MAX_SLOTS"
  shows "same_but_sched s (vm_sched_tick s)"
    "sched_abs (vm_sched_tick s) = tick_spec (\<lambda>i. runnable i s) (slot_share s) (sched_abs s)"
proof -
  let ?s1 = "fold (\<lambda>i s. if slot_runs i s then set_quota i (\<lambda>q. q\<lparr>qt_run_ticks := qt_run_ticks q + 1\<rparr>) s else s)
    [0..<VM_MAX_SLOTS] s"
  have c: "same_but_sched s ?s1" "sched_abs ?s1 = sched_abs s" using count_run_ticks [OF len] by blast+
  have l1: "length (g_quotas ?s1) = VM_MAX_SLOTS" using c(1) len by (auto elim!: same_schedE)
  have "unat (g_sched_current ?s1) < VM_MAX_SLOTS" using c(2) cur by (simp add: sched_abs_def)
  note r = tick_choice_refines [OF l1 this]
  show "same_but_sched s (vm_sched_tick s)" using same_sched_trans [OF c(1)] r by (simp add: vm_sched_tick_eq)
  have "tick_spec (\<lambda>i. runnable i ?s1) (slot_share ?s1) (sched_abs s) = tick_spec (\<lambda>i. runnable i s) (slot_share s) (sched_abs s)"
    by (rule tick_spec_cong) (use same_sched_runnable [OF c(1) len] cur in \<open>auto simp: sched_abs_def\<close>)
  then show "sched_abs (vm_sched_tick s) = tick_spec (\<lambda>i. runnable i s) (slot_share s) (sched_abs s)"
    using r c(2) by (simp add: vm_sched_tick_eq)
qed

section \<open>Every runnable slot gets its turn\<close>

definition quota_ok :: "vm_slot_quota \<Rightarrow> bool" where
  "quota_ok q \<longleftrightarrow> qt_max_cpu_pct q \<le> 100 \<and> - 1 \<le> qt_credits q \<and> qt_credits q \<le> 400"

lemma quota_credits_share: "pct \<le> 100 \<Longrightarrow> quota_credits pct = 4 * uint pct"
proof -
  assume p: "pct \<le> 100"
  then have "uint pct \<le> 100" by (simp add: word_le_def)
  then have "uint (ucast pct * 4 :: u32) = 4 * uint pct"
    by (simp add: uint_word_ariths uint_up_ucast is_up mult.commute)
  moreover have "signed_take_bit 31 (4 * uint pct) = 4 * uint pct"
    using \<open>uint pct \<le> 100\<close> by (intro signed_take_bit_int_eq_self) (simp_all add: order_trans [OF _ uint_ge_0])
  ultimately show ?thesis
    by (simp add: quota_credits_def SCHED_CREDITS_PER_PCT_def sint_uint)
qed

lemma quota_credits_bounds: "pct \<le> 100 \<Longrightarrow> 0 \<le> quota_credits pct \<and> quota_credits pct \<le> 400"
  using quota_credits_share by (simp add: word_le_def)

text \<open>
  How many ticks at most until slot \<open>i\<close> is current: 401 for each slot before it in the rotation plus the
  remaining credits of the current one, or a full round when the current slot cannot run.
\<close>

definition turns_left :: "(nat \<Rightarrow> bool) \<Rightarrow> nat \<Rightarrow> sched \<Rightarrow> nat" where
  "turns_left run i sc =
     (if run (fst sc) then 401 * ((i + VM_MAX_SLOTS - fst sc) mod VM_MAX_SLOTS) + nat (snd sc (fst sc)) else 1604)"

lemma slot_cases: "i < VM_MAX_SLOTS \<Longrightarrow> i = 0 \<or> i = 1 \<or> i = 2 \<or> i = 3"
  by (auto simp: VM_MAX_SLOTS_def)

lemma rotations:
  "rotation 0 = [1, 2, 3, 0]" "rotation 1 = [2, 3, 0, 1]" "rotation 2 = [3, 0, 1, 2]" "rotation 3 = [0, 1, 2, 3]"
  by code_simp+

lemma tick_spec_progress:
  assumes "cur < VM_MAX_SLOTS" "i < VM_MAX_SLOTS" "run i" "cur \<noteq> i" "\<And>j. share j \<le> 400"
  shows "turns_left run i (tick_spec run share (cur, cr)) < turns_left run i (cur, cr)"
    "fst (tick_spec run share (cur, cr)) < VM_MAX_SLOTS"
proof -
  have nat: "nat (share j) \<le> 400" for j using assms(5) [of j] by simp
  have f: "find run [0..<VM_MAX_SLOTS] \<noteq> None" using assms(2,3) by (auto simp: find_None_iff)
  have f': "k < VM_MAX_SLOTS \<and> run k" if "find run [0..<VM_MAX_SLOTS] = Some k" for k
    using find_slot [OF that, of VM_MAX_SLOTS] by (simp add: lessThan_atLeast0)
  have r: "find (\<lambda>j. run j \<and> j \<noteq> cur) (rotation cur) = Some n \<Longrightarrow>
      n < VM_MAX_SLOTS \<and> run n \<and> (i + VM_MAX_SLOTS - n) mod VM_MAX_SLOTS < (i + VM_MAX_SLOTS - cur) mod VM_MAX_SLOTS" for n
    using assms(1-4) slot_cases [OF assms(1)] slot_cases [OF assms(2)]
    by (elim disjE) (auto simp: rotations VM_MAX_SLOTS_def simp del: One_nat_def split: if_splits)
  have r': "find (\<lambda>j. run j \<and> j \<noteq> cur) (rotation cur) \<noteq> None"
    using assms(1-4) slot_cases [OF assms(1)] slot_cases [OF assms(2)]
    by (elim disjE) (auto simp: rotations simp del: One_nat_def)
  have m: "(i + VM_MAX_SLOTS - k) mod VM_MAX_SLOTS \<le> 3" for k by (simp add: VM_MAX_SLOTS_def)
  consider (idle) k where "\<not> run cur" "tick_spec run share (cur, cr) = (k, cr(k := share k))" "k < VM_MAX_SLOTS" "run k"
    | (stay) "run cur" "1 < cr cur" "tick_spec run share (cur, cr) = (cur, cr(cur := cr cur - 1))"
    | (turn) n where "run cur" "tick_spec run share (cur, cr) = (n, cr(cur := cr cur - 1, n := share n))"
        "find (\<lambda>j. run j \<and> j \<noteq> cur) (rotation cur) = Some n"
    using f f' r' by (cases "run cur"; cases "1 < cr cur") (auto simp: tick_spec_def)
  then have "turns_left run i (tick_spec run share (cur, cr)) < turns_left run i (cur, cr) \<and>
    fst (tick_spec run share (cur, cr)) < VM_MAX_SLOTS"
  proof cases
    case (idle k)
    then show ?thesis using nat [of k] m [of k] by (simp add: turns_left_def)
  next
    case stay
    then show ?thesis using assms(1) by (simp add: turns_left_def)
  next
    case (turn n)
    then show ?thesis using r [OF turn(3)] nat [of n] by (simp add: turns_left_def)
  qed
  then show "turns_left run i (tick_spec run share (cur, cr)) < turns_left run i (cur, cr)"
    "fst (tick_spec run share (cur, cr)) < VM_MAX_SLOTS" by auto
qed

lemma tick_spec_reaches:
  assumes "cur < VM_MAX_SLOTS" "i < VM_MAX_SLOTS" "run i" "\<And>j. share j \<le> 400"
  shows "\<exists>n \<le> turns_left run i (cur, cr). fst ((tick_spec run share ^^ n) (cur, cr)) = i"
  using assms(1)
proof (induction "turns_left run i (cur, cr)" arbitrary: cur cr rule: less_induct)
  case less
  show ?case
  proof (cases "cur = i")
    case True
    then show ?thesis by (intro exI [of _ 0]) simp
  next
    case False
    obtain cur' cr' where t: "tick_spec run share (cur, cr) = (cur', cr')" by fastforce
    note p = tick_spec_progress [where run = run and share = share and cr = cr, OF less.prems assms(2,3) False assms(4), unfolded t]
    obtain n where n: "n \<le> turns_left run i (cur', cr')" "fst ((tick_spec run share ^^ n) (cur', cr')) = i"
      using less.hyps [OF p(1)] p(2) by auto
    have "fst ((tick_spec run share ^^ Suc n) (cur, cr)) = i" using n(2) by (simp add: funpow_swap1 t)
    moreover have "Suc n \<le> turns_left run i (cur, cr)" using n(1) p(1) by simp
    ultimately show ?thesis by blast
  qed
qed

lemma tick_spec_current: "fst sc < VM_MAX_SLOTS \<Longrightarrow> fst (tick_spec run share sc) < VM_MAX_SLOTS"
  using find_slot [of run "[0..<VM_MAX_SLOTS]" _ VM_MAX_SLOTS] find_slot [OF _ rotation_slots]
  by (auto simp: tick_spec_def lessThan_atLeast0 split: prod.splits option.splits)

lemma ticks_refine:
  assumes len: "length (g_quotas s) = VM_MAX_SLOTS" and cur: "unat (g_sched_current s) < VM_MAX_SLOTS"
  shows "same_but_sched s ((vm_sched_tick ^^ n) s) \<and>
    sched_abs ((vm_sched_tick ^^ n) s) = (tick_spec (\<lambda>i. runnable i s) (slot_share s) ^^ n) (sched_abs s) \<and>
    fst (sched_abs ((vm_sched_tick ^^ n) s)) < VM_MAX_SLOTS"
proof (induction n)
  case 0
  then show ?case using cur by (simp add: sched_abs_def)
next
  case (Suc n)
  let ?t = "(vm_sched_tick ^^ n) s"
  have l: "length (g_quotas ?t) = VM_MAX_SLOTS" using Suc.IH len by (auto elim!: same_schedE)
  have c: "unat (g_sched_current ?t) < VM_MAX_SLOTS" using Suc.IH by (simp add: sched_abs_def)
  have "tick_spec (\<lambda>i. runnable i ?t) (slot_share ?t) (sched_abs ?t) = tick_spec (\<lambda>i. runnable i s) (slot_share s) (sched_abs ?t)"
    by (rule tick_spec_cong) (use Suc.IH same_sched_runnable len in auto)
  then have "sched_abs (vm_sched_tick ?t) = tick_spec (\<lambda>i. runnable i s) (slot_share s) (sched_abs ?t)"
    using tick_refines(2) [OF l c] by simp
  moreover have "same_but_sched s (vm_sched_tick ?t)"
    using same_sched_trans [OF conjunct1 [OF Suc.IH] tick_refines(1) [OF l c]] .
  ultimately show ?case using Suc.IH tick_spec_current [of "sched_abs ?t" "\<lambda>i. runnable i s" "slot_share s"] by auto
qed

lemma runnable_gets_turn:
  assumes len: "length (g_quotas s) = VM_MAX_SLOTS" and cur: "unat (g_sched_current s) < VM_MAX_SLOTS"
    and q: "list_all quota_ok (g_quotas s)" and i: "i < VM_MAX_SLOTS" "runnable i s"
  shows "\<exists>n \<le> 1604. unat (g_sched_current ((vm_sched_tick ^^ n) s)) = i"
proof -
  define share where "share = (\<lambda>j. if j < VM_MAX_SLOTS then slot_share s j else 0)"
  have sh: "share j \<le> 400" for j
    using q len quota_credits_bounds by (auto simp: share_def slot_share_def list_all_length quota_ok_def)
  obtain c cr where ab: "sched_abs s = (c, cr)" "c < VM_MAX_SLOTS" using cur by (simp add: sched_abs_def)
  have cr: "cr c \<le> 400" using ab q len cur by (auto simp: sched_abs_def list_all_length quota_ok_def)
  obtain n where n: "n \<le> turns_left (\<lambda>i. runnable i s) i (c, cr)"
      "fst ((tick_spec (\<lambda>i. runnable i s) share ^^ n) (c, cr)) = i"
    using tick_spec_reaches [OF ab(2) i(1), of "\<lambda>i. runnable i s" share cr] i(2) sh by auto
  have eq: "(tick_spec (\<lambda>i. runnable i s) share ^^ k) (c, cr) = sched_abs ((vm_sched_tick ^^ k) s)" for k
  proof (induction k)
    case (Suc k)
    note r = ticks_refine [OF len cur]
    have "tick_spec (\<lambda>i. runnable i s) share (sched_abs ((vm_sched_tick ^^ k) s)) =
        tick_spec (\<lambda>i. runnable i s) (slot_share s) (sched_abs ((vm_sched_tick ^^ k) s))"
      by (rule tick_spec_cong) (use r [of k] in \<open>auto simp: share_def\<close>)
    then show ?case using Suc r [of k] r [of "Suc k"] by simp
  qed (simp add: ab)
  have "(i + VM_MAX_SLOTS - c) mod VM_MAX_SLOTS \<le> 3" by (simp add: VM_MAX_SLOTS_def)
  moreover have "nat (cr c) \<le> 400" using cr by simp
  ultimately have "turns_left (\<lambda>i. runnable i s) i (c, cr) \<le> 1604" unfolding turns_left_def by auto
  then show ?thesis using n eq [of n] by (intro exI [of _ n]) (simp add: sched_abs_def)
qed

end
