(* ===== verification/VmLifecycle.thy ===== *)
theory VmLifecycle
  imports VmSched
begin

text \<open>
  What the VM manager promises of its guests: the protocol it follows on each VMM endpoint, the
  invariant of its slot table, quotas and scheduler, and that creating, calling and destroying a guest
  keep it.
\<close>

unbundle bit_operations_syntax

section \<open>What the manager promises\<close>

text \<open>
  The manager's side of the guest protocol on one VMM endpoint.  A guest is named by the identity that
  its CREATE returned; BOOT follows a granted CREATE once; the other requests are for a booted guest; a
  granted DESTROY ends it; a CREATE is never sent while a guest is booted.
\<close>

datatype guest_phase = Idle | Created u32 | Booted u32

definition create_granted :: "sel4_msg \<Rightarrow> bool" where
  "create_granted rep \<longleftrightarrow> ms_opcode rep = GUEST_OK \<and> ms_length rep = 8 \<and> msg_u32 rep 0 = GUEST_OK"

fun guest_request_step :: "sel4_msg \<Rightarrow> sel4_msg \<Rightarrow> guest_phase \<Rightarrow> guest_phase option" where
  "guest_request_step req rep Idle =
     (if ms_opcode req = MSG_GUEST_CREATE
      then Some (if create_granted rep then Created (msg_u32 rep 4) else Idle) else None)"
| "guest_request_step req rep (Created g) =
     (if ms_opcode req = MSG_GUEST_CREATE
      then Some (if create_granted rep then Created (msg_u32 rep 4) else Idle)
      else if ms_opcode req = MSG_GUEST_BOOT \<and> msg_u32 req 0 = g
      then Some (if ms_opcode rep = GUEST_OK then Booted g else Idle) else None)"
| "guest_request_step req rep (Booted g) =
     (if ms_opcode req \<in> {MSG_GUEST_SUSPEND, MSG_GUEST_RESUME, MSG_GUEST_SEND_INPUT, MSG_GUEST_CONSOLE_DRAIN}
         \<and> msg_u32 req 0 = g
      then Some (Booted g)
      else if ms_opcode req = MSG_GUEST_DESTROY \<and> msg_u32 req 0 = g
      then Some (if ms_opcode rep = GUEST_OK then Idle else Booted g) else None)"

fun guest_protocol :: "u64 \<Rightarrow> vm_event list \<Rightarrow> guest_phase \<Rightarrow> guest_phase option" where
  "guest_protocol ep [] ph = Some ph"
| "guest_protocol ep (e # es) ph =
     (case e of
        VmRpc ep' req rep \<Rightarrow>
          if ep' = ep then (case guest_request_step req rep ph of None \<Rightarrow> None | Some ph' \<Rightarrow> guest_protocol ep es ph')
          else guest_protocol ep es ph
      | _ \<Rightarrow> guest_protocol ep es ph)"

text \<open>The slots that a dedicated guest can have and their endpoints; a free slot holds nothing of a guest.\<close>

definition slot_ep :: "nat \<Rightarrow> u64" where
  "slot_ep i = (if i = 0 then PD_CNODE_SLOT_GUEST_VMM_PRIMARY_EP else if i = 1 then PD_CNODE_SLOT_GUEST_VMM_SECONDARY_EP else 0)"

definition slot_type :: "nat \<Rightarrow> u32" where
  "slot_type i = (if i = 0 then VM_PROFILE_PRIMARY else VM_PROFILE_SECONDARY)"

definition slot_free :: "nat \<Rightarrow> vm_state \<Rightarrow> bool" where
  "slot_free i s \<longleftrightarrow> sl_state (mx_slots s ! i) = VM_SLOT_FREE"

definition slot_clear :: "nat \<Rightarrow> vm_state \<Rightarrow> bool" where
  "slot_clear i s \<longleftrightarrow> g_slot_vmm_ep s ! i = 0 \<and> g_slot_guest_id s ! i = 0 \<and> \<not> g_slot_guest_bound s ! i \<and>
     g_vm_types s ! i = 0 \<and> g_vm_flags s ! i = 0 \<and>
     (i < 2 \<longrightarrow> (\<exists>ph. guest_protocol (slot_ep i) (vm_trace s) Idle = Some ph \<and> (\<forall>g. ph \<noteq> Booted g)))"

definition slot_live :: "nat \<Rightarrow> vm_state \<Rightarrow> bool" where
  "slot_live i s \<longleftrightarrow> i < 2 \<and> g_slot_vmm_ep s ! i = slot_ep i \<and> g_slot_guest_bound s ! i \<and>
     g_vm_types s ! i = ucast (slot_type i) \<and>
     sl_ram_vaddr (mx_slots s ! i) = dedicated_ram_base (slot_type i) (of_nat i) \<and>
     sl_ram_paddr (mx_slots s ! i) = dedicated_ram_base (slot_type i) (of_nat i) \<and>
     sl_ram_size (mx_slots s ! i) = push_bit 20 (ucast (dedicated_ram_capacity_mb (slot_type i))) \<and>
     guest_protocol (slot_ep i) (vm_trace s) Idle = Some (Booted (g_slot_guest_id s ! i))"

definition slot_ok :: "nat \<Rightarrow> vm_state \<Rightarrow> bool" where
  "slot_ok i s \<longleftrightarrow> (if slot_free i s then slot_clear i s else slot_live i s)"

definition vm_shape :: "vm_state \<Rightarrow> bool" where
  "vm_shape s \<longleftrightarrow> length (mx_slots s) = VM_MAX_SLOTS \<and> length (g_vm_types s) = VM_MAX_SLOTS \<and>
     length (g_vm_flags s) = VM_MAX_SLOTS \<and> length (g_slot_vmm_ep s) = VM_MAX_SLOTS \<and>
     length (g_slot_guest_id s) = VM_MAX_SLOTS \<and> length (g_slot_guest_bound s) = VM_MAX_SLOTS \<and>
     length (g_quotas s) = VM_MAX_SLOTS \<and> length (g_affinity s) = VM_MAX_SLOTS \<and>
     g_primary_vmm_ep s = PD_CNODE_SLOT_GUEST_VMM_PRIMARY_EP \<and>
     g_secondary_vmm_ep s = PD_CNODE_SLOT_GUEST_VMM_SECONDARY_EP"

definition used_slots :: "vm_state \<Rightarrow> nat" where
  "used_slots s = length (filter (\<lambda>i. \<not> slot_free i s) [0..<VM_MAX_SLOTS])"

definition vm_inv :: "vm_state \<Rightarrow> bool" where
  "vm_inv s \<longleftrightarrow> vm_shape s \<and> (\<forall>i < VM_MAX_SLOTS. slot_ok i s) \<and> mx_slot_count s = of_nat (used_slots s) \<and>
     list_all quota_ok (g_quotas s) \<and> unat (g_sched_current s) < VM_MAX_SLOTS \<and>
     0 \<le> qt_credits (g_quotas s ! unat (g_sched_current s)) \<and>
     g_ipc_counter s < VM_SCHED_IPC_QUANTUM"


section \<open>Events\<close>

lemma protocol_append:
  "guest_protocol ep (es @ es') ph = Option.bind (guest_protocol ep es ph) (guest_protocol ep es')"
  by (induction ep es ph rule: guest_protocol.induct) (auto split: vm_event.splits option.splits)

definition kernel_event :: "vm_event \<Rightarrow> bool" where
  "kernel_event e \<longleftrightarrow> (case e of VmRpc _ _ _ \<Rightarrow> False | _ \<Rightarrow> True)"

lemma protocol_kernel_events: "\<forall>e \<in> set es. kernel_event e \<Longrightarrow> guest_protocol ep es ph = Some ph"
  by (induction es) (auto simp: kernel_event_def split: vm_event.splits)

text \<open>A step that does nothing but kernel calls.\<close>

definition kernel_only :: "vm_state \<Rightarrow> vm_state \<Rightarrow> bool" where
  "kernel_only s s' \<longleftrightarrow> (\<exists>es. (\<forall>e \<in> set es. kernel_event e) \<and> s' = s\<lparr>vm_trace := vm_trace s @ es\<rparr>)"

lemma kernel_only_refl [simp]: "kernel_only s s"
  by (auto simp: kernel_only_def intro: exI [of _ "[]"])

lemma kernel_only_trans [trans]: "kernel_only s t \<Longrightarrow> kernel_only t u \<Longrightarrow> kernel_only s u"
  unfolding kernel_only_def by (elim exE) (rule_tac x = "es @ esa" in exI, auto)

lemma vm_copy_only: "vm_copy en d r i s = (err, s') \<Longrightarrow> kernel_only s s'"
  by (auto simp: vm_copy_def Let_def kernel_only_def kernel_event_def intro!: exI [of _ "[_]"])

lemma vm_invoke_only: "vm_invoke en c s = (err, s') \<Longrightarrow> kernel_only s s'"
  by (auto simp: vm_invoke_def Let_def kernel_only_def kernel_event_def intro!: exI [of _ "[_]"])

lemma vm_delete_only: "vm_delete en c s = (err, s') \<Longrightarrow> kernel_only s s'"
  by (simp add: vm_delete_def vm_invoke_only)

lemma copy_objects_only: "copy_objects en client n copied s = (ok, copied', s') \<Longrightarrow> kernel_only s s'"
  by (induction en client n copied s rule: copy_objects.induct)
    (auto split: prod.splits if_splits dest: vm_copy_only intro: kernel_only_trans)

lemma delete_objects_only: "delete_objects en n ok s = (ok', s') \<Longrightarrow> kernel_only s s'"
  by (induction en n ok s rule: delete_objects.induct)
    (auto split: prod.splits dest: vm_delete_only intro: kernel_only_trans)

lemma gic_prepare_only: "aos_guest_gic_prepare en client s = (ok, s') \<Longrightarrow> kernel_only s s'"
  unfolding aos_guest_gic_prepare_def
  by (auto simp: Let_def split: prod.splits if_splits
      dest!: vm_copy_only vm_invoke_only vm_delete_only intro: kernel_only_trans)

lemma scheduling_only: "aos_guest_scheduling_configure en client s = (ok, s') \<Longrightarrow> kernel_only s s'"
  unfolding aos_guest_scheduling_configure_def
  by (auto simp: Let_def split: prod.splits if_splits
      dest!: copy_objects_only vm_invoke_only delete_objects_only intro: kernel_only_trans)

lemma kernel_only_protocol:
  "kernel_only s s' \<Longrightarrow> guest_protocol ep (vm_trace s') Idle = guest_protocol ep (vm_trace s) Idle"
  by (cases "guest_protocol ep (vm_trace s) Idle") (auto simp: kernel_only_def protocol_append protocol_kernel_events)

lemma protocol_rpc:
  "guest_protocol ep (es @ [VmRpc ep' req rep]) Idle =
     (if ep' = ep then Option.bind (guest_protocol ep es Idle) (guest_request_step req rep) else guest_protocol ep es Idle)"
  by (cases "guest_protocol ep es Idle") (auto simp: protocol_append split: option.splits)


section \<open>The invariant under the guest protocol\<close>

lemmas slot_defs = slot_ok_def slot_free_def slot_clear_def slot_live_def

lemmas guest_ops = MSG_GUEST_CREATE_def MSG_GUEST_BOOT_def MSG_GUEST_SUSPEND_def MSG_GUEST_RESUME_def
  MSG_GUEST_DESTROY_def MSG_GUEST_SEND_INPUT_def MSG_GUEST_CONSOLE_DRAIN_def

lemmas vm_codes = VM_OK_def VM_ERR_def GUEST_OK_def

lemma slot_ok_other [simp]:
  "slot_ok i (s\<lparr>g_quotas := q\<rparr>) = slot_ok i s" "slot_ok i (s\<lparr>g_sched_current := c\<rparr>) = slot_ok i s"
  "slot_ok i (s\<lparr>g_ipc_counter := n\<rparr>) = slot_ok i s" "slot_ok i (s\<lparr>g_affinity := a\<rparr>) = slot_ok i s"
  "slot_ok i (s\<lparr>mx_active_slot := b\<rparr>) = slot_ok i s" "slot_ok i (s\<lparr>vm_list_shmem := l\<rparr>) = slot_ok i s"
  by (simp_all add: slot_defs)

lemma used_slots_other [simp]:
  "used_slots (s\<lparr>g_quotas := q\<rparr>) = used_slots s" "used_slots (s\<lparr>g_sched_current := c\<rparr>) = used_slots s"
  "used_slots (s\<lparr>g_ipc_counter := n\<rparr>) = used_slots s" "used_slots (s\<lparr>g_affinity := a\<rparr>) = used_slots s"
  "used_slots (s\<lparr>mx_active_slot := b\<rparr>) = used_slots s" "used_slots (s\<lparr>vm_list_shmem := l\<rparr>) = used_slots s"
  "used_slots (s\<lparr>vm_trace := tr\<rparr>) = used_slots s"
  by (simp_all add: used_slots_def slot_free_def)

lemma slot_ep_simps [simp]:
  "slot_ep i = slot_ep j \<longleftrightarrow> i = j \<or> 2 \<le> i \<and> 2 \<le> j" "slot_ep i = 0 \<longleftrightarrow> 2 \<le> i"
  by (auto simp: slot_ep_def PD_CNODE_SLOT_GUEST_VMM_PRIMARY_EP_def PD_CNODE_SLOT_GUEST_VMM_SECONDARY_EP_def)

lemma inv_slot: "vm_inv s \<Longrightarrow> i < VM_MAX_SLOTS \<Longrightarrow> slot_ok i s"
  by (simp add: vm_inv_def)

lemma used_is_live: "vm_inv s \<Longrightarrow> i < VM_MAX_SLOTS \<Longrightarrow> \<not> slot_free i s \<Longrightarrow> slot_live i s"
  using inv_slot by (simp add: slot_ok_def)

lemma free_is_clear: "vm_inv s \<Longrightarrow> i < VM_MAX_SLOTS \<Longrightarrow> slot_free i s \<Longrightarrow> slot_clear i s"
  using inv_slot by (simp add: slot_ok_def)

lemma vmm_iff_used: "vm_inv s \<Longrightarrow> i < VM_MAX_SLOTS \<Longrightarrow> g_slot_vmm_ep s ! i \<noteq> 0 \<longleftrightarrow> \<not> slot_free i s"
  using inv_slot [of s i] by (auto simp: slot_ok_def slot_clear_def slot_live_def split: if_splits)

text \<open>A request for the guest of a slot is sent to the slot's endpoint under the guest's identity.\<close>

lemma msg_u32_rep_same [simp]: "msg_typed m \<Longrightarrow> msg_u32 (rep_u32 0 v m) 0 = v"
  by (simp add: msg_u32_def rep_u32_def msg_typed_def SEL4_MSG_DATA_BYTES_def)

lemma guest_request_typed [simp]: "length p \<le> 48 \<Longrightarrow> msg_typed (guest_request opc p)"
  by (simp add: guest_request_def msg_typed_def)

lemma guest_rpc_sent:
  assumes "opc \<noteq> MSG_GUEST_CREATE" "unat slot_id < VM_MAX_SLOTS" "g_slot_vmm_ep s ! unat slot_id \<noteq> 0"
    and "g_slot_guest_bound s ! unat slot_id" "4 \<le> length p" "length p \<le> 48"
    and "dedicated_guest_rpc en slot_id opc p s = ((rc, out), s')"
  shows "\<exists>req rep. s' = s\<lparr>vm_trace := vm_trace s @ [VmRpc (g_slot_vmm_ep s ! unat slot_id) req rep]\<rparr> \<and>
    ms_opcode req = opc \<and> msg_u32 req 0 = g_slot_guest_id s ! unat slot_id \<and> reply_ok rep \<and>
    rc = (if ms_opcode rep = GUEST_OK then VM_OK else VM_ERR) \<and> reply_ok out"
proof -
  define req where "req = rep_u32 0 (g_slot_guest_id s ! unat slot_id) (guest_request opc p)"
  define rep where "rep = sel4_mrs_to_msg (ve_vmm en (vm_trace s) (g_slot_vmm_ep s ! unat slot_id) req)"
  have "dedicated_guest_rpc en slot_id opc p s =
      (if ms_opcode rep = GUEST_OK then (VM_OK, rep) else (VM_ERR, empty_msg),
       s\<lparr>vm_trace := vm_trace s @ [VmRpc (g_slot_vmm_ep s ! unat slot_id) req rep]\<rparr>)"
    using assms(1-6) by (simp add: dedicated_guest_rpc_def Let_def vmm_call_def req_def rep_def)
  moreover have "ms_opcode req = opc" "msg_u32 req 0 = g_slot_guest_id s ! unat slot_id" "reply_ok rep"
    using assms(6) by (simp_all add: req_def rep_def) (simp add: guest_request_def)
  ultimately show ?thesis using assms(7) by (auto split: if_splits)
qed

definition booted_ops :: "u32 set" where
  "booted_ops = {MSG_GUEST_SUSPEND, MSG_GUEST_RESUME, MSG_GUEST_SEND_INPUT, MSG_GUEST_CONSOLE_DRAIN}"

lemma live_rpc_ok:
  assumes "vm_inv s" "unat slot_id < VM_MAX_SLOTS" "\<not> slot_free (unat slot_id) s" "opc \<in> booted_ops"
    and "4 \<le> length p" "length p \<le> 48" "dedicated_guest_rpc en slot_id opc p s = ((rc, out), s')"
  shows "vm_inv s'" "\<not> slot_free (unat slot_id) s'" "reply_ok out"
proof -
  let ?i = "unat slot_id"
  have live: "slot_live ?i s" using used_is_live assms by blast
  have "opc \<noteq> MSG_GUEST_CREATE" using assms(4) by (auto simp: booted_ops_def guest_ops)
  moreover have "g_slot_vmm_ep s ! ?i \<noteq> 0" "g_slot_guest_bound s ! ?i" using live by (auto simp: slot_live_def)
  ultimately obtain req rep where s': "s' = s\<lparr>vm_trace := vm_trace s @ [VmRpc (slot_ep ?i) req rep]\<rparr>"
    and req: "ms_opcode req = opc" "msg_u32 req 0 = g_slot_guest_id s ! ?i" and o: "reply_ok out"
    using guest_rpc_sent [OF _ assms(2) _ _ assms(5-7)] live by (auto simp: slot_live_def)
  have step: "guest_request_step req rep (Booted (g_slot_guest_id s ! ?i)) = Some (Booted (g_slot_guest_id s ! ?i))"
    using req assms(4) by (simp add: booted_ops_def)
  have "slot_ok j s'" if "j < VM_MAX_SLOTS" for j
    using inv_slot [OF assms(1) that] live step by (auto simp: s' slot_defs protocol_rpc)
  then show "vm_inv s'" using assms(1) by (simp add: vm_inv_def s' vm_shape_def)
  show "\<not> slot_free ?i s'" using assms(3) by (simp add: s' slot_free_def)
  show "reply_ok out" by (rule o)
qed

lemma set_state_ok:
  assumes "vm_inv s" "i < VM_MAX_SLOTS" "\<not> slot_free i s" "st \<noteq> VM_SLOT_FREE"
  shows "vm_inv (set_slot_state i st s)"
proof -
  have l: "i < length (mx_slots s)" using assms(1,2) by (simp add: vm_inv_def vm_shape_def)
  have fr: "slot_free j (set_slot_state i st s) = slot_free j s" for j
    using assms l by (cases "j = i") (auto simp: set_slot_state_def slot_free_def)
  have "slot_ok j (set_slot_state i st s)" if "j < VM_MAX_SLOTS" for j
    using inv_slot [OF assms(1) that] l
    by (cases "j = i") (auto simp: slot_ok_def fr slot_clear_def slot_live_def, auto simp: set_slot_state_def)
  then show ?thesis using assms(1) by (simp add: vm_inv_def used_slots_def fr) (simp add: set_slot_state_def vm_shape_def)
qed

lemma guest_call_ok:
  assumes "vm_inv s" "has_vmm slot_id s" "opc \<in> booted_ops" "st \<noteq> VM_SLOT_FREE"
    and "dedicated_guest_call en slot_id opc st s = (rc, s')"
  shows "vm_inv s'"
proof -
  have i: "unat slot_id < VM_MAX_SLOTS" "\<not> slot_free (unat slot_id) s"
    using assms(1,2) vmm_iff_used by (auto simp: has_vmm_def)
  have "opc \<noteq> MSG_GUEST_DESTROY" using assms(3) by (auto simp: booted_ops_def guest_ops)
  with assms(5) obtain c out t where r: "dedicated_guest_rpc en slot_id opc [0, 0, 0, 0] s = ((c, out), t)"
    and s': "s' = (if c \<noteq> VM_OK then t else set_slot_state (unat slot_id) st t)"
    by (auto simp: dedicated_guest_call_def Let_def split: prod.splits if_splits)
  have "vm_inv t" "\<not> slot_free (unat slot_id) t" using live_rpc_ok [OF assms(1) i assms(3) _ _ r] by auto
  then show ?thesis using set_state_ok i(1) assms(4) by (simp add: s')
qed


section \<open>Creating and destroying a guest\<close>

text \<open>What creating a guest changes beside the slot it claims: the trace and the slot's guest.\<close>

definition guest_at :: "nat \<Rightarrow> u32 \<Rightarrow> bool \<Rightarrow> vm_event list \<Rightarrow> vm_state \<Rightarrow> vm_state" where
  "guest_at i g b tr s = s\<lparr>vm_trace := tr, g_slot_guest_id := (g_slot_guest_id s)[i := g],
     g_slot_guest_bound := (g_slot_guest_bound s)[i := b]\<rparr>"

lemma guest_at_fields [simp]:
  "mx_slots (guest_at i g b tr s) = mx_slots s" "g_slot_vmm_ep (guest_at i g b tr s) = g_slot_vmm_ep s"
  "vm_trace (guest_at i g b tr s) = tr" "guest_at i g b tr (guest_at i g' b' tr' s) = guest_at i g b tr s"
  "(guest_at i g b tr s)\<lparr>vm_trace := tr'\<rparr> = guest_at i g b tr' s"
  "g_slot_guest_id (guest_at i g b tr s) = (g_slot_guest_id s)[i := g]"
  "g_slot_guest_bound (guest_at i g b tr s) = (g_slot_guest_bound s)[i := b]"
  "g_secondary_vmm_ep (guest_at i g b tr s) = g_secondary_vmm_ep s"
  by (simp_all add: guest_at_def)

lemma guest_at_same: "guest_at i (g_slot_guest_id s ! i) (g_slot_guest_bound s ! i) tr s = s\<lparr>vm_trace := tr\<rparr>"
  by (simp add: guest_at_def)

lemma create_rpc_sent:
  assumes "unat slot_id < VM_MAX_SLOTS" "g_slot_vmm_ep s ! unat slot_id \<noteq> 0" "length p \<le> 48"
    and "dedicated_guest_rpc en slot_id MSG_GUEST_CREATE p s = ((rc, out), s')"
  shows "\<exists>req rep. let tr = vm_trace s @ [VmRpc (g_slot_vmm_ep s ! unat slot_id) req rep] in
    ms_opcode req = MSG_GUEST_CREATE \<and>
    (rc = VM_OK \<and> create_granted rep \<and> s' = guest_at (unat slot_id) (msg_u32 rep 4) True tr s \<or>
     rc = VM_ERR \<and> \<not> create_granted rep \<and> s' = s\<lparr>vm_trace := tr\<rparr>)"
proof -
  define req where "req = guest_request MSG_GUEST_CREATE p"
  define rep where "rep = sel4_mrs_to_msg (ve_vmm en (vm_trace s) (g_slot_vmm_ep s ! unat slot_id) req)"
  define tr where "tr = vm_trace s @ [VmRpc (g_slot_vmm_ep s ! unat slot_id) req rep]"
  have "dedicated_guest_rpc en slot_id MSG_GUEST_CREATE p s =
      (if create_granted rep then ((VM_OK, rep), guest_at (unat slot_id) (msg_u32 rep 4) True tr s)
       else ((VM_ERR, empty_msg), s\<lparr>vm_trace := tr\<rparr>))"
    using assms(1-3) by (auto simp: dedicated_guest_rpc_def Let_def vmm_call_def req_def rep_def create_granted_def
        guest_at_def tr_def)
  moreover have "ms_opcode req = MSG_GUEST_CREATE" by (simp add: req_def guest_request_def)
  ultimately show ?thesis
    using assms(4) by (intro exI [of _ req] exI [of _ rep]) (auto simp: Let_def tr_def split: if_splits)
qed

lemma boot_call_sent:
  assumes "unat slot_id < VM_MAX_SLOTS" "g_slot_vmm_ep s ! unat slot_id \<noteq> 0" "g_slot_guest_bound s ! unat slot_id"
    and "sl_state (mx_slots s ! unat slot_id) = VM_SLOT_RUNNING"
    and "dedicated_guest_call en slot_id MSG_GUEST_BOOT VM_SLOT_RUNNING s = (rc, s')"
  shows "\<exists>req rep. ms_opcode req = MSG_GUEST_BOOT \<and> msg_u32 req 0 = g_slot_guest_id s ! unat slot_id \<and>
    s' = s\<lparr>vm_trace := vm_trace s @ [VmRpc (g_slot_vmm_ep s ! unat slot_id) req rep]\<rparr> \<and>
    (rc = VM_OK \<longleftrightarrow> ms_opcode rep = GUEST_OK)"
proof -
  obtain c out t where r: "dedicated_guest_rpc en slot_id MSG_GUEST_BOOT [0, 0, 0, 0] s = ((c, out), t)"
    and s': "(rc, s') = (if c \<noteq> VM_OK then (VM_ERR, t) else (VM_OK, set_slot_state (unat slot_id) VM_SLOT_RUNNING t))"
    using assms(5) by (auto simp: dedicated_guest_call_def Let_def guest_ops split: prod.splits if_splits)
  have "(mx_slots s ! unat slot_id)\<lparr>sl_state := VM_SLOT_RUNNING\<rparr> = mx_slots s ! unat slot_id"
    using assms(4) by (cases "mx_slots s ! unat slot_id") simp
  then have same: "set_slot_state (unat slot_id) VM_SLOT_RUNNING (s\<lparr>vm_trace := tr\<rparr>) = s\<lparr>vm_trace := tr\<rparr>" for tr
    by (cases s) (simp add: set_slot_state_def)
  have "MSG_GUEST_BOOT \<noteq> MSG_GUEST_CREATE" by (simp add: guest_ops)
  then obtain req rep where t: "t = s\<lparr>vm_trace := vm_trace s @ [VmRpc (g_slot_vmm_ep s ! unat slot_id) req rep]\<rparr>"
    and q: "ms_opcode req = MSG_GUEST_BOOT" "msg_u32 req 0 = g_slot_guest_id s ! unat slot_id"
    and c: "c = (if ms_opcode rep = GUEST_OK then VM_OK else VM_ERR)"
    using guest_rpc_sent [OF _ assms(1-3) _ _ r] by auto
  have "s' = t" "rc = VM_OK \<longleftrightarrow> ms_opcode rep = GUEST_OK"
    using s' c by (auto simp: vm_codes t same split: if_splits)
  then show ?thesis using t q by blast
qed


definition not_booted :: "guest_phase option \<Rightarrow> bool" where
  "not_booted p \<longleftrightarrow> (\<exists>ph. p = Some ph \<and> (\<forall>g. ph \<noteq> Booted g))"

text \<open>The two preparations of the guest's interrupt page and scheduling between CREATE and BOOT.\<close>

definition prepare_guest :: "vm_env \<Rightarrow> u32 \<Rightarrow> vm_state \<Rightarrow> bool \<times> vm_state" where
  "prepare_guest en client s =
     (case aos_guest_gic_prepare en client s of (ok2, s2) \<Rightarrow>
        if \<not> ok2 then (False, s2) else aos_guest_scheduling_configure en client s2)"

lemma prepare_guest_only: "prepare_guest en client s = (ok, s') \<Longrightarrow> kernel_only s s'"
  unfolding prepare_guest_def
  by (auto split: prod.splits if_splits dest: gic_prepare_only scheduling_only intro: kernel_only_trans)

lemma start_guest_eq:
  "start_guest en vm_type slot_id ep s =
     (case dedicated_guest_rpc en slot_id MSG_GUEST_CREATE
        (let t = dedicated_vmm_os_type vm_type in [ucast (t AND 0xff), ucast (drop_bit 8 t AND 0xff),
           ucast (drop_bit 16 t AND 0xff), ucast (drop_bit 24 t AND 0xff)]) s of ((rc, _), s1) \<Rightarrow>
        if rc \<noteq> VM_OK then (False, s1)
        else case prepare_guest en (if ep = g_secondary_vmm_ep s1 then 1 else 0) s1 of (ok3, s3) \<Rightarrow>
          if \<not> ok3 then (False, s3)
          else case dedicated_guest_call en slot_id MSG_GUEST_BOOT VM_SLOT_RUNNING s3 of (rc4, s4) \<Rightarrow> (rc4 = VM_OK, s4))"
  by (auto simp: start_guest_def prepare_guest_def Let_def split: prod.splits if_splits)

text \<open>From one state to another, only the guest of slot \<open>i\<close> and the events on its endpoint; then \<open>P\<close> of both.\<close>

definition guest_moved :: "nat \<Rightarrow> vm_state \<Rightarrow> vm_state \<Rightarrow> (u32 \<Rightarrow> bool \<Rightarrow> guest_phase option \<Rightarrow> bool) \<Rightarrow> bool" where
  "guest_moved i s s' P \<longleftrightarrow> (\<exists>g b. s' = guest_at i g b (vm_trace s') s \<and>
     (\<forall>j < 2. j \<noteq> i \<longrightarrow> guest_protocol (slot_ep j) (vm_trace s') Idle = guest_protocol (slot_ep j) (vm_trace s) Idle) \<and>
     P g b (guest_protocol (slot_ep i) (vm_trace s') Idle))"

lemma guest_moved_kernel:
  assumes "guest_moved i s t P" "kernel_only t u" shows "guest_moved i s u P"
proof -
  obtain g b where t: "t = guest_at i g b (vm_trace t) s" using assms(1) by (auto simp: guest_moved_def)
  obtain es where "u = t\<lparr>vm_trace := vm_trace t @ es\<rparr>" using assms(2) by (auto simp: kernel_only_def)
  then have "u = guest_at i g b (vm_trace u) s" using t by (metis guest_at_fields(3,5))
  moreover have "guest_at i g' b' (vm_trace t) s = t \<Longrightarrow> guest_at i g' b' (vm_trace u) s = u" for g' b'
    using \<open>u = t\<lparr>vm_trace := vm_trace t @ es\<rparr>\<close> by (metis guest_at_fields(3,5))
  ultimately show ?thesis
    using assms by (auto simp: guest_moved_def kernel_only_protocol) metis
qed

lemma guest_moved_mono: "guest_moved i s t P \<Longrightarrow> (\<And>g b p. P g b p \<Longrightarrow> Q g b p) \<Longrightarrow> guest_moved i s t Q"
  unfolding guest_moved_def by blast

lemma create_outcome:
  assumes "unat slot_id < 2" "g_slot_vmm_ep s ! unat slot_id = slot_ep (unat slot_id)" "length p \<le> 48"
    and "not_booted (guest_protocol (slot_ep (unat slot_id)) (vm_trace s) Idle)"
    and "dedicated_guest_rpc en slot_id MSG_GUEST_CREATE p s = ((rc, out), s')"
  shows "guest_moved (unat slot_id) s s'
    (\<lambda>g b ph. if rc = VM_OK then b \<and> ph = Some (Created g) else not_booted ph)"
proof -
  let ?i = "unat slot_id"
  obtain ph where ph: "guest_protocol (slot_ep ?i) (vm_trace s) Idle = Some ph" "\<And>g. ph \<noteq> Booted g"
    using assms(4) by (auto simp: not_booted_def)
  have cstep: "guest_request_step req rep ph = Some (if create_granted rep then Created (msg_u32 rep 4) else Idle)"
    if "ms_opcode req = MSG_GUEST_CREATE" for req rep
    using that ph(2) by (cases ph) auto
  have i4: "?i < VM_MAX_SLOTS" using assms(1) by (simp add: VM_MAX_SLOTS_def)
  obtain rq rp where rq: "ms_opcode rq = MSG_GUEST_CREATE" and tr: "vm_trace s' = vm_trace s @ [VmRpc (slot_ep ?i) rq rp]"
    and s': "rc = VM_OK \<and> create_granted rp \<and> s' = guest_at ?i (msg_u32 rp 4) True (vm_trace s') s \<or>
      rc = VM_ERR \<and> \<not> create_granted rp \<and> s' = s\<lparr>vm_trace := vm_trace s'\<rparr>"
    using create_rpc_sent [OF i4 _ assms(3,5)] assms(1,2) by (auto simp: Let_def)
  have pr: "guest_protocol (slot_ep ?i) (vm_trace s') Idle = Some (if create_granted rp then Created (msg_u32 rp 4) else Idle)"
    "\<And>j. j < 2 \<Longrightarrow> j \<noteq> ?i \<Longrightarrow>
      guest_protocol (slot_ep j) (vm_trace s') Idle = guest_protocol (slot_ep j) (vm_trace s) Idle"
    using ph cstep [OF rq] assms(1) by (simp_all add: tr protocol_rpc)
  from s' show ?thesis
  proof (elim disjE conjE)
    assume "rc = VM_OK" "create_granted rp" "s' = guest_at ?i (msg_u32 rp 4) True (vm_trace s') s"
    then show ?thesis using pr unfolding guest_moved_def by (intro exI [of _ "msg_u32 rp 4"] exI [of _ True]) simp
  next
    assume "rc = VM_ERR" "\<not> create_granted rp" "s' = s\<lparr>vm_trace := vm_trace s'\<rparr>"
    then show ?thesis using pr unfolding guest_moved_def
      by (intro exI [of _ "g_slot_guest_id s ! ?i"] exI [of _ "g_slot_guest_bound s ! ?i"])
        (simp add: guest_at_same not_booted_def vm_codes)
  qed
qed

lemma boot_outcome:
  assumes i: "unat slot_id < 2" and ep: "g_slot_vmm_ep s ! unat slot_id = slot_ep (unat slot_id)" and sh: "vm_shape s"
    and st: "sl_state (mx_slots s ! unat slot_id) = VM_SLOT_RUNNING"
    and mv: "guest_moved (unat slot_id) s t (\<lambda>g b ph. b \<and> ph = Some (Created g))"
    and run: "dedicated_guest_call en slot_id MSG_GUEST_BOOT VM_SLOT_RUNNING t = (rc, s')"
  shows "guest_moved (unat slot_id) s s' (\<lambda>g b ph. if rc = VM_OK then b \<and> ph = Some (Booted g) else not_booted ph)"
proof -
  let ?i = "unat slot_id"
  have i4: "?i < VM_MAX_SLOTS" using i by (simp add: VM_MAX_SLOTS_def)
  obtain g where t: "t = guest_at ?i g True (vm_trace t) s" "guest_protocol (slot_ep ?i) (vm_trace t) Idle = Some (Created g)"
      "\<And>j. j < 2 \<Longrightarrow> j \<noteq> ?i \<Longrightarrow> guest_protocol (slot_ep j) (vm_trace t) Idle = guest_protocol (slot_ep j) (vm_trace s) Idle"
    using mv by (auto simp: guest_moved_def)
  have f: "g_slot_vmm_ep t = g_slot_vmm_ep s" "mx_slots t = mx_slots s"
    "g_slot_guest_id t = (g_slot_guest_id s)[?i := g]" "g_slot_guest_bound t = (g_slot_guest_bound s)[?i := True]"
    using arg_cong [OF t(1), of g_slot_vmm_ep] arg_cong [OF t(1), of mx_slots]
      arg_cong [OF t(1), of g_slot_guest_id] arg_cong [OF t(1), of g_slot_guest_bound] by simp_all
  have l: "?i < length (g_slot_guest_id s)" "?i < length (g_slot_guest_bound s)" using sh i4 by (auto simp: vm_shape_def)
  obtain rq rp where q: "ms_opcode rq = MSG_GUEST_BOOT" "msg_u32 rq 0 = g"
    and s': "s' = t\<lparr>vm_trace := vm_trace t @ [VmRpc (slot_ep ?i) rq rp]\<rparr>" and rc: "rc = VM_OK \<longleftrightarrow> ms_opcode rp = GUEST_OK"
    using boot_call_sent [OF i4 _ _ _ run] i ep st l f by auto
  have "s' = guest_at ?i g True (vm_trace s') s" using s' t(1) by (metis guest_at_fields(3,5))
  moreover have "guest_protocol (slot_ep ?i) (vm_trace s') Idle = Some (if rc = VM_OK then Booted g else Idle)"
    using t(2) q rc by (simp add: s' protocol_rpc guest_ops)
  moreover have "guest_protocol (slot_ep j) (vm_trace s') Idle = guest_protocol (slot_ep j) (vm_trace s) Idle"
    if "j < 2" "j \<noteq> ?i" for j
    using t(3) [OF that] that i by (simp add: s' protocol_rpc)
  ultimately show ?thesis unfolding guest_moved_def by (intro exI [of _ g] exI [of _ True]) (auto simp: not_booted_def)
qed

lemma start_guest_outcome:
  assumes "unat slot_id < 2" "g_slot_vmm_ep s ! unat slot_id = slot_ep (unat slot_id)" "vm_shape s"
    and "sl_state (mx_slots s ! unat slot_id) = VM_SLOT_RUNNING"
    and "not_booted (guest_protocol (slot_ep (unat slot_id)) (vm_trace s) Idle)"
    and run: "start_guest en vm_type slot_id ep0 s = (ok, s')"
  shows "guest_moved (unat slot_id) s s' (\<lambda>g b ph. if ok then b \<and> ph = Some (Booted g) else not_booted ph)"
proof -
  obtain rc out s1 where c: "dedicated_guest_rpc en slot_id MSG_GUEST_CREATE
      (let t = dedicated_vmm_os_type vm_type in [ucast (t AND 0xff), ucast (drop_bit 8 t AND 0xff),
        ucast (drop_bit 16 t AND 0xff), ucast (drop_bit 24 t AND 0xff)]) s = ((rc, out), s1)"
    by (metis prod.collapse)
  note m1 = create_outcome [OF assms(1,2) _ assms(5) c]
  obtain ok3 s3 where q: "prepare_guest en (if ep0 = g_secondary_vmm_ep s1 then 1 else 0) s1 = (ok3, s3)" by fastforce
  note m3 = guest_moved_kernel [OF _ prepare_guest_only [OF q]]
  obtain rc4 s4 where b: "dedicated_guest_call en slot_id MSG_GUEST_BOOT VM_SLOT_RUNNING s3 = (rc4, s4)" by fastforce
  consider "rc \<noteq> VM_OK" "ok = False" "s' = s1" | "rc = VM_OK" "\<not> ok3" "ok = False" "s' = s3"
    | "rc = VM_OK" "ok3" "ok = (rc4 = VM_OK)" "s' = s4"
    using run by (auto simp: start_guest_eq c q b split: if_splits)
  then show ?thesis
  proof cases
    case 1
    then show ?thesis using m1 by (simp add: Let_def)
  next
    case 2
    then show ?thesis using m1 by (auto simp: Let_def not_booted_def intro!: m3 elim!: guest_moved_mono)
  next
    case 3
    then show ?thesis using boot_outcome [OF assms(1-4) m3 b] m1 by (simp add: Let_def)
  qed
qed


text \<open>The invariant with slot \<open>i\<close> in use but not accounted for.\<close>

definition vm_inv_but :: "nat \<Rightarrow> vm_state \<Rightarrow> bool" where
  "vm_inv_but i s \<longleftrightarrow> vm_shape s \<and> (\<forall>j < VM_MAX_SLOTS. j \<noteq> i \<longrightarrow> slot_ok j s) \<and> \<not> slot_free i s \<and>
     mx_slot_count s = of_nat (used_slots s) \<and> list_all quota_ok (g_quotas s) \<and>
     unat (g_sched_current s) < VM_MAX_SLOTS \<and> 0 \<le> qt_credits (g_quotas s ! unat (g_sched_current s)) \<and>
     g_ipc_counter s < VM_SCHED_IPC_QUANTUM"

lemma used_slots_change:
  assumes "i < VM_MAX_SLOTS" "\<not> slot_free i s" "slot_free i s'"
    and "\<And>j. j \<noteq> i \<Longrightarrow> slot_free j s' = slot_free j s"
  shows "used_slots s = Suc (used_slots s')"
proof -
  have "[0..<VM_MAX_SLOTS] = [0..<i] @ i # [Suc i..<VM_MAX_SLOTS]"
    using assms(1) upt_add_eq_append [of 0 i "VM_MAX_SLOTS - i"] upt_conv_Cons [of i VM_MAX_SLOTS] by simp
  moreover have "filter (\<lambda>j. \<not> slot_free j s') [0..<i] = filter (\<lambda>j. \<not> slot_free j s) [0..<i]"
    "filter (\<lambda>j. \<not> slot_free j s') [Suc i..<VM_MAX_SLOTS] = filter (\<lambda>j. \<not> slot_free j s) [Suc i..<VM_MAX_SLOTS]"
    by (rule filter_cong; use assms(4) in auto)+
  ultimately show ?thesis using assms(2,3) by (simp add: used_slots_def)
qed

lemma used_slots_max: "used_slots s \<le> VM_MAX_SLOTS"
  unfolding used_slots_def by (rule order_trans [OF length_filter_le]) simp

lemma slot_ok_elsewhere:
  assumes "slot_ok j s" "mx_slots s' ! j = mx_slots s ! j" "g_slot_vmm_ep s' ! j = g_slot_vmm_ep s ! j"
    and "g_slot_guest_id s' ! j = g_slot_guest_id s ! j" "g_slot_guest_bound s' ! j = g_slot_guest_bound s ! j"
    and "g_vm_types s' ! j = g_vm_types s ! j" "g_vm_flags s' ! j = g_vm_flags s ! j"
    and "j < 2 \<Longrightarrow> guest_protocol (slot_ep j) (vm_trace s') Idle = guest_protocol (slot_ep j) (vm_trace s) Idle"
  shows "slot_ok j s'"
  using assms by (auto simp: slot_defs)

lemma release_slot_ok:
  assumes "vm_inv_but i s" "i < 2" "not_booted (guest_protocol (slot_ep i) (vm_trace s) Idle)"
  shows "vm_inv (release_slot i s)"
proof -
  have i: "i < VM_MAX_SLOTS" using assms(2) by (simp add: VM_MAX_SLOTS_def)
  have sh: "vm_shape s" and ok: "\<And>j. j < VM_MAX_SLOTS \<Longrightarrow> j \<noteq> i \<Longrightarrow> slot_ok j s"
    and c: "mx_slot_count s = of_nat (used_slots s)" and nf: "\<not> slot_free i s"
    using assms(1) by (auto simp: vm_inv_but_def)
  have fr: "slot_free i (release_slot i s)" "\<And>j. j \<noteq> i \<Longrightarrow> slot_free j (release_slot i s) = slot_free j s"
    using sh i by (auto simp: release_slot_def set_slot_state_def slot_free_def Let_def vm_shape_def)
  have u: "used_slots s = Suc (used_slots (release_slot i s))" by (rule used_slots_change [OF i nf fr])
  have "unat (of_nat (used_slots s) :: u8) = used_slots s"
    using used_slots_max [of s] by (simp add: unat_of_nat VM_MAX_SLOTS_def)
  then have "(0 :: u8) < of_nat (used_slots s)" unfolding word_less_nat_alt using u by simp
  moreover have "mx_slot_count (release_slot i s) = (if 0 < mx_slot_count s then mx_slot_count s - 1 else mx_slot_count s)"
    by (simp add: release_slot_def set_slot_state_def Let_def)
  ultimately have "mx_slot_count (release_slot i s) = of_nat (used_slots (release_slot i s))" by (simp add: c) (simp add: u)
  moreover have "slot_ok j (release_slot i s)" if "j < VM_MAX_SLOTS" for j
  proof (cases "j = i")
    case True
    then show ?thesis using fr(1) sh i assms(3)
      by (auto simp: slot_ok_def slot_clear_def release_slot_def set_slot_state_def Let_def vm_shape_def
          not_booted_def VM_PROFILE_PRIMARY_def)
  next
    case False
    show ?thesis
      by (rule slot_ok_elsewhere [OF ok [OF that False]])
        (use False in \<open>simp_all add: release_slot_def set_slot_state_def Let_def\<close>)
  qed
  ultimately show ?thesis
    using assms(1) by (simp add: vm_inv_def vm_inv_but_def) (simp add: release_slot_def set_slot_state_def Let_def vm_shape_def)
qed

lemma type_slot:
  assumes "vm_shape s" "vm_type = VM_PROFILE_PRIMARY \<or> vm_type = VM_PROFILE_SECONDARY"
  shows "unat (dedicated_slot_for_type vm_type s) < 2"
    and "slot_type (unat (dedicated_slot_for_type vm_type s)) = vm_type"
    and "slot_ep (unat (dedicated_slot_for_type vm_type s)) = vm_endpoint_for_type vm_type s"
  using assms
  by (auto simp: vm_shape_def dedicated_slot_for_type_def slot_type_def slot_ep_def vm_endpoint_for_type_def
      VM_PROFILE_PRIMARY_def VM_PROFILE_SECONDARY_def PD_CNODE_SLOT_GUEST_VMM_PRIMARY_EP_def
      PD_CNODE_SLOT_GUEST_VMM_SECONDARY_EP_def)

lemma claim_slot_ok:
  assumes inv: "vm_inv s" and ty: "vm_type = VM_PROFILE_PRIMARY \<or> vm_type = VM_PROFILE_SECONDARY"
    and sid: "slot_id = dedicated_slot_for_type vm_type s" and free: "slot_free (unat slot_id) s"
  shows "vm_inv_but (unat slot_id) (claim_slot vm_type flags slot_id s)"
proof -
  let ?i = "unat slot_id" and ?s = "claim_slot vm_type flags slot_id s"
  have sh: "vm_shape s" using inv by (simp add: vm_inv_def)
  note i2 = type_slot(1) [OF sh ty, folded sid]
  then have i: "?i < VM_MAX_SLOTS" by (simp add: VM_MAX_SLOTS_def)
  have fr: "\<not> slot_free ?i ?s" "\<And>j. j \<noteq> ?i \<Longrightarrow> slot_free j s = slot_free j ?s"
    using sh i by (auto simp: claim_slot_def slot_free_def Let_def vm_shape_def)
  have "used_slots ?s = Suc (used_slots s)" by (rule used_slots_change [OF i fr(1) free fr(2)])
  then have "mx_slot_count ?s = of_nat (used_slots ?s)" using inv by (simp add: vm_inv_def claim_slot_def Let_def)
  moreover have "slot_ok j ?s" if "j < VM_MAX_SLOTS" "j \<noteq> ?i" for j
    by (rule slot_ok_elsewhere [OF inv_slot [OF inv that(1)]]) (use that(2) in \<open>simp_all add: claim_slot_def Let_def\<close>)
  moreover have "vm_shape ?s" using sh by (simp add: vm_shape_def claim_slot_def Let_def)
  ultimately show ?thesis
    using inv fr(1) by (simp add: vm_inv_but_def vm_inv_def) (simp add: claim_slot_def Let_def)
qed


lemma shape_guest_at [simp]: "vm_shape (guest_at i g b tr s) = vm_shape s"
  by (simp add: vm_shape_def guest_at_def)

lemma inv_but_guest_at:
  assumes "vm_inv_but i s" "\<And>j. j < 2 \<Longrightarrow> j \<noteq> i \<Longrightarrow>
    guest_protocol (slot_ep j) tr Idle = guest_protocol (slot_ep j) (vm_trace s) Idle"
  shows "vm_inv_but i (guest_at i g b tr s)"
proof -
  have "slot_ok j (guest_at i g b tr s)" if "j < VM_MAX_SLOTS" "j \<noteq> i" for j
    by (rule slot_ok_elsewhere [of j s]) (use assms that in \<open>simp_all add: vm_inv_but_def guest_at_def\<close>)
  then show ?thesis
    using assms(1) by (simp add: vm_inv_but_def) (simp add: guest_at_def slot_free_def used_slots_def)
qed

lemma inv_but_live: "vm_inv_but i s \<Longrightarrow> i < VM_MAX_SLOTS \<Longrightarrow> slot_live i s \<Longrightarrow> vm_inv s"
  unfolding vm_inv_but_def vm_inv_def by (metis slot_ok_def)

lemma claim_slot_fields:
  assumes "vm_shape s" "unat slot_id < VM_MAX_SLOTS" "slot_type (unat slot_id) = vm_type"
  shows "g_slot_vmm_ep (claim_slot vm_type flags slot_id s) ! unat slot_id = vm_endpoint_for_type vm_type s"
    "sl_state (mx_slots (claim_slot vm_type flags slot_id s) ! unat slot_id) = VM_SLOT_RUNNING"
    "vm_trace (claim_slot vm_type flags slot_id s) = vm_trace s"
    "vm_shape (claim_slot vm_type flags slot_id s)"
  using assms by (simp_all add: claim_slot_def Let_def vm_shape_def)

lemma claimed_live:
  assumes "vm_shape s" "unat slot_id < 2" "slot_type (unat slot_id) = vm_type"
    and "slot_ep (unat slot_id) = vm_endpoint_for_type vm_type s"
    and "guest_protocol (slot_ep (unat slot_id)) tr Idle = Some (Booted g)"
  shows "slot_live (unat slot_id) (guest_at (unat slot_id) g True tr (claim_slot vm_type flags slot_id s))"
  using assms by (simp add: slot_live_def guest_at_def claim_slot_def Let_def vm_shape_def VM_MAX_SLOTS_def)

text \<open>The manager's state without the trace, the console focus and the description of free slots.\<close>

definition blank_slot :: vm_slot where
  "blank_slot = \<lparr>sl_id = 0, sl_state = VM_SLOT_FREE, sl_ram_vaddr = 0, sl_ram_size = 0, sl_ram_paddr = 0,
     sl_vcpu_id = 0, sl_label = []\<rparr>"

definition lifecycle :: "vm_state \<Rightarrow> vm_state" where
  "lifecycle s = s\<lparr>vm_trace := [], mx_active_slot := 0,
     mx_slots := map (\<lambda>sl. if sl_state sl = VM_SLOT_FREE then blank_slot else sl) (mx_slots s)\<rparr>"

lemma update_back: "xs ! i = x \<Longrightarrow> xs[i := x] = xs"
  by auto

lemma released_lifecycle:
  assumes inv: "vm_inv s" and i: "unat slot_id < VM_MAX_SLOTS" and free: "slot_free (unat slot_id) s"
  shows "lifecycle (release_slot (unat slot_id) (guest_at (unat slot_id) g b tr (claim_slot vm_type flags slot_id s))) =
    lifecycle s"
proof -
  let ?i = "unat slot_id"
  have sh: "vm_shape s" using inv by (simp add: vm_inv_def)
  have cl: "slot_clear ?i s" by (rule free_is_clear [OF inv i free])
  have "unat (mx_slot_count s) \<le> 4"
    using inv used_slots_max [of s] by (simp add: vm_inv_def unat_of_nat VM_MAX_SLOTS_def)
  then have cnt: "0 < mx_slot_count s + 1" by (auto simp: word_gt_0 eq_neg_iff_add_eq_0 [symmetric] unsigned_minus_1_eq_mask mask_eq_exp_minus_1)
  have slots: "map f ((mx_slots s)[?i := x]) = map f (mx_slots s)" if "f x = f (mx_slots s ! ?i)" for f :: "vm_slot \<Rightarrow> vm_slot" and x
    using that by (simp add: map_update list_update_same_conv flip: nth_map) (metis list_update_id map_update)
  show ?thesis
    using cl sh i free cnt slots
    by (cases s) (simp add: lifecycle_def release_slot_def set_slot_state_def claim_slot_def guest_at_def Let_def vm_shape_def
        slot_clear_def slot_free_def VM_PROFILE_PRIMARY_def update_back)
qed


lemma claim_and_start:
  assumes inv: "vm_inv s" and ty: "vm_type = VM_PROFILE_PRIMARY \<or> vm_type = VM_PROFILE_SECONDARY"
    and sid: "slot_id = dedicated_slot_for_type vm_type s" and free: "slot_free (unat slot_id) s"
    and st: "start_guest en vm_type slot_id ep (claim_slot vm_type flags slot_id s) = (ok, t)"
  shows "\<exists>g b. t = guest_at (unat slot_id) g b (vm_trace t) (claim_slot vm_type flags slot_id s) \<and>
    vm_inv_but (unat slot_id) t \<and>
    (if ok then b \<and> guest_protocol (slot_ep (unat slot_id)) (vm_trace t) Idle = Some (Booted g)
     else not_booted (guest_protocol (slot_ep (unat slot_id)) (vm_trace t) Idle))"
proof -
  let ?i = "unat slot_id" and ?c = "claim_slot vm_type flags slot_id s"
  have sh: "vm_shape s" using inv by (simp add: vm_inv_def)
  note ts = type_slot [OF sh ty, folded sid]
  have i: "?i < VM_MAX_SLOTS" using ts(1) by (simp add: VM_MAX_SLOTS_def)
  note cf = claim_slot_fields [OF sh i ts(2), of flags]
  have nb: "not_booted (guest_protocol (slot_ep ?i) (vm_trace ?c) Idle)"
    using free_is_clear [OF inv i free] ts(1) cf(3) by (simp add: slot_clear_def not_booted_def)
  obtain g b where t: "t = guest_at ?i g b (vm_trace t) ?c"
      "\<And>j. j < 2 \<Longrightarrow> j \<noteq> ?i \<Longrightarrow> guest_protocol (slot_ep j) (vm_trace t) Idle = guest_protocol (slot_ep j) (vm_trace ?c) Idle"
    and ph: "if ok then b \<and> guest_protocol (slot_ep ?i) (vm_trace t) Idle = Some (Booted g)
      else not_booted (guest_protocol (slot_ep ?i) (vm_trace t) Idle)"
    using start_guest_outcome [OF ts(1) _ cf(4) cf(2) nb st] cf(1) ts(3) by (auto simp: guest_moved_def)
  have "vm_inv_but ?i t"
    using inv_but_guest_at [OF claim_slot_ok [OF inv ty sid free, of flags] t(2), of g b] t(1) by simp
  with t(1) ph show ?thesis by blast
qed

lemma dedicated_create_outcome:
  assumes inv: "vm_inv s" and ty: "vm_type = VM_PROFILE_PRIMARY \<or> vm_type = VM_PROFILE_SECONDARY"
    and run: "dedicated_create en vm_type ram_mb flags s = ((rc, slot), s')"
  shows "vm_inv s' \<and> rc \<noteq> - 1 \<and> (rc \<noteq> 0 \<longrightarrow> lifecycle s' = lifecycle s) \<and>
    (rc = 0 \<longrightarrow> slot = dedicated_slot_for_type vm_type s \<and> slot_free (unat slot) s \<and> slot_live (unat slot) s')"
proof -
  let ?sid = "dedicated_slot_for_type vm_type s"
  let ?i = "unat ?sid" and ?c = "claim_slot vm_type flags ?sid s"
  have sh: "vm_shape s" using inv by (simp add: vm_inv_def)
  note ts = type_slot [OF sh ty]
  have i: "?i < VM_MAX_SLOTS" using ts(1) by (simp add: VM_MAX_SLOTS_def)
  have ep: "vm_endpoint_for_type vm_type s \<noteq> 0" using ts(1,3) by (metis not_less slot_ep_simps(2))
  obtain ok t where st: "start_guest en vm_type ?sid (vm_endpoint_for_type vm_type s) ?c = (ok, t)" by fastforce
  have eq: "dedicated_create en vm_type ram_mb flags s =
      (if dedicated_ram_capacity_mb vm_type < ram_mb then ((- 4, 0xFF), s)
       else if \<not> slot_free ?i s then ((- 2, 0xFF), s)
       else if \<not> ok then ((- 3, 0xFF), release_slot ?i t) else ((0, ?sid), t))"
    using ep i by (simp add: dedicated_create_def Let_def st slot_free_def)
  then consider (refused) "((rc, slot), s') = ((- 4, 0xFF), s) \<or> ((rc, slot), s') = ((- 2, 0xFF), s)"
    | (failed) "slot_free ?i s" "\<not> ok" "((rc, slot), s') = ((- 3, 0xFF), release_slot ?i t)"
    | (made) "slot_free ?i s" "ok" "((rc, slot), s') = ((0, ?sid), t)"
    using run by (cases "dedicated_ram_capacity_mb vm_type < ram_mb"; cases "slot_free ?i s"; cases ok) simp_all
  then show ?thesis
  proof cases
    case refused
    then show ?thesis using inv by auto
  next
    case failed
    obtain g b where t: "t = guest_at ?i g b (vm_trace t) ?c" "vm_inv_but ?i t"
        "not_booted (guest_protocol (slot_ep ?i) (vm_trace t) Idle)"
      using claim_and_start [OF inv ty refl failed(1) st] failed(2) by auto
    have "vm_inv s'" using release_slot_ok [OF t(2) ts(1) t(3)] failed(3) by simp
    moreover have "lifecycle s' = lifecycle s"
      using released_lifecycle [OF inv i failed(1), of g b "vm_trace t" vm_type flags] t(1) failed(3) by simp
    ultimately show ?thesis using failed(3) by simp
  next
    case made
    obtain g where t: "t = guest_at ?i g True (vm_trace t) ?c" "vm_inv_but ?i t"
        "guest_protocol (slot_ep ?i) (vm_trace t) Idle = Some (Booted g)"
      using claim_and_start [OF inv ty refl made(1) st] made(2) by auto
    have "slot_live ?i t" using claimed_live [OF sh ts t(3), of flags] t(1) by simp
    then show ?thesis using inv_but_live [OF t(2) i] made by simp
  qed
qed

lemma destroy_ok:
  assumes inv: "vm_inv s" and has: "has_vmm slot_id s" and run: "dedicated_destroy en slot_id s = (rc, s')"
  shows "vm_inv s'"
proof -
  let ?i = "unat slot_id"
  have i: "?i < VM_MAX_SLOTS" "\<not> slot_free ?i s" using has inv vmm_iff_used by (auto simp: has_vmm_def)
  have live: "slot_live ?i s" by (rule used_is_live [OF inv i])
  obtain c out t where r: "dedicated_guest_rpc en slot_id MSG_GUEST_DESTROY [0, 0, 0, 0, GUEST_DESTROY_NORMAL, 0, 0, 0] s = ((c, out), t)"
    by (metis prod.collapse)
  have "MSG_GUEST_DESTROY \<noteq> MSG_GUEST_CREATE" by (simp add: guest_ops)
  then obtain req rep where t: "t = s\<lparr>vm_trace := vm_trace s @ [VmRpc (slot_ep ?i) req rep]\<rparr>"
    and q: "ms_opcode req = MSG_GUEST_DESTROY" "msg_u32 req 0 = g_slot_guest_id s ! ?i"
    and c: "c = (if ms_opcode rep = GUEST_OK then VM_OK else VM_ERR)"
    using guest_rpc_sent [OF _ i(1) _ _ _ _ r] live by (auto simp: slot_live_def)
  let ?g = "g_slot_guest_id s ! ?i"
  have st: "guest_request_step req rep (Booted ?g) = Some (if c = VM_OK then Idle else Booted ?g)"
    using q c by (simp add: guest_ops vm_codes)
  have oth: "slot_ok j t" if "j < VM_MAX_SLOTS" "j \<noteq> ?i" for j
    by (rule slot_ok_elsewhere [OF inv_slot [OF inv that(1)]])
      (use live that in \<open>simp_all add: t protocol_rpc slot_live_def\<close>)
  have pr: "guest_protocol (slot_ep ?i) (vm_trace t) Idle = Some (if c = VM_OK then Idle else Booted ?g)"
    using live st by (simp add: t protocol_rpc slot_live_def)
  have but: "vm_inv_but ?i t" using inv oth i by (simp add: vm_inv_but_def vm_inv_def) (simp add: t vm_shape_def slot_free_def)
  show ?thesis
  proof (cases "c = VM_OK")
    case False
    then have "s' = t" using run r by (simp add: dedicated_destroy_def dedicated_guest_call_def vm_codes)
    moreover have "slot_live ?i t" using live pr False by (simp add: slot_live_def t)
    ultimately show ?thesis using inv_but_live [OF but i(1)] by simp
  next
    case True
    then have "s' = release_slot ?i (set_slot_state ?i VM_SLOT_HALTED t)"
      using run r by (auto simp: dedicated_destroy_def dedicated_guest_call_def vm_codes)
    also have "\<dots> = release_slot ?i t"
      using but i(1) by (simp add: release_slot_def set_slot_state_def Let_def vm_inv_but_def vm_shape_def)
    finally show ?thesis using release_slot_ok [OF but] live pr True by (simp add: slot_live_def not_booted_def)
  qed
qed

end
