(* ===== verification/VmService.thy ===== *)
theory VmService
  imports VmLifecycle
begin

text \<open>
  The VM manager as a service: every request handler keeps the manager's invariant and leaves a
  well-formed reply, hence so does the service loop with its scheduler ticks; the properties of the
  manager.
\<close>

unbundle bit_operations_syntax

section \<open>The handlers keep the invariant\<close>

definition vm_keeps :: "vm_out \<Rightarrow> bool" where
  "vm_keeps out \<longleftrightarrow> reply_ok (fst (snd out)) \<and> vm_inv (snd (snd out))"

lemma vm_keepsI [intro]: "reply_ok rep \<Longrightarrow> vm_inv s \<Longrightarrow> vm_keeps (rc, rep, s)"
  by (simp add: vm_keeps_def)

lemma reply_ok_vm [simp]:
  "reply_ok rep \<Longrightarrow> reply_ok (reply4 v rep)" "reply_ok rep \<Longrightarrow> reply_ok (reply8 v w rep)"
  by (simp_all add: reply4_def reply8_def reply_ok_typed SEL4_MSG_DATA_BYTES_def)

lemma typed_rep_u64 [simp]: "msg_typed (rep_u64 off v m) = msg_typed m"
  by (simp add: rep_u64_def)

lemma create_type: "vm_create_vm_type req = VM_PROFILE_PRIMARY \<or> vm_create_vm_type req = VM_PROFILE_SECONDARY"
  by (auto simp: vm_create_vm_type_def Let_def)

lemma h_create_eq:
  assumes "vm_inv s"
    and d: "dedicated_create en (vm_create_vm_type req) (vm_create_ram_mb req) (vm_create_flags req) s = ((rc, slot), s')"
  shows "h_create en req rep s =
    (if vm_create_ram_mb req \<noteq> 0 \<and> (vm_create_ram_mb req < 64 \<or> vm_create_ram_mb req AND 3 \<noteq> 0)
     then (SEL4_ERR_BAD_ARG, reply4 VM_ERR rep, s)
     else if rc = 0 then (SEL4_ERR_OK, reply8 VM_OK (ucast slot) rep, s')
     else (if rc = - 2 then SEL4_ERR_BUSY else if rc = - 3 then SEL4_ERR_INTERNAL else SEL4_ERR_BAD_ARG,
       reply4 VM_ERR rep, s'))"
proof -
  have "rc \<noteq> - 1" using dedicated_create_outcome [OF assms(1) create_type d] by simp
  then have rc: "rc = 0 \<or> rc = - 2 \<or> rc = - 3 \<or> rc = - 4"
    using d by (auto simp: dedicated_create_def Let_def split: if_splits prod.splits)
  have ty: "\<not> (vm_create_vm_type req \<noteq> VM_PROFILE_PRIMARY \<and> vm_create_vm_type req \<noteq> VM_PROFILE_SECONDARY)"
    using create_type [of req] by blast
  from rc show ?thesis by (elim disjE) (simp_all only: h_create_def Let_def ty if_False d prod.case, simp_all)
qed

lemma h_create_keeps:
  assumes "vm_inv s" "reply_ok rep" shows "vm_keeps (h_create en req rep s)"
proof -
  obtain rc slot s' where d: "dedicated_create en (vm_create_vm_type req) (vm_create_ram_mb req) (vm_create_flags req) s = ((rc, slot), s')"
    by (metis prod.collapse)
  then have "vm_inv s'" using dedicated_create_outcome [OF assms(1) create_type d] by simp
  then show ?thesis using assms unfolding h_create_eq [OF assms(1) d] by (simp add: vm_keeps_def)
qed

lemma h_destroy_keeps: "vm_inv s \<Longrightarrow> reply_ok rep \<Longrightarrow> vm_keeps (h_destroy en req rep s)"
  using destroy_ok by (auto simp: h_destroy_def Let_def vmm_mux_destroy_def split: prod.splits)

lemma slot_used_iff: "slot_used slot_id s \<longleftrightarrow> unat slot_id < VM_MAX_SLOTS \<and> \<not> slot_free (unat slot_id) s"
  by (simp add: slot_used_def slot_free_def)

lemma used_has_vmm: "vm_inv s \<Longrightarrow> slot_used slot_id s = has_vmm slot_id s"
  using vmm_iff_used by (auto simp: slot_used_iff has_vmm_def)

lemma booted_ops_mem [simp]:
  "MSG_GUEST_SUSPEND \<in> booted_ops" "MSG_GUEST_RESUME \<in> booted_ops"
  "MSG_GUEST_SEND_INPUT \<in> booted_ops" "MSG_GUEST_CONSOLE_DRAIN \<in> booted_ops"
  by (simp_all add: booted_ops_def)

lemma guest_call_keeps:
  assumes "vm_inv s" "has_vmm slot_id s" "opc \<in> booted_ops" "st \<noteq> VM_SLOT_FREE"
  shows "vm_inv (snd (dedicated_guest_call en slot_id opc st s))"
  using guest_call_ok [OF assms] by (metis prod.collapse)

lemma h_start_keeps: "vm_inv s \<Longrightarrow> reply_ok rep \<Longrightarrow> vm_keeps (h_start en req rep s)"
  using guest_call_ok [of s _ MSG_GUEST_RESUME VM_SLOT_RUNNING]
  by (auto simp: h_start_def Let_def vmm_mux_resume_def used_has_vmm split: prod.splits if_splits)

lemma h_stop_keeps: "vm_inv s \<Longrightarrow> reply_ok rep \<Longrightarrow> vm_keeps (h_stop en req rep s)"
  using guest_call_ok [of s _ MSG_GUEST_SUSPEND VM_SLOT_SUSPENDED]
  by (auto simp: h_stop_def Let_def vmm_mux_pause_def used_has_vmm split: prod.splits if_splits)

lemma h_pause_keeps: "vm_inv s \<Longrightarrow> reply_ok rep \<Longrightarrow> vm_keeps (h_pause en req rep s)"
  using guest_call_ok [of s _ MSG_GUEST_SUSPEND VM_SLOT_SUSPENDED]
  by (auto simp: h_pause_def Let_def vmm_mux_pause_def split: prod.splits)

lemma h_resume_keeps: "vm_inv s \<Longrightarrow> reply_ok rep \<Longrightarrow> vm_keeps (h_resume en req rep s)"
  using guest_call_ok [of s _ MSG_GUEST_RESUME VM_SLOT_RUNNING]
  by (auto simp: h_resume_def Let_def vmm_mux_resume_def split: prod.splits)


lemma inv_active [simp]: "vm_inv (s\<lparr>mx_active_slot := a\<rparr>) = vm_inv s"
  by (simp add: vm_inv_def vm_shape_def)

lemma inv_shmem [simp]: "vm_inv (s\<lparr>vm_list_shmem := l\<rparr>) = vm_inv s"
  by (simp add: vm_inv_def vm_shape_def)

lemma h_console_keeps: "vm_inv s \<Longrightarrow> reply_ok rep \<Longrightarrow> vm_keeps (h_console req rep s)"
  by (auto simp: h_console_def Let_def vmm_mux_switch_def)

lemma h_send_input_keeps:
  assumes "vm_inv s" "reply_ok rep" "reply_ok req" shows "vm_keeps (h_send_input en req rep s)"
proof -
  let ?id = "ucast (vm_arg_u32 req 0) :: u8"
  let ?p = "[0, 0, 0, 0] @ take (unat (ms_length req - 4)) (drop 4 (ms_data req))"
  obtain rc out s' where r: "dedicated_guest_rpc en ?id MSG_GUEST_SEND_INPUT ?p s = ((rc, out), s')"
    by (metis prod.collapse)
  have "length ?p \<le> 48" using assms(3) by (simp add: reply_ok_def msg_typed_def)
  then have "slot_used ?id s \<Longrightarrow> vm_inv s'"
    using live_rpc_ok(1) [OF assms(1) _ _ _ _ _ r] by (simp add: slot_used_iff)
  then show ?thesis using assms r by (auto simp: h_send_input_def Let_def)
qed

lemma h_console_drain_keeps:
  assumes "vm_inv s" "reply_ok rep" shows "vm_keeps (h_console_drain en req rep s)"
proof -
  let ?id = "ucast (vm_arg_u32 req 0) :: u8"
  define mx where "mx = (if VM_MANAGER_CONSOLE_INLINE_BYTES < vm_arg_u32 req 1 then VM_MANAGER_CONSOLE_INLINE_BYTES else vm_arg_u32 req 1)"
  let ?p = "[0, 0, 0, 0, ucast (mx AND 0xff), ucast (drop_bit 8 mx AND 0xff), ucast (drop_bit 16 mx AND 0xff),
    ucast (drop_bit 24 mx AND 0xff)] :: u8 list"
  obtain rc out s' where r: "dedicated_guest_rpc en ?id MSG_GUEST_CONSOLE_DRAIN ?p s = ((rc, out), s')"
    by (metis prod.collapse)
  have inv: "slot_used ?id s \<Longrightarrow> vm_inv s'" using live_rpc_ok(1) [OF assms(1) _ _ _ _ _ r] by (simp add: slot_used_iff)
  have fold_len: "length (fold (\<lambda>i d. d[8 + i := f i]) js d) = length d" for f js and d :: "u8 list"
    by (induction js arbitrary: d) simp_all
  have n: "8 + n \<le> SEL4_MSG_DATA_BYTES" if "n \<le> VM_MANAGER_CONSOLE_INLINE_BYTES" for n :: u32
    using that by (simp add: VM_MANAGER_CONSOLE_INLINE_BYTES_def SEL4_MSG_DATA_BYTES_def word_le_nat_alt unat_word_ariths)
  have m: "reply_ok (m\<lparr>ms_data := d, ms_length := k\<rparr>)" if "length d = 48" "k \<le> SEL4_MSG_DATA_BYTES" for m d k
    using that by (simp add: reply_ok_def msg_typed_def)
  have l: "length (ms_data (rep_u32 4 v (rep_u32 0 w rep))) = 48" for v w
    using assms(2) by (simp add: reply_ok_def msg_typed_def rep_u32_def)
  show ?thesis
    using assms inv n unfolding h_console_drain_def Let_def mx_def [symmetric] r
    by (auto simp: fold_len l intro!: m)
qed

lemma h_info_keeps: "vm_inv s \<Longrightarrow> reply_ok rep \<Longrightarrow> vm_keeps (h_info req rep s)"
  by (auto simp: h_info_def Let_def reply_ok_typed SEL4_MSG_DATA_BYTES_def)

lemma h_list_keeps: "vm_inv s \<Longrightarrow> reply_ok rep \<Longrightarrow> vm_keeps (h_list rep s)"
  by (auto simp: h_list_def split: option.splits prod.splits)

lemma h_snapshot_keeps: "vm_inv s \<Longrightarrow> reply_ok rep \<Longrightarrow> vm_keeps (h_snapshot_restore rep s)"
  by (auto simp: h_snapshot_restore_def)

lemma vm_set_quota_ok: assumes "vm_inv s" shows "vm_inv (snd (vm_set_quota slot_id pct s))"
proof -
  define p where "p = (if 100 < pct then 100 else pct)"
  have p: "p \<le> 100" by (auto simp: p_def)
  have "quota_ok (q\<lparr>qt_max_cpu_pct := p, qt_credits := quota_credits p\<rparr>)" for q
    using p quota_credits_bounds [OF p] by (simp add: quota_ok_def)
  then show ?thesis
    using assms quota_credits_bounds [OF p]
    by (auto simp: vm_set_quota_def Let_def set_quota_def vm_inv_def vm_shape_def list_all_update nth_list_update p_def [symmetric])
qed

lemma h_configure_keeps: "vm_inv s \<Longrightarrow> reply_ok rep \<Longrightarrow> vm_keeps (h_configure req rep s)"
  by (auto simp: h_configure_def Let_def vm_set_quota_ok)

lemma h_set_quota_keeps: "vm_inv s \<Longrightarrow> reply_ok rep \<Longrightarrow> vm_keeps (h_set_quota req rep s)"
  using vm_set_quota_ok [of s "ucast (vm_arg_u32 req 0)" "ucast (vm_arg_u32 req 1)"]
  by (auto simp: h_set_quota_def split: prod.splits)

lemma h_get_stats_keeps: "vm_inv s \<Longrightarrow> reply_ok rep \<Longrightarrow> vm_keeps (h_get_stats req rep s)"
  by (auto simp: h_get_stats_def reply_ok_typed SEL4_MSG_DATA_BYTES_def split: option.splits)

lemma h_set_affinity_keeps: "vm_inv s \<Longrightarrow> reply_ok rep \<Longrightarrow> vm_keeps (h_set_affinity req rep s)"
  by (auto simp: h_set_affinity_def vmm_set_affinity_def vm_inv_def vm_shape_def)

lemma h_inject_irq_keeps: "vm_inv s \<Longrightarrow> reply_ok rep \<Longrightarrow> vm_keeps (h_inject_irq req rep s)"
  by (auto simp: h_inject_irq_def vmm_inject_irq_def)

lemmas handlers_keep = h_create_keeps h_destroy_keeps h_start_keeps h_stop_keeps h_pause_keeps h_resume_keeps
  h_console_keeps h_info_keeps h_list_keeps h_snapshot_keeps h_configure_keeps h_send_input_keeps
  h_console_drain_keeps h_set_quota_keeps h_get_stats_keeps h_set_affinity_keeps h_inject_irq_keeps

section \<open>The service\<close>

lemma register_all:
  "length (sv_handlers srv) + length hs \<le> SEL4_SERVER_MAX_HANDLERS \<Longrightarrow>
     sv_handlers (fold (\<lambda>(opcode, fn) srv. snd (sel4_server_register opcode fn srv)) hs srv) = sv_handlers srv @ hs"
  by (induction hs arbitrary: srv) (auto simp: sel4_server_register_def)

lemma vm_srv_handlers: "sv_handlers (vm_srv en ep) = vm_handlers en"
proof -
  have "length (vm_handlers en) = 18" by (simp add: vm_handlers_def)
  then show ?thesis by (simp add: vm_srv_def register_all sel4_server_init_def SEL4_SERVER_MAX_HANDLERS_def)
qed

interpretation vms: rpc_service "vm_srv en ep" vm_inv
proof
  fix op fn req rep s r badge rc rep' s'
  assume h: "(op, fn) \<in> set (sv_handlers (vm_srv en ep))" "reply_ok req" "reply_ok rep" "vm_inv s"
    and f: "fn r badge req rep s = (rc, rep', s')"
  have "vm_keeps (fn r badge req rep s)"
    using h unfolding vm_srv_handlers vm_handlers_def by (auto intro: handlers_keep)
  then show "reply_ok rep' \<and> vm_inv s'" by (simp add: vm_keeps_def f)
qed


section \<open>The loop\<close>

definition credits_ok :: "sched \<Rightarrow> bool" where
  "credits_ok sc \<longleftrightarrow> fst sc < VM_MAX_SLOTS \<and> 0 \<le> snd sc (fst sc) \<and>
     (\<forall>i < VM_MAX_SLOTS. - 1 \<le> snd sc i \<and> snd sc i \<le> 400)"

lemma tick_spec_credits:
  assumes "credits_ok sc" "\<forall>i < VM_MAX_SLOTS. 0 \<le> share i \<and> share i \<le> 400"
  shows "credits_ok (tick_spec run share sc)"
proof -
  obtain cur cr where sc: "sc = (cur, cr)" by (cases sc)
  have c: "cur < VM_MAX_SLOTS" "0 \<le> cr cur" "\<forall>i < VM_MAX_SLOTS. - 1 \<le> cr i \<and> cr i \<le> 400"
    using assms(1) by (auto simp: credits_ok_def sc)
  have f: "k < VM_MAX_SLOTS" if "find run [0..<VM_MAX_SLOTS] = Some k" for k
    using find_slot [OF that, of VM_MAX_SLOTS] by (simp add: lessThan_atLeast0)
  have r: "k < VM_MAX_SLOTS" if "find (\<lambda>i. run i \<and> i \<noteq> cur) (rotation cur) = Some k" for k
    using find_slot [OF that rotation_slots] by simp
  show ?thesis
    using c assms(2) f r by (auto simp: sc tick_spec_def credits_ok_def split: option.splits)
qed

lemma inv_credits: "vm_inv s \<Longrightarrow> credits_ok (sched_abs s)"
  by (auto simp: vm_inv_def vm_shape_def credits_ok_def sched_abs_def list_all_length quota_ok_def)

lemma inv_shares: "vm_inv s \<Longrightarrow> i < VM_MAX_SLOTS \<Longrightarrow> 0 \<le> slot_share s i \<and> slot_share s i \<le> 400"
  using quota_credits_bounds by (simp add: vm_inv_def vm_shape_def slot_share_def list_all_length quota_ok_def)

lemma inv_sched:
  assumes "vm_inv s" "same_but_sched s s'" "credits_ok (sched_abs s')" shows "vm_inv s'"
proof -
  obtain Q c where s': "s' = s\<lparr>g_quotas := Q, g_sched_current := c\<rparr>" "length Q = length (g_quotas s)"
    and pct: "\<And>i. i < length (g_quotas s) \<Longrightarrow> qt_max_cpu_pct (Q ! i) = qt_max_cpu_pct (g_quotas s ! i)"
    using assms(2) by (auto elim: same_schedE)
  have "list_all quota_ok Q"
    using assms(1,3) s' pct by (auto simp: vm_inv_def vm_shape_def credits_ok_def sched_abs_def list_all_length quota_ok_def)
  then show ?thesis
    using assms(1,3) s' by (auto simp: vm_inv_def vm_shape_def credits_ok_def sched_abs_def)
qed

lemma tick_ok: assumes "vm_inv s" shows "vm_inv (vm_sched_tick s)"
proof -
  have s: "length (g_quotas s) = VM_MAX_SLOTS" "unat (g_sched_current s) < VM_MAX_SLOTS"
    using assms by (auto simp: vm_inv_def vm_shape_def)
  show ?thesis
    using inv_sched [OF assms tick_refines(1) [OF s]] tick_refines(2) [OF s] inv_shares [OF assms]
      tick_spec_credits [OF inv_credits [OF assms]] by simp
qed

lemma count_ipc_ok: "vm_inv s \<Longrightarrow> vm_inv (vm_count_ipc s)"
proof -
  assume i: "vm_inv s"
  have "vm_inv (s\<lparr>g_ipc_counter := c\<rparr>) \<longleftrightarrow> c < VM_SCHED_IPC_QUANTUM" for c
    using i by (auto simp: vm_inv_def vm_shape_def)
  then show ?thesis by (simp add: vm_count_ipc_def Let_def tick_ok VM_SCHED_IPC_QUANTUM_def not_le)
qed

lemma vm_passes_keep:
  "reply_ok rep \<Longrightarrow> vm_inv s \<Longrightarrow> vm_inv (snd (vm_passes en ep inps (rep, s)))"
proof (induction inps arbitrary: rep s)
  case (Cons inp inps)
  obtain badge r where inp: "inp = (badge, r)" by (cases inp)
  obtain rc rp t where d: "sel4_server_dispatch (vm_srv en ep) r badge (sel4_mrs_to_msg r)
      (rep\<lparr>ms_opcode := 0, ms_length := 0\<rparr>) (vm_count_ipc s) = (rc, rp, t)"
    using prod_cases3 by blast
  note k = vms.dispatch_keeps [OF mrs_to_msg_ok vms.reset_ok [OF Cons.prems(1)] count_ipc_ok [OF Cons.prems(2)] d]
  show ?case using Cons.IH [OF k(1,2)] by (simp add: inp server_pass_def d Let_def split: prod.splits) auto
qed simp

text \<open>The state at start: zeroed counters and nothing sent.\<close>

definition vm_boot :: "vm_state \<Rightarrow> bool" where
  "vm_boot s \<longleftrightarrow> length (mx_slots s) = VM_MAX_SLOTS \<and> g_ipc_counter s = 0 \<and> vm_trace s = []"

lemma boot_inv: assumes "vm_boot s" shows "vm_inv (vm_manager_register_with_nameserver ns_ep (vm_manager_init s))"
proof -
  let ?s = "vm_manager_register_with_nameserver ns_ep (vm_manager_init s)"
  have fr: "slot_free i ?s" if "i < VM_MAX_SLOTS" for i
    using that assms by (auto simp: slot_free_def vm_manager_register_with_nameserver_def vm_manager_init_def vmm_mux_init_def vm_boot_def)
  have "slot_ok i ?s" if "i < VM_MAX_SLOTS" for i
    using fr [OF that] that assms
    by (auto simp: slot_ok_def slot_clear_def vm_manager_register_with_nameserver_def vm_manager_init_def vmm_mux_init_def
        vm_boot_def VM_PROFILE_PRIMARY_def)
  moreover have "used_slots ?s = 0" using fr by (auto simp: used_slots_def filter_empty_conv)
  moreover have "quota_ok \<lparr>qt_max_cpu_pct = 100 div of_nat VM_MAX_SLOTS, qt_credits = 0, qt_run_ticks = 0, qt_preempt_count = 0\<rparr>"
    by (simp add: quota_ok_def VM_MAX_SLOTS_def)
  ultimately show ?thesis
    using assms by (simp add: vm_inv_def vm_shape_def) (auto simp: vm_manager_register_with_nameserver_def vm_manager_init_def
      vmm_mux_init_def vm_boot_def list_all_iff VM_SCHED_IPC_QUANTUM_def, auto simp: VM_MAX_SLOTS_def)
qed

lemma main_inv: "vm_boot s \<Longrightarrow> vm_inv (snd (vm_manager_main en my_ep ns_ep inps s))"
  by (simp add: vm_manager_main_def vm_passes_keep boot_inv)


section \<open>Properties\<close>

lemma guest_windows:
  "dedicated_ram_base (slot_type 0) sl = 0xc0000000" "dedicated_ram_base (slot_type (Suc 0)) sl = 0x80000000"
  "push_bit 20 (ucast (dedicated_ram_capacity_mb (slot_type 0))) = (0x40000000 :: u64)"
  "push_bit 20 (ucast (dedicated_ram_capacity_mb (slot_type (Suc 0)))) = (0x10000000 :: u64)"
  by (simp_all add: dedicated_ram_base_def dedicated_ram_capacity_mb_def slot_type_def VM_PROFILE_PRIMARY_def
      VM_PROFILE_SECONDARY_def AOS_PRIMARY_GUEST_RAM_BASE_def AOS_SECONDARY_GUEST_RAM_BASE_def AOS_PRIMARY_GUEST_RAM_MB_def
      AOS_SECONDARY_GUEST_RAM_MB_def AOS_PRIMARY_GUEST_RAM_SIZE_def AOS_SECONDARY_GUEST_RAM_SIZE_def
      drop_bit_eq_div push_bit_eq_mult)

lemma percentage:
  fixes b p :: u32
  assumes "\<not> p \<le> b" "unat b * 100 < 2 ^ 32"
  shows "unat b * 100 div unat p < 100" "unat (ucast (b * 100 div p) :: u8) = unat b * 100 div unat p"
proof -
  have "unat (b * 100) = unat b * 100" using assms(2) by (simp add: unat_word_ariths)
  then have u: "unat (b * 100 div p) = unat b * 100 div unat p" by (simp add: unat_div)
  have "unat b < unat p" using assms(1) by (simp add: word_le_nat_alt)
  then show l: "unat b * 100 div unat p < 100" by (intro less_mult_imp_div_less) simp
  show "unat (ucast (b * 100 div p) :: u8) = unat b * 100 div unat p" 
    using u l by (simp add: unsigned_ucast_eq take_bit_nat_eq_self)
qed

lemma live_windows_disjoint:
  assumes "slot_live i s" "slot_live j s" "i \<noteq> j"
  shows "{uint (sl_ram_vaddr (mx_slots s ! i))..<uint (sl_ram_vaddr (mx_slots s ! i)) + uint (sl_ram_size (mx_slots s ! i))} \<inter>
    {uint (sl_ram_vaddr (mx_slots s ! j))..<uint (sl_ram_vaddr (mx_slots s ! j)) + uint (sl_ram_size (mx_slots s ! j))} = {}"
proof -
  have "(i = 0 \<and> j = 1) \<or> (i = 1 \<and> j = 0)" using assms by (auto simp: slot_live_def)
  then show ?thesis using assms(1,2) by (elim disjE conjE) (simp_all add: slot_live_def guest_windows)
qed

text \<open>C33. The manager keeps the guest protocol on both VMM endpoints.  From start-up, for every sequence of
  requests, every behaviour of the kernel and every behaviour of the VMM domains: a guest is booted once,
  after a granted CREATE; every later request carries the identity that this CREATE returned; no request
  other than CREATE follows a granted DESTROY or a refused CREATE, and no CREATE is sent while a guest is
  booted.  A slot is in use exactly while the guest on its endpoint is booted, and holds its identity.
\<close>

theorem vm_guest_protocol:
  assumes "vm_boot s" "i < 2"
  shows "let s' = snd (vm_manager_main en my_ep ns_ep inps s) in
    \<exists>ph. guest_protocol (slot_ep i) (vm_trace s') Idle = Some ph \<and>
      (if slot_free i s' then \<forall>g. ph \<noteq> Booted g else ph = Booted (g_slot_guest_id s' ! i))"
proof -
  let ?s = "snd (vm_manager_main en my_ep ns_ep inps s)"
  have "slot_ok i ?s" using inv_slot [OF main_inv [OF assms(1)]] assms(2) by (simp add: VM_MAX_SLOTS_def)
  then show ?thesis using assms(2) by (auto simp: Let_def slot_ok_def slot_clear_def slot_live_def split: if_splits)
qed


text \<open>C35. A CREATE request that is refused, at whatever point of the guest's set-up it fails, leaves the
  lifecycle state as it was: slots in use, slot count, profiles, flags, endpoints, identities, quotas and
  the scheduler are unchanged and the reply says so.  A granted one names a slot that was free and now
  holds a booted guest.
\<close>

theorem vm_create_all_or_nothing:
  assumes "vm_inv s" "reply_ok rep"
  shows "case h_create en req rep s of (rc, rep', s') \<Rightarrow> vm_inv s' \<and>
    (if rc = SEL4_ERR_OK
     then reply_words rep' = [VM_OK, ucast (dedicated_slot_for_type (vm_create_vm_type req) s)] \<and>
       slot_free (unat (dedicated_slot_for_type (vm_create_vm_type req) s)) s \<and>
       slot_live (unat (dedicated_slot_for_type (vm_create_vm_type req) s)) s'
     else reply_words rep' = [VM_ERR] \<and> lifecycle s' = lifecycle s)"
proof -
  obtain rc slot s' where d: "dedicated_create en (vm_create_vm_type req) (vm_create_ram_mb req) (vm_create_flags req) s = ((rc, slot), s')"
    by (metis prod.collapse)
  note o = dedicated_create_outcome [OF assms(1) create_type d]
  have w: "reply_words (reply4 v rep) = [v]" "reply_words (reply8 v u rep) = [v, u]" for v u
    using reply_ok_typed [OF assms(2)] by (simp_all add: reply_words_def reply4_def reply8_def rep_u32_def msg_typed_def
        upt_conv_Cons SEL4_MSG_DATA_BYTES_def)
  show ?thesis
    using assms(1) o unfolding h_create_eq [OF assms(1) d]
    by (auto simp: w SEL4_ERR_OK_def SEL4_ERR_BAD_ARG_def SEL4_ERR_BUSY_def SEL4_ERR_INTERNAL_def)
qed


text \<open>C38. No runnable slot starves: a slot that is running or booting with a non-zero quota becomes the
  scheduled slot within 1604 ticks, one round of four full shares.
\<close>

theorem vm_runnable_scheduled:
  assumes "length (g_quotas s) = VM_MAX_SLOTS" "unat (g_sched_current s) < VM_MAX_SLOTS"
    and "list_all quota_ok (g_quotas s)" "i < VM_MAX_SLOTS" "runnable i s"
  shows "\<exists>n \<le> 1604. unat (g_sched_current ((vm_sched_tick ^^ n) s)) = i"
  using assms by (rule runnable_gets_turn)

text \<open>C39. CONFIGURE sets the quota of a slot in use to the percentage of its period that the budget is, capped
  at 100, as long as a hundred times the budget fits in 32 bits.  Beyond that the product wraps: a budget
  of 42,949,673 of a period of 42,949,674 microseconds, all but all of it, is stored as 0 percent.
\<close>

theorem vm_configure_quota:
  fixes req :: sel4_msg
  defines "slot_id \<equiv> (ucast (vm_arg_u32 req 0) :: u8)" and "b \<equiv> vm_arg_u32 req 2" and "p \<equiv> vm_arg_u32 req 3"
  assumes "vm_shape s" "slot_used slot_id s" "vm_arg_u32 req 1 = 0" "b \<noteq> 0" "p \<noteq> 0"
  shows "let q = g_quotas (snd (snd (h_configure req rep s))) ! unat slot_id in
    (p \<le> b \<or> unat b * 100 < 2 ^ 32 \<longrightarrow> unat (qt_max_cpu_pct q) = min 100 (unat b * 100 div unat p) \<and>
       qt_credits q = 4 * int (min 100 (unat b * 100 div unat p))) \<and>
    (b = 42949673 \<and> p = 42949674 \<longrightarrow> qt_max_cpu_pct q = 0)"
proof -
  define pct :: u8 where "pct = ucast (if p \<le> b then 100 else b * 100 div p)"
  define m where "m = (if 100 < pct then 100 else pct)"
  have i: "unat slot_id < length (g_quotas s)" using assms(4,5) by (simp add: slot_used_def vm_shape_def)
  have "g_quotas (snd (snd (h_configure req rep s))) ! unat slot_id =
      (g_quotas s ! unat slot_id)\<lparr>qt_max_cpu_pct := m, qt_credits := quota_credits m\<rparr>"
    using assms(5-8) i unfolding h_configure_def Let_def slot_id_def [symmetric] b_def [symmetric] p_def [symmetric]
    by (simp add: vm_set_quota_def Let_def set_quota_def slot_used_def pct_def [symmetric] m_def [symmetric])
  moreover have qc: "quota_credits m = 4 * int (unat m)" by (subst quota_credits_share) (auto simp: m_def)
  moreover have um: "unat m = min 100 (unat b * 100 div unat p)" if "p \<le> b \<or> unat b * 100 < 2 ^ 32"
  proof (cases "p \<le> b")
    case True
    then have "unat p \<le> unat b" "0 < unat p" using assms(8) by (simp_all add: word_le_nat_alt unat_gt_0)
    then have "100 \<le> unat b * 100 div unat p" by (simp add: less_eq_div_iff_mult_less_eq)
    then show ?thesis using True by (simp add: m_def pct_def)
  next
    case False
    then have "unat pct = unat b * 100 div unat p" "unat b * 100 div unat p < 100"
      using percentage [OF False] that by (simp_all add: pct_def)
    then show ?thesis by (auto simp: m_def word_less_nat_alt)
  qed
  moreover have "m = 0" if "b = 42949673 \<and> p = 42949674" using that by (simp add: m_def pct_def)
  moreover have "quota_credits m = 4 * int (min 100 (unat b * 100 div unat p))" if "p \<le> b \<or> unat b * 100 < 2 ^ 32"
    unfolding qc um [OF that] ..
  ultimately show ?thesis unfolding Let_def by (intro conjI impI) simp_all
qed


section \<open>Concrete runs\<close>

definition ex_vm :: vm_state where
  "ex_vm = \<lparr>mx_slots = replicate 4 (blank_slot\<lparr>sl_label := replicate 16 0\<rparr>), mx_active_slot = 0, mx_slot_count = 0, g_vm_types = [],
     g_vm_flags = [], g_primary_vmm_ep = 0, g_secondary_vmm_ep = 0, g_slot_vmm_ep = [], g_slot_guest_id = [],
     g_slot_guest_bound = [], g_quotas = [], g_sched_current = 0, g_affinity = [], g_ipc_counter = 0,
     vm_list_shmem = None, vm_trace = []\<rparr>"

text \<open>A kernel that refuses every copy, and VMM domains that grant a CREATE with identity 7.\<close>

definition ex_env :: vm_env where
  "ex_env = \<lparr>ve_copy = (\<lambda>_ _ _ _. seL4_InvalidArgument), ve_invoke = (\<lambda>_ _. seL4_NoError),
     ve_vmm = (\<lambda>_ _ _ i. if i = 1 then 8 else if i = 2 then 0x700000000 else 0)\<rparr>"

definition ex_create :: sel4_msg where
  "ex_create = \<lparr>ms_opcode = OP_VM_CREATE, ms_length = 12, ms_data = replicate 48 0\<rparr>"

definition ex_config :: sel4_msg where
  "ex_config = \<lparr>ms_opcode = OP_VM_CONFIGURE, ms_length = 16,
     ms_data = [0,0,0,0, 0,0,0,0, 0x29,0x5C,0x8F,0x02, 0x2A,0x5C,0x8F,0x02] @ replicate 32 0\<rparr>"

definition ex_run :: vm_state where
  "ex_run = set_slot_state 0 VM_SLOT_RUNNING (vm_manager_init ex_vm)"

lemma ex_vm_boot: "vm_boot ex_vm"
  by (simp add: vm_boot_def ex_vm_def VM_MAX_SLOTS_def)

lemma ex_run_shape: "vm_shape ex_run"
  by (simp add: vm_shape_def ex_run_def set_slot_state_def vm_manager_init_def vmm_mux_init_def ex_vm_def VM_MAX_SLOTS_def)

lemma ex_run_sched:
  "length (g_quotas ex_run) = VM_MAX_SLOTS" "unat (g_sched_current ex_run) < VM_MAX_SLOTS"
  "list_all quota_ok (g_quotas ex_run)" "runnable 0 ex_run" "slot_used 0 ex_run"
  by (simp_all add: ex_run_def set_slot_state_def vm_manager_init_def vmm_mux_init_def ex_vm_def VM_MAX_SLOTS_def
      runnable_def slot_runs_def slot_used_def list_all_iff quota_ok_def)

lemma ex_config_args: "vm_arg_u32 ex_config 0 = 0" "vm_arg_u32 ex_config 1 = 0" "vm_arg_u32 ex_config 2 = 42949673"
  "vm_arg_u32 ex_config 3 = 42949674"
  by code_simp+

theorem vm_guest_protocol_witness:
  "let s' = snd (vm_manager_main ex_env 1 2 [(0, sel4_msg_to_mrs ex_create (\<lambda>_. 0))] ex_vm) in
    \<exists>ph. guest_protocol (slot_ep 0) (vm_trace s') Idle = Some ph \<and>
      (if slot_free 0 s' then \<forall>g. ph \<noteq> Booted g else ph = Booted (g_slot_guest_id s' ! 0))"
  by (rule vm_guest_protocol [OF ex_vm_boot]) simp


lemma ex_create_eval:
  "fst (h_create ex_env ex_create empty_msg (vm_manager_register_with_nameserver 0 (vm_manager_init ex_vm))) = SEL4_ERR_INTERNAL"
  by code_simp

theorem vm_create_all_or_nothing_witness:
  "\<exists>rep' s'. h_create ex_env ex_create empty_msg (vm_manager_register_with_nameserver 0 (vm_manager_init ex_vm)) =
      (SEL4_ERR_INTERNAL, rep', s') \<and> reply_words rep' = [VM_ERR] \<and>
    lifecycle s' = lifecycle (vm_manager_register_with_nameserver 0 (vm_manager_init ex_vm))"
proof -
  obtain rep' s' where h: "h_create ex_env ex_create empty_msg (vm_manager_register_with_nameserver 0 (vm_manager_init ex_vm)) =
      (SEL4_ERR_INTERNAL, rep', s')"
    by (metis ex_create_eval prod.collapse)
  then show ?thesis
    using vm_create_all_or_nothing [where en = ex_env and req = ex_create, OF boot_inv [OF ex_vm_boot, of 0] reply_ok_empty]
    by (simp add: SEL4_ERR_INTERNAL_def SEL4_ERR_OK_def)
qed


theorem vm_runnable_scheduled_witness:
  "\<exists>n \<le> 1604. unat (g_sched_current ((vm_sched_tick ^^ n) ex_run)) = 0"
  by (rule vm_runnable_scheduled [OF ex_run_sched(1-3) _ ex_run_sched(4)]) (simp add: VM_MAX_SLOTS_def)

theorem vm_configure_quota_witness:
  "qt_max_cpu_pct (g_quotas (snd (snd (h_configure ex_config empty_msg ex_run))) ! 0) = 0"
  using vm_configure_quota [of ex_run ex_config empty_msg] ex_run_shape ex_run_sched(5) by (simp add: ex_config_args Let_def)

end
