(* ===== verification/VmScratch.thy ===== *)
theory VmScratch
  imports VmService
begin

text \<open>
  The manager's scratch slots.  Guest set-up copies capabilities of a guest into the manager's CNode;
  every such copy is deleted again before the request is answered, on success and on every failure.
\<close>

unbundle bit_operations_syntax

section \<open>Copies and deletions\<close>

definition deleted_slot :: "sel4_call \<Rightarrow> u64 option" where
  "deleted_slot c = (case c of CNode_Delete _ slot _ \<Rightarrow> Some slot | _ \<Rightarrow> None)"

text \<open>The slots copied into and not deleted since, whatever the kernel answered to the deletion.\<close>

fun scratch_step :: "vm_event \<Rightarrow> u64 set \<Rightarrow> u64 set" where
  "scratch_step (VmCopy d r i err) P = (if err = seL4_NoError then insert d P else P)"
| "scratch_step (VmInv c err) P = (case deleted_slot c of None \<Rightarrow> P | Some slot \<Rightarrow> P - {slot})"
| "scratch_step (VmRpc ep req rep) P = P"
| "scratch_step (VmRegister ep m) P = P"

definition pending :: "vm_event list \<Rightarrow> u64 set" where
  "pending tr = fold scratch_step tr {}"

text \<open>The slots that hold a copy, and those whose deletion the kernel once refused.\<close>

fun occupied_step :: "vm_event \<Rightarrow> u64 set \<Rightarrow> u64 set" where
  "occupied_step (VmCopy d r i err) P = (if err = seL4_NoError then insert d P else P)"
| "occupied_step (VmInv c err) P =
     (case deleted_slot c of None \<Rightarrow> P | Some slot \<Rightarrow> if err = seL4_NoError then P - {slot} else P)"
| "occupied_step (VmRpc ep req rep) P = P"
| "occupied_step (VmRegister ep m) P = P"

definition occupied :: "vm_event list \<Rightarrow> u64 set" where
  "occupied tr = fold occupied_step tr {}"

definition refused_deletions :: "vm_event list \<Rightarrow> u64 set" where
  "refused_deletions tr = {slot. \<exists>c err. VmInv c err \<in> set tr \<and> deleted_slot c = Some slot \<and> err \<noteq> seL4_NoError}"

lemma occupied_refused: "occupied tr \<subseteq> pending tr \<union> refused_deletions tr"
proof (induction tr rule: rev_induct)
  case (snoc e tr)
  have r: "refused_deletions tr \<subseteq> refused_deletions (tr @ [e])" by (auto simp: refused_deletions_def)
  show ?case
  proof (cases e)
    case (VmInv c err)
    then have "slot \<in> refused_deletions (tr @ [e])" if "deleted_slot c = Some slot" "err \<noteq> seL4_NoError" for slot
      using that by (auto simp: refused_deletions_def)
    with VmInv snoc r show ?thesis by (auto simp: occupied_def pending_def split: option.splits)
  qed (use snoc r in \<open>auto simp: occupied_def pending_def\<close>)
qed (simp add: occupied_def)

section \<open>Guest set-up\<close>

lemma pending_snoc: "pending (tr @ [e]) = scratch_step e (pending tr)"
  by (simp add: pending_def)

lemma pending_copy:
  "vm_copy en d r i s = (err, s') \<Longrightarrow>
     pending (vm_trace s') = (if err = seL4_NoError then insert d (pending (vm_trace s)) else pending (vm_trace s))"
  by (auto simp: vm_copy_def Let_def pending_snoc)

lemma pending_delete: "vm_delete en slot s = (err, s') \<Longrightarrow> pending (vm_trace s') = pending (vm_trace s) - {slot}"
  by (auto simp: vm_delete_def vm_invoke_def Let_def pending_snoc deleted_slot_def)

lemma pending_invoke:
  "vm_invoke en c s = (err, s') \<Longrightarrow> deleted_slot c = None \<Longrightarrow> pending (vm_trace s') = pending (vm_trace s)"
  by (auto simp: vm_invoke_def Let_def pending_snoc)

definition scratch :: "nat \<Rightarrow> u64 set" where
  "scratch n = (\<lambda>k. AOS_GUEST_SCHED_SCRATCH_BASE + of_nat k) ` {..<n}"

lemma scratch_Suc: "scratch (Suc n) = insert (AOS_GUEST_SCHED_SCRATCH_BASE + of_nat n) (scratch n)"
  by (simp add: scratch_def lessThan_Suc)

lemma copy_objects_pending:
  "copy_objects en client n copied s = (ok, copied', s') \<Longrightarrow> pending (vm_trace s) = scratch copied \<Longrightarrow>
     pending (vm_trace s') = scratch copied'"
proof (induction en client n copied s rule: copy_objects.induct)
  case (2 en client n copied s)
  obtain err s1 where c: "vm_copy en (AOS_GUEST_SCHED_SCRATCH_BASE + of_nat copied)
      (AOS_GUEST_SCHED_EXCHANGE_BASE + ucast client) (of_nat copied) s = (err, s1)" by fastforce
  show ?case
    using 2 pending_copy [OF c] by (cases "err = seL4_NoError") (auto simp: c scratch_Suc)
qed simp

lemma delete_objects_pending:
  "delete_objects en n ok s = (ok', s') \<Longrightarrow> pending (vm_trace s) \<subseteq> scratch n \<Longrightarrow> pending (vm_trace s') = {}"
proof (induction en n ok s rule: delete_objects.induct)
  case (2 en n ok s)
  obtain err s1 where d: "vm_delete en (AOS_GUEST_SCHED_SCRATCH_BASE + of_nat n) s = (err, s1)" by fastforce
  have "pending (vm_trace s1) \<subseteq> scratch n" using 2(3) pending_delete [OF d] by (auto simp: scratch_Suc)
  then show ?case using 2(1) [OF d [symmetric]] 2(2) d by simp
qed (simp add: scratch_def)

lemma gic_prepare_pending:
  assumes "aos_guest_gic_prepare en client s = (ok, s')" "pending (vm_trace s) = {}"
  shows "pending (vm_trace s') = {}"
proof -
  let ?frame = "AOS_GUEST_GIC_FRAME_BASE + ucast client"
  obtain e1 s1 where c: "vm_copy en AOS_GUEST_GIC_VSPACE_SCRATCH (AOS_GUEST_SCHED_EXCHANGE_BASE + ucast client)
      AOS_GUEST_GIC_VSPACE_EXCHANGE_SLOT s = (e1, s1)" by fastforce
  obtain e2 s2 where u: "vm_invoke en (ARM_Page_Unmap ?frame) s1 = (e2, s2)" by fastforce
  obtain e3 s3 where m: "vm_invoke en (ARM_Page_Map ?frame AOS_GUEST_GIC_VSPACE_SCRATCH AOS_GUEST_GIC_IPA seL4_AllRights) s2 = (e3, s3)"
    by fastforce
  let ?t = "if e2 = seL4_NoError then s3 else s2"
  obtain e4 s4 where d: "vm_delete en AOS_GUEST_GIC_VSPACE_SCRATCH ?t = (e4, s4)" by fastforce
  have p: "pending (vm_trace s1) \<subseteq> {AOS_GUEST_GIC_VSPACE_SCRATCH}" "e1 \<noteq> seL4_NoError \<Longrightarrow> pending (vm_trace s1) = {}"
    using pending_copy [OF c] assms(2) by auto
  have "pending (vm_trace s4) = {}"
    using p(1) pending_invoke [OF u] pending_invoke [OF m] pending_delete [OF d] by (auto simp: deleted_slot_def split: if_splits)
  moreover have "s' = s \<or> (e1 \<noteq> seL4_NoError \<and> s' = s1) \<or> s' = s4"
    using assms(1) d by (cases "e2 = seL4_NoError") (auto simp: aos_guest_gic_prepare_def Let_def c u m split: if_splits prod.splits)
  ultimately show ?thesis using assms(2) p(2) by auto
qed

lemma scheduling_pending:
  assumes "aos_guest_scheduling_configure en client s = (ok, s')" "pending (vm_trace s) = {}"
  shows "pending (vm_trace s') = {}"
proof (cases "AOS_GUEST_SCHED_CLIENTS \<le> client")
  case False
  obtain ok1 copied s1 where c: "copy_objects en client AOS_GUEST_SCHED_OBJECTS 0 s = (ok1, copied, s1)"
    using prod_cases3 by blast
  have p1: "pending (vm_trace s1) = scratch copied"
    using copy_objects_pending [OF c] assms(2) by (simp add: scratch_def)
  obtain e2 s2 where i2: "(if ok1 then vm_invoke en (SchedControl_ConfigureFlags (AOS_GUEST_SCHED_CONTROL_BASE + ucast client)
      (AOS_GUEST_SCHED_SCRATCH_BASE + AOS_GUEST_SCHED_SC) AOS_GUEST_SCHED_BUDGET_US
      AOS_GUEST_SCHED_PERIOD_US 0 0 0) s1 else (seL4_InvalidArgument, s1)) = (e2, s2)" by fastforce
  obtain e3 s3 where i3: "(if ok1 \<and> e2 = seL4_NoError
      then vm_invoke en (TCB_SetSchedParams (AOS_GUEST_SCHED_SCRATCH_BASE + AOS_GUEST_SCHED_TCB)
        AOS_GUEST_SCHED_AUTHORITY AOS_GUEST_SCHED_PRIORITY AOS_GUEST_SCHED_PRIORITY
        (AOS_GUEST_SCHED_SCRATCH_BASE + AOS_GUEST_SCHED_SC) (AOS_GUEST_SCHED_SCRATCH_BASE + AOS_GUEST_SCHED_FAULT_EP)) s2
      else (seL4_InvalidArgument, s2)) = (e3, s3)" by fastforce
  have "pending (vm_trace s2) = pending (vm_trace s1)"
    using i2 by (cases ok1, simp, elim pending_invoke) (simp_all add: deleted_slot_def)
  moreover have "pending (vm_trace s3) = pending (vm_trace s2)"
    using i3 by (cases "ok1 \<and> e2 = seL4_NoError", simp, elim pending_invoke) (auto simp: deleted_slot_def)
  ultimately have "pending (vm_trace s3) = scratch copied" using p1 by simp
  moreover have "delete_objects en copied (ok1 \<and> e2 = seL4_NoError \<and> e3 = seL4_NoError) s3 = (ok, s')"
    using assms(1) False by (simp only: aos_guest_scheduling_configure_def c i2 i3 if_False prod.case)
  ultimately show ?thesis using delete_objects_pending by blast
qed (use assms in \<open>simp add: aos_guest_scheduling_configure_def\<close>)


section \<open>Every request\<close>

text \<open>Calls to VMM domains and changes of the tables concern no scratch slot.\<close>

lemma rpc_pending:
  "dedicated_guest_rpc en slot_id opc p s = (out, s') \<Longrightarrow> pending (vm_trace s') = pending (vm_trace s)"
  by (auto simp: dedicated_guest_rpc_def vmm_call_def Let_def pending_snoc split: if_splits)

lemma set_state_trace [simp]: "vm_trace (set_slot_state i st s) = vm_trace s"
  by (simp add: set_slot_state_def)

lemma guest_call_pending:
  assumes "dedicated_guest_call en slot_id opc st s = (rc, s')"
  shows "pending (vm_trace s') = pending (vm_trace s)"
proof -
  define p where "p = (if opc = MSG_GUEST_DESTROY then [0, 0, 0, 0, GUEST_DESTROY_NORMAL, 0, 0, 0] else [0, 0, 0, 0])"
  obtain c out t where r: "dedicated_guest_rpc en slot_id opc p s = ((c, out), t)" by (metis prod.collapse)
  have "s' = (if c \<noteq> VM_OK then t else set_slot_state (unat slot_id) st t)"
    using assms unfolding dedicated_guest_call_def p_def [symmetric] by (simp add: r split: if_splits)
  then show ?thesis using rpc_pending [OF r] by simp
qed

lemma slot_trace [simp]:
  "vm_trace (release_slot i s) = vm_trace s" "vm_trace (claim_slot ty fl sl s) = vm_trace s"
  by (simp_all add: release_slot_def claim_slot_def Let_def)

lemma prepare_pending:
  assumes "prepare_guest en client s = (ok, s')" "pending (vm_trace s) = {}" shows "pending (vm_trace s') = {}"
proof -
  obtain ok1 s1 where g: "aos_guest_gic_prepare en client s = (ok1, s1)" by fastforce
  show ?thesis
    using assms(1) gic_prepare_pending [OF g assms(2)] scheduling_pending [of en client s1 ok s']
    by (cases ok1) (simp_all add: prepare_guest_def g)
qed

lemma start_guest_pending:
  assumes "start_guest en vm_type slot_id ep s = (ok, s')" "pending (vm_trace s) = {}"
  shows "pending (vm_trace s') = {}"
proof -
  obtain rc out s1 where c: "dedicated_guest_rpc en slot_id MSG_GUEST_CREATE
      (let t = dedicated_vmm_os_type vm_type in [ucast (t AND 0xff), ucast (drop_bit 8 t AND 0xff),
        ucast (drop_bit 16 t AND 0xff), ucast (drop_bit 24 t AND 0xff)]) s = ((rc, out), s1)"
    by (metis prod.collapse)
  obtain ok3 s3 where q: "prepare_guest en (if ep = g_secondary_vmm_ep s1 then 1 else 0) s1 = (ok3, s3)" by fastforce
  obtain rc4 s4 where b: "dedicated_guest_call en slot_id MSG_GUEST_BOOT VM_SLOT_RUNNING s3 = (rc4, s4)" by fastforce
  have p1: "pending (vm_trace s1) = {}" using rpc_pending [OF c] assms(2) by simp
  then have "pending (vm_trace s3) = {}" using prepare_pending [OF q] by simp
  moreover have "pending (vm_trace s4) = pending (vm_trace s3)" by (rule guest_call_pending [OF b])
  ultimately show ?thesis using assms(1) p1 by (auto simp: start_guest_eq c q b split: if_splits)
qed

lemma create_pending:
  assumes "dedicated_create en ty ram fl s = (out, s')" "pending (vm_trace s) = {}"
  shows "pending (vm_trace s') = {}"
proof -
  let ?sid = "dedicated_slot_for_type ty s"
  obtain ok t where st: "start_guest en ty ?sid (vm_endpoint_for_type ty s) (claim_slot ty fl ?sid s) = (ok, t)" by fastforce
  have "pending (vm_trace t) = {}" using start_guest_pending [OF st] assms(2) by simp
  moreover have "s' = s \<or> s' = t \<or> s' = release_slot (unat ?sid) t"
    using assms(1) by (auto simp: dedicated_create_def Let_def st split: if_splits)
  ultimately show ?thesis using assms(2) by auto
qed

lemma destroy_pending:
  assumes "dedicated_destroy en slot_id s = (rc, s')" shows "pending (vm_trace s') = pending (vm_trace s)"
proof -
  obtain c t where r: "dedicated_guest_call en slot_id MSG_GUEST_DESTROY VM_SLOT_HALTED s = (c, t)" by fastforce
  have "s' = (if c \<noteq> VM_OK then t else release_slot (unat slot_id) t)"
    using assms by (simp add: dedicated_destroy_def r split: if_splits)
  then show ?thesis using guest_call_pending [OF r] by simp
qed

definition tidy :: "vm_state \<Rightarrow> bool" where
  "tidy s \<longleftrightarrow> vm_inv s \<and> pending (vm_trace s) = {}"

lemma quota_trace [simp]: "vm_trace (snd (vm_set_quota slot_id pct s)) = vm_trace s"
  by (simp add: vm_set_quota_def Let_def set_quota_def)

lemma quota_pending: "vm_set_quota slot_id pct s = (rc, s') \<Longrightarrow> pending (vm_trace s') = pending (vm_trace s)"
  using quota_trace [of slot_id pct s] by simp

lemma handlers_tidy:
  assumes "tidy s" "(op, fn) \<in> set (vm_handlers en)" "fn r badge req rep s = (rc, rep', s')"
  shows "pending (vm_trace s') = {}"
proof -
  have p: "vm_inv s" "pending (vm_trace s) = {}" using assms(1) by (auto simp: tidy_def)
  obtain c sl t where d: "dedicated_create en (vm_create_vm_type req) (vm_create_ram_mb req) (vm_create_flags req) s = ((c, sl), t)"
    by (metis prod.collapse)
  have cr: "h_create en req rep s = (rc, rep', s') \<Longrightarrow> pending (vm_trace s') = {}"
    using create_pending [OF d p(2)] p(2) unfolding h_create_eq [OF p(1) d] by (auto split: if_splits)
  have "pending (vm_trace s') = {}" if "(op, fn) \<in> set (tl (vm_handlers en))"
    using that assms(3) p(2)
    by (auto simp: vm_handlers_def h_destroy_def h_start_def h_stop_def h_pause_def h_resume_def h_console_def h_info_def
        h_list_def h_snapshot_restore_def h_configure_def h_send_input_def h_console_drain_def h_set_quota_def
        h_get_stats_def h_set_affinity_def h_inject_irq_def Let_def vmm_mux_destroy_def vmm_mux_pause_def
        vmm_mux_resume_def vmm_mux_switch_def vmm_set_affinity_def vmm_inject_irq_def
        split: prod.splits if_splits option.splits dest!: guest_call_pending destroy_pending rpc_pending quota_pending)
  moreover have "(op, fn) = (OP_VM_CREATE, \<lambda>r ba. h_create en) \<or> (op, fn) \<in> set (tl (vm_handlers en))"
    using assms(2) by (simp add: vm_handlers_def)
  ultimately show ?thesis using cr assms(3) by (elim disjE) simp_all
qed


interpretation scratch_srv: rpc_service "vm_srv en ep" tidy
proof
  fix op fn req rep s r badge rc rep' s'
  assume h: "(op, fn) \<in> set (sv_handlers (vm_srv en ep))" "reply_ok req" "reply_ok rep" "tidy s"
    and f: "fn r badge req rep s = (rc, rep', s')"
  have "reply_ok rep' \<and> vm_inv s'" using vms.handler_keeps [OF h(1-3) _ f] h(4) by (simp add: tidy_def)
  moreover have "pending (vm_trace s') = {}" by (rule handlers_tidy [OF h(4) h(1) [unfolded vm_srv_handlers] f])
  ultimately show "reply_ok rep' \<and> tidy s'" by (simp add: tidy_def)
qed

lemma tick_trace: "vm_inv s \<Longrightarrow> vm_trace (vm_sched_tick s) = vm_trace s"
  using tick_refines(1) [of s] by (auto simp: vm_inv_def vm_shape_def elim!: same_schedE)

lemma count_ipc_tidy: assumes "tidy s" shows "tidy (vm_count_ipc s)"
proof -
  have "vm_inv (s\<lparr>g_ipc_counter := 0\<rparr>)"
    using assms by (auto simp: tidy_def vm_inv_def vm_shape_def VM_SCHED_IPC_QUANTUM_def)
  then have "vm_trace (vm_count_ipc s) = vm_trace s" by (simp add: vm_count_ipc_def Let_def tick_trace)
  then show ?thesis using assms count_ipc_ok by (simp add: tidy_def)
qed

lemma vm_passes_tidy:
  "reply_ok rep \<Longrightarrow> tidy s \<Longrightarrow> tidy (snd (vm_passes en ep inps (rep, s)))"
proof (induction inps arbitrary: rep s)
  case (Cons inp inps)
  obtain badge r where inp: "inp = (badge, r)" by (cases inp)
  obtain rc rp t where d: "sel4_server_dispatch (vm_srv en ep) r badge (sel4_mrs_to_msg r)
      (rep\<lparr>ms_opcode := 0, ms_length := 0\<rparr>) (vm_count_ipc s) = (rc, rp, t)"
    using prod_cases3 by blast
  note k = scratch_srv.dispatch_keeps [OF mrs_to_msg_ok scratch_srv.reset_ok [OF Cons.prems(1)] count_ipc_tidy [OF Cons.prems(2)] d]
  show ?case using Cons.IH [OF k(1,2)] by (simp add: inp server_pass_def d Let_def split: prod.splits) auto
qed simp



end
