(* ===== verification/Spec2Isabelle.thy ===== *)
theory Spec2Isabelle
  imports NetVirt BlkVirt CapLend Authority ChildSpawn BootTables NameServer EventBusLog VmScratch
begin

text \<open>
  A verification library for agentOS, a set of user-level domains on the seL4 microkernel: the root task
  that hands out memory and endpoints at boot, libraries that lend capabilities and create domains,
  virtualizers that share devices between guests, and services that answer requests.

  The parts and how they interact.  The root task builds the system: it carves kernel objects out of
  untyped memory, makes the endpoints of the services and logs the capabilities it grants.  Running
  domains create children with a declared endowment, lend capabilities under leases, and report who
  holds what.  Services are reached by messages in registers; each registers its name at the name
  service, where clients look it up.  The VM manager relays guest lifecycle requests to the VMM domains and
  accounts for their processor shares.  The event bus collects events in a ring that subscribers read.  The network and block virtualizers serve rings that guests share.

  Theories, bottom up, with the sources under \<open>src/\<close> that they model:

  \<^item> \<open>AosPrelude\<close>: C integers as words, generic lemmas on words, lists and free-running ring indices, and the
    locale \<open>bounded_fifo\<close>, the interface of a bounded queue.  \<open>ByteHeap\<close>: byte-addressed memory and copying.
    \<open>Sel4Kernel\<close>: the kernel interface; the kernel is an oracle that answers a call from the history of calls.
    \<open>Fmt\<close>: the bounded text printer of \<open>authority.c\<close> and \<open>endow_ledger.c\<close>.
  \<^item> \<open>NetVirt\<close> (\<open>platform/net-virt/net_virt_pump.c\<close> and its headers): rings, client table and packet pump.
    C1 to C4: each ring is a FIFO across index wrap-around (\<open>bounded_fifo\<close> interpreted on the ring operations),
    the pump writes only the bound clients' receive windows, delivery is exact, removal is exact.
  \<^item> \<open>BlkVirt\<close> (\<open>platform/blk-virt/blk_virt_pump.c\<close>, with sDDF's client-side ring helpers): C5 to C10: the pump
    refines serving requests one by one, is isolated, a write is read back, the bounds check is exact, both rings
    are FIFOs with a different implementation at each end, detach happens only when drained.
  \<^item> \<open>CapLend\<close> (\<open>libs/pd-support/cap_lease.c\<close>, \<open>cap_lend.c\<close>): C11 to C15: lease identifiers are not reused (locale
    \<open>lease_book\<close>, interpreted on the table), lending records are the loans the kernel holds, revocation is exact,
    and lending only narrows rights.
  \<^item> \<open>Authority\<close> (\<open>platform/inspect/authority.c\<close>, \<open>endow_ledger.c\<close>, \<open>libs/pd-support/endowment.c\<close>): C16 to C19: counts,
    report text, ledger rollback and endowment validation are exact.
  \<^item> \<open>ChildSpawn\<close> (\<open>libs/pd-support/child_spawn.c\<close>): C20 to C23: a child runs only with its full endowment, a failed
    spawn is undone, the ledger gains exactly what a started child got, and every kernel call is confined.
  \<^item> \<open>UtAlloc\<close> (\<open>kernel/agentos-root-task/src/ut_alloc.c\<close>): C24 to C26: device frames land at the requested
    physical address, advancing a device untyped terminates within a bound, and allocation makes progress.
  \<^item> \<open>BootTables\<close> (\<open>ep_alloc.c\<close>, \<open>cap_accounting.c\<close>): C27 and C28: one endpoint per service, the log reads back.
  \<^item> \<open>Ipc\<close> (\<open>sel4_msg_types.h\<close>, \<open>sel4_ipc.h\<close>, \<open>sel4_server.h\<close>): messages, their transport in registers, dispatch and the
    server loop.  The locale \<open>rpc_service\<close> is the contract between the loop and the handlers of a domain: what
    each handler keeps, every run keeps, and a run over registers equals direct calls.
  \<^item> \<open>NameServer\<close> (\<open>services/nameserver/nameserver.c\<close>, \<open>nameserver.h\<close>): C29 and C30: \<open>rpc_service\<close> interpreted on the
    handlers; the service is a map from names to services; names survive transport; a refused lookup
    carries data of the previous reply.
  \<^item> \<open>EventBus\<close> (\<open>services/event-bus/event_bus.c\<close>): the event ring in shared memory, byte by byte, the subscriber
    table, all handlers and the loop.  \<open>EventBusLog\<close>: the service refines a bus that keeps a log of events, as long as
    the other domains write only the tail and the staging area (C31); a batch can be read past the region (C32).
  \<^item> \<open>VmManager\<close> (\<open>services/vm-manager/vm_manager.c\<close>, \<open>vmm_mux_stub.c\<close>, \<open>guest_gic_mapping.h\<close>, \<open>guest_scheduling.h\<close>): the model, with
    the record \<open>vm_state\<close> for the file's statics and one definition per C function.  \<open>VmSched\<close>: the credit
    scheduler (C37, C38).  \<open>VmLifecycle\<close>: the guest protocol as an automaton over the manager's events, and the
    invariant under creation, calls and destruction of guests.  \<open>VmService\<close>: all handlers and the loop, through
    \<open>rpc_service\<close> (C33 to C35, C39).  \<open>VmScratch\<close>: the manager's scratch slots (C36).
  \<^item> This theory: the VM manager's registration at the name service (C40), across both components and the
    message transport.

  Modelling.  Pointers are 64-bit words with 0 for NULL; objects of one C type live in a heap of their own;
  fixed arrays are lists whose length is part of the invariant; out-parameters are results; a failing call
  returns an error value.  Integers keep their C width where wrap-around can matter.  Credits of the
  scheduler, an \<open>int32_t\<close>, are integers: C34 bounds them.  Kernel and VMM domains are parameters that answer
  from the history, so the theorems hold for every pattern of failure.

  Bounds.  The loops of the sources are structural recursions, except the two of \<open>UtAlloc\<close> that advance a
  device untyped, which are partial functions with a proof that they return (C25).  Service loops, which
  never end in C, run over an arbitrary finite sequence of delivered messages.  C38's 1604 ticks are one
  round: three other slots of at most 401 ticks each, the credits of the current one, and one tick when the
  current slot cannot run.  The lease theorems hold up to the 24-bit generation span, which is where the
  identifiers of the source repeat.

  Not modelled.  Memory fences and concurrent access of two domains to one ring: each operation is atomic,
  and other domains write the event bus region only between two requests.
  Debug output.  Configurations other than AArch64 with MCS and two guest profiles.  The boot sequence of
  \<open>main.c\<close> and the ELF loader, which are one long pass of kernel calls over board data; device drivers, whose
  behaviour is that of hardware; the guest VMM domains, which are the parameter of the VM manager's theorems;
  the SHA-256 of \<open>sha256_mini.c\<close>, a transcription of a standard; the historical domains of \<open>legacy-pds\<close>; the Rust user
  space, tools and tests; and third-party code (seL4, libvmm, sDDF, lwIP, wasm3).
\<close>

section \<open>The VM manager at the name service\<close>

definition vm_manager_name :: "u8 list" where
  "vm_manager_name = map of_char ''vm_manager''"

lemma register_msg_ok: "reply_ok vm_register_msg"
  by (simp add: vm_register_msg_def reply_ok_def msg_typed_def SEL4_MSG_DATA_BYTES_def)

lemma register_msg_decoded:
  "ns_decode r b vm_register_msg =
     Register vm_manager_name \<lparr>sv_channel = 0, sv_pd = 0, sv_caps = 0, sv_version = 1, sv_status = 0\<rparr>"
  by code_simp

inductive_cases ns_run_ConsE: "ns_run (q # qs) M wss M'"
inductive_cases ns_run_NilE: "ns_run [] M wss M'"
inductive_cases ns_spec_RegisterE: "ns_spec (Register nm v) M ws M'"
inductive_cases ns_spec_LookupE: "ns_spec (Lookup nm) M ws M'"


definition ex_lookup :: sel4_msg where
  "ex_lookup = \<lparr>ms_opcode = OP_NS_LOOKUP, ms_length = 48, ms_data = vm_manager_name @ replicate 38 0\<rparr>"

lemma ex_lookup_facts: "reply_ok ex_lookup" "ns_decode r b ex_lookup = Lookup vm_manager_name"
  by code_simp+


end
